(* ===== verification/PW_Prelude.thy ===== *)
theory PW_Prelude
  imports Main "HOL-Library.Word"
begin

text \<open>
  Shared vocabulary of the development.

  \<^item> Names for the C integer types used by the code: \<open>u8\<close>, \<open>u32\<close>, \<open>u64\<close>; \<open>size_t\<close> and
    \<open>uintptr_t\<close> are 64 bits wide (LP64 targets).
  \<^item> \<open>errno\<close>: the error numbers the modelled functions return with a minus sign. A C function
    that returns \<open>0\<close> or a negative errno and fills in out-parameters is modelled as a function
    into \<open>errno + 'a\<close>, \<open>Inl\<close> being the error.
  \<^item> Byte memory: loads and little-endian integers, with their round trips and the lemma that a
    load only depends on the bytes it names. The code reads and writes native-endian integers;
    the model fixes the byte order of the supported targets (x86-64, aarch64).
  \<^item> Bounded copies on byte arrays (\<open>memcpy\<close> into and out of an array), where an access outside
    the array is the value \<open>None\<close>.
  \<^item> Generic facts on words, lists and bounded search that several components share.
\<close>

unbundle bit_operations_syntax

named_theorems pw_simps \<open>definitions the component proofs unfold together\<close>

section \<open>Integer types and error numbers\<close>

type_synonym u8 = "8 word"
type_synonym u32 = "32 word"
type_synonym u64 = "64 word"

datatype errno =
    EINVAL | EOVERFLOW | ENOSPC | ENOENT | ENOTSUP | ENOMEM | EPIPE | EPROTONOSUPPORT | EAGAIN
  | ESRCH | EBUSY | EPROTO | EIO | EFAULT

type_synonym 'a res = "errno + 'a"

text \<open>\<^verbatim>\<open>struct spa_fraction\<close> of \<^verbatim>\<open>spa/utils/defs.h\<close>.\<close>

record spa_fraction =
  num :: u32
  denom :: u32

section \<open>Words as numbers\<close>

lemma unat_lt_32: "unat (x :: u32) < 4294967296"
  using unsigned_less [of x, where ?'a = nat] by simp

lemma unat_lt_64: "unat (x :: u64) < 18446744073709551616"
  using unsigned_less [of x, where ?'a = nat] by simp

lemma unat_lt_8: "unat (x :: u8) < 256"
  using unsigned_less [of x, where ?'a = nat] by simp

lemma unat_of_nat_32: "n < 4294967296 \<Longrightarrow> unat (of_nat n :: u32) = n"
  by (simp add: unat_of_nat take_bit_eq_mod)

lemma unat_of_nat_64: "n < 18446744073709551616 \<Longrightarrow> unat (of_nat n :: u64) = n"
  by (simp add: unat_of_nat take_bit_eq_mod)

lemma unat_ucast_32_64 [simp]: "unat (ucast (x :: u32) :: u64) = unat x"
proof -
  have "unat x < 18446744073709551616" using unat_lt_32 [of x] by linarith
  then show ?thesis by (simp add: unsigned_ucast_eq take_bit_eq_mod)
qed

lemma unat_plus_32: "unat (x + y :: u32) = (unat x + unat y) mod 4294967296"
  by (simp add: unat_word_ariths)

lemma unat_plus_64: "unat (x + y :: u64) = (unat x + unat y) mod 18446744073709551616"
  by (simp add: unat_word_ariths)

lemma unat_minus_no_wrap: "y \<le> x \<Longrightarrow> unat (x - y) = unat x - unat (y :: 'a::len word)"
  by (rule unat_sub)

lemma word_le_unat: "(x :: 'a::len word) \<le> y \<longleftrightarrow> unat x \<le> unat y"
  by (rule word_le_nat_alt)

lemma word_less_unat: "(x :: 'a::len word) < y \<longleftrightarrow> unat x < unat y"
  by (rule word_less_nat_alt)

lemma word_eq_unat: "(x :: 'a::len word) = y \<longleftrightarrow> unat x = unat y"
  by (rule word_unat_eq_iff)

lemma word_and_split: "(x AND m) + (x AND NOT m) = (x :: 'a :: len word)"
  by (subst disjunctive_add_eq_or) (auto intro!: bit_word_eqI simp: bit_simps)

lemma word_and_not: "x AND NOT m = x - (x AND m)" for x :: "'a :: len word"
  by (metis add_diff_cancel_left' word_and_split)

lemma word_and_mask: "x AND mask n = take_bit n x" for x :: "'a :: len word"
  by (simp add: take_bit_eq_mask)

lemma unat_and_mask: "unat (x AND mask n) = unat x mod 2 ^ n" for x :: "'a :: len word"
  unfolding word_and_mask unsigned_take_bit_eq by (rule take_bit_eq_mod)

lemma unat_and_7: "unat (x AND 7) = unat x mod 8" for x :: "'a :: len word"
  using unat_and_mask [of x 3] by (simp add: mask_eq_exp_minus_1)

lemma unat_and_3: "unat (x AND 3) = unat x mod 4" for x :: "'a :: len word"
  using unat_and_mask [of x 2] by (simp add: mask_eq_exp_minus_1)

lemma unat_align_8: "unat (x AND NOT 7) = unat x - unat x mod 8" for x :: "'a :: len word"
proof -
  have "x AND 7 \<le> x" by (simp add: word_le_unat unat_and_7)
  thus ?thesis unfolding word_and_not by (simp add: unat_minus_no_wrap unat_and_7)
qed

text \<open>
  \<^verbatim>\<open>__builtin_add_overflow\<close> and \<^verbatim>\<open>__builtin_mul_overflow\<close> on \<^verbatim>\<open>size_t\<close>
  (\<^verbatim>\<open>spa/utils/overflow.h\<close>): \<open>None\<close> when the exact result does not fit.
\<close>

definition spa_overflow_add :: "u64 \<Rightarrow> u64 \<Rightarrow> u64 option" where
  "spa_overflow_add a b = (if unat a + unat b < 2 ^ 64 then Some (a + b) else None)"

definition spa_overflow_mul :: "u64 \<Rightarrow> u64 \<Rightarrow> u64 option" where
  "spa_overflow_mul a b = (if unat a * unat b < 2 ^ 64 then Some (a * b) else None)"

lemma spa_overflow_add_Some:
  "spa_overflow_add a b = Some c \<longleftrightarrow> unat a + unat b < 2 ^ 64 \<and> c = a + b"
  by (auto simp: spa_overflow_add_def)

lemma spa_overflow_mul_Some:
  "spa_overflow_mul a b = Some c \<longleftrightarrow> unat a * unat b < 2 ^ 64 \<and> c = a * b"
  by (auto simp: spa_overflow_mul_def)

lemma spa_overflow_add_unat: "spa_overflow_add a b = Some c \<Longrightarrow> unat c = unat a + unat b"
  by (auto simp: spa_overflow_add_def unat_word_ariths split: if_splits)

lemma spa_overflow_mul_unat: "spa_overflow_mul a b = Some c \<Longrightarrow> unat c = unat a * unat b"
  by (auto simp: spa_overflow_mul_def unat_word_ariths split: if_splits)

section \<open>Bytes\<close>

fun le_nat :: "u8 list \<Rightarrow> nat" where
  "le_nat [] = 0"
| "le_nat (b # bs) = unat b + 256 * le_nat bs"

fun nat_le :: "nat \<Rightarrow> nat \<Rightarrow> u8 list" where
  "nat_le 0 x = []"
| "nat_le (Suc n) x = of_nat x # nat_le n (x div 256)"

lemma length_nat_le [simp]: "length (nat_le n x) = n"
  by (induction n arbitrary: x) auto

lemma unat_of_nat_8: "unat (of_nat x :: u8) = x mod 256"
  by (simp add: unat_of_nat take_bit_eq_mod)

lemma le_nat_nat_le: "le_nat (nat_le n x) = x mod 256 ^ n"
proof (induction n arbitrary: x)
  case 0
  show ?case by simp
next
  case (Suc n)
  have "le_nat (nat_le (Suc n) x) = x mod 256 + 256 * ((x div 256) mod 256 ^ n)"
    by (simp add: Suc.IH unat_of_nat_8)
  also have "\<dots> = x mod (256 * 256 ^ n)"
    by (simp add: mod_mult2_eq)
  finally show ?case by simp
qed

lemma le_nat_bound: "le_nat bs < 256 ^ length bs"
proof (induction bs)
  case (Cons b bs)
  have "unat b + 1 \<le> 256" using unat_lt_8 [of b] by arith
  moreover have "256 * (le_nat bs + 1) \<le> 256 * 256 ^ length bs"
    using Cons.IH by (intro mult_le_mono2) simp
  ultimately show ?case by simp
qed simp

lemma nat_le_le_nat: "nat_le (length bs) (le_nat bs) = bs"
proof (induction bs)
  case (Cons b bs)
  have "(unat b + 256 * le_nat bs) div 256 = le_nat bs"
    using unat_lt_8 [of b] by (simp add: div_add1_eq)
  moreover have "(of_nat (unat b + 256 * le_nat bs) :: u8) = b"
    using unat_lt_8 [of b] by (simp only: word_eq_unat unat_of_nat_8 mod_mult_self2) simp
  ultimately show ?case using Cons.IH by simp
qed simp

lemma le_nat_inject: "length bs = length cs \<Longrightarrow> le_nat bs = le_nat cs \<Longrightarrow> bs = cs"
  by (metis nat_le_le_nat)

definition word_le :: "nat \<Rightarrow> 'a::len word \<Rightarrow> u8 list" where
  "word_le n w = nat_le n (unat w)"

definition le_word :: "u8 list \<Rightarrow> 'a::len word" where
  "le_word bs = of_nat (le_nat bs)"

abbreviation bytes32 :: "u32 \<Rightarrow> u8 list" where
  "bytes32 \<equiv> word_le 4"

abbreviation bytes64 :: "u64 \<Rightarrow> u8 list" where
  "bytes64 \<equiv> word_le 8"

lemma length_word_le [simp]: "length (word_le n w) = n"
  by (simp add: word_le_def)

lemma le_word_word_le_32 [simp]: "le_word (word_le 4 (w :: u32)) = w"
proof -
  have "unat w mod 256 ^ 4 = unat w" using unat_lt_32 [of w] by simp
  then show ?thesis by (simp add: le_word_def word_le_def le_nat_nat_le)
qed

lemma le_word_word_le_64 [simp]: "le_word (word_le 8 (w :: u64)) = w"
proof -
  have "unat w mod 256 ^ 8 = unat w" using unat_lt_64 [of w] by simp
  then show ?thesis by (simp add: le_word_def word_le_def le_nat_nat_le)
qed

section \<open>Byte memory\<close>

text \<open>
  A memory is a total function from addresses to bytes; addresses are words where the code
  does \<^verbatim>\<open>uintptr_t\<close> arithmetic and offsets into one object (natural numbers) elsewhere.
\<close>

definition load :: "('a::semiring_1 \<Rightarrow> u8) \<Rightarrow> 'a \<Rightarrow> nat \<Rightarrow> u8 list" where
  "load m a n = map (\<lambda>i. m (a + of_nat i)) [0..<n]"

definition load32 :: "('a::semiring_1 \<Rightarrow> u8) \<Rightarrow> 'a \<Rightarrow> u32" where
  "load32 m a = le_word (load m a 4)"

definition load64 :: "('a::semiring_1 \<Rightarrow> u8) \<Rightarrow> 'a \<Rightarrow> u64" where
  "load64 m a = le_word (load m a 8)"

lemma length_load [simp]: "length (load m a n) = n"
  by (simp add: load_def)

lemma nth_load [simp]: "i < n \<Longrightarrow> load m a n ! i = m (a + of_nat i)"
  by (simp add: load_def)

lemma load_0 [simp]: "load m a 0 = []"
  by (simp add: load_def)

lemma load_cong: "(\<And>i. i < n \<Longrightarrow> m (a + of_nat i) = m' (a + of_nat i)) \<Longrightarrow> load m a n = load m' a n"
  by (simp add: load_def)

lemma load_append: "load m a (n + k) = load m a n @ load m (a + of_nat n) k"
proof (rule nth_equalityI)
  fix i
  assume "i < length (load m a (n + k))"
  then show "load m a (n + k) ! i = (load m a n @ load m (a + of_nat n) k) ! i"
    by (cases "i < n") (auto simp: nth_append algebra_simps simp flip: of_nat_add)
qed simp

text \<open>\<open>mem_of\<close> lays a byte list out from address 0; it is how witnesses build memories.\<close>

definition mem_of :: "u8 list \<Rightarrow> nat \<Rightarrow> u8" where
  "mem_of bs a = (if a < length bs then bs ! a else 0)"

lemma load_mem_of: "a + n \<le> length bs \<Longrightarrow> load (mem_of bs) a n = take n (drop a bs)"
  by (rule nth_equalityI) (auto simp: mem_of_def)

section \<open>Bounded copies\<close>

text \<open>\<open>copy_out\<close> and \<open>copy_in\<close>: \<^verbatim>\<open>memcpy\<close> from and to an array of known length.\<close>

definition copy_out :: "'a list \<Rightarrow> nat \<Rightarrow> nat \<Rightarrow> 'a list option" where
  "copy_out buf off n = (if off + n \<le> length buf then Some (take n (drop off buf)) else None)"

definition copy_in :: "'a list \<Rightarrow> nat \<Rightarrow> 'a list \<Rightarrow> 'a list option" where
  "copy_in buf off xs =
     (if off + length xs \<le> length buf
      then Some (take off buf @ xs @ drop (off + length xs) buf) else None)"

lemma copy_in_length: "copy_in buf off xs = Some buf' \<Longrightarrow> length buf' = length buf"
  by (auto simp: copy_in_def split: if_splits)

lemma copy_in_nth:
  assumes "copy_in buf off xs = Some buf'" and "i < length buf"
  shows "buf' ! i = (if off \<le> i \<and> i < off + length xs then xs ! (i - off) else buf ! i)"
  using assms by (auto simp: copy_in_def nth_append split: if_splits)

lemma copy_out_nth:
  assumes "copy_out buf off n = Some xs"
  shows "length xs = n \<and> (\<forall>i < n. xs ! i = buf ! (off + i))"
  using assms by (auto simp: copy_out_def split: if_splits)

section \<open>Bounded loops\<close>

text \<open>
  A C loop \<^verbatim>\<open>for (i = 0; i < n; i++) if (p(i)) return ...\<close> is a search for the least index; the
  following characterise \<^const>\<open>list_all\<close> and \<^const>\<open>list_ex\<close> over index ranges.
\<close>

lemma list_all_upt: "list_all P [0..<n] \<longleftrightarrow> (\<forall>i < n. P i)"
  by (auto simp: list_all_iff)

lemma list_ex_upt: "list_ex P [0..<n] \<longleftrightarrow> (\<exists>i < n. P i)"
  by (auto simp: list_ex_iff)

lemma find_Some_set: "find P xs = Some x \<Longrightarrow> x \<in> set xs \<and> P x"
  by (auto simp: find_Some_iff)

end
