(* ===== verification/PW_Ringbuffer.thy ===== *)
theory PW_Ringbuffer
  imports PW_Prelude
begin

text \<open>
  The lock-free ring buffer of \<^verbatim>\<open>spa/utils/ringbuffer.h\<close>.

  The C structure holds two free-running 32-bit indices; the bytes live in an array of the
  caller, addressed modulo its size. The functions below are the header's operations. An access
  outside the caller's array is \<open>None\<close>.

  The lemmas relate the indices and the array to the list of elements between them
  (\<open>ring_slice\<close>): with a power-of-two size the indices may wrap at \<open>2 ^ 32\<close> at any moment, a write
  appends, a read returns the oldest elements, and neither touches the other side's region.
  \<open>rb_step\<close> is the interleaving of one producer and one consumer, each step being one call of
  the header; \<open>rb_inv\<close> is its invariant.
\<close>

section \<open>The operations of the header\<close>

record spa_ringbuffer =
  readindex :: u32
  writeindex :: u32

definition spa_ringbuffer_init :: "spa_ringbuffer \<Rightarrow> spa_ringbuffer" where
  "spa_ringbuffer_init rbuf = rbuf\<lparr>readindex := 0, writeindex := 0\<rparr>"

definition spa_ringbuffer_set_avail :: "spa_ringbuffer \<Rightarrow> u32 \<Rightarrow> spa_ringbuffer" where
  "spa_ringbuffer_set_avail rbuf sz = rbuf\<lparr>readindex := 0, writeindex := sz\<rparr>"

definition spa_ringbuffer_get_read_index :: "spa_ringbuffer \<Rightarrow> int \<times> u32" where
  "spa_ringbuffer_get_read_index rbuf =
     (let index = readindex rbuf in (sint (writeindex rbuf - index), index))"

definition spa_ringbuffer_read_data ::
    "u8 list \<Rightarrow> u32 \<Rightarrow> u32 \<Rightarrow> u32 \<Rightarrow> u8 list option" where
  "spa_ringbuffer_read_data buffer sz offset len =
     (let l0 = min len (sz - offset); l1 = len - l0
      in Option.bind (copy_out buffer (unat offset) (unat l0)) (\<lambda>d0.
         if 0 < l1 then map_option (\<lambda>d1. d0 @ d1) (copy_out buffer 0 (unat l1))
         else Some d0))"

definition spa_ringbuffer_read_update :: "spa_ringbuffer \<Rightarrow> u32 \<Rightarrow> spa_ringbuffer" where
  "spa_ringbuffer_read_update rbuf index = rbuf\<lparr>readindex := index\<rparr>"

definition spa_ringbuffer_get_write_index :: "spa_ringbuffer \<Rightarrow> int \<times> u32" where
  "spa_ringbuffer_get_write_index rbuf =
     (let index = writeindex rbuf in (sint (index - readindex rbuf), index))"

definition spa_ringbuffer_write_data ::
    "u8 list \<Rightarrow> u32 \<Rightarrow> u32 \<Rightarrow> u8 list \<Rightarrow> u32 \<Rightarrow> u8 list option" where
  "spa_ringbuffer_write_data buffer sz offset data len =
     (let l0 = min len (sz - offset); l1 = len - l0
      in Option.bind (copy_out data 0 (unat l0)) (\<lambda>d0.
         Option.bind (copy_in buffer (unat offset) d0) (\<lambda>buffer.
         if 0 < l1 then Option.bind (copy_out data (unat l0) (unat l1)) (copy_in buffer 0)
         else Some buffer)))"

definition spa_ringbuffer_write_update :: "spa_ringbuffer \<Rightarrow> u32 \<Rightarrow> spa_ringbuffer" where
  "spa_ringbuffer_write_update rbuf index = rbuf\<lparr>writeindex := index\<rparr>"

section \<open>Rings\<close>

text \<open>
  The sizes for which free-running indices work: powers of two, below \<open>2 ^ 31\<close> so that the
  fill level is a non-negative \<^verbatim>\<open>int32_t\<close>.
\<close>

definition ring_size :: "nat \<Rightarrow> bool" where
  "ring_size n \<longleftrightarrow> n \<in> set (map (\<lambda>k. 2 ^ k) [0..<31])"

definition ring_pos :: "nat \<Rightarrow> u32 \<Rightarrow> nat \<Rightarrow> nat" where
  "ring_pos n i j = unat (i + of_nat j) mod n"

definition ring_slice :: "'a list \<Rightarrow> u32 \<Rightarrow> nat \<Rightarrow> 'a list" where
  "ring_slice buf i n = map (\<lambda>j. buf ! ring_pos (length buf) i j) [0..<n]"

definition ring_fill :: "spa_ringbuffer \<Rightarrow> nat" where
  "ring_fill rbuf = unat (writeindex rbuf - readindex rbuf)"

lemma ring_sizeD:
  assumes "ring_size n"
  shows "0 < n" "n < 2147483648" "n dvd 4294967296"
proof -
  obtain k where k: "k < 31" "n = 2 ^ k"
    using assms by (auto simp: ring_size_def)
  show "0 < n" using k by simp
  have "(2::nat) ^ k < 2 ^ 31" using k by (intro power_strict_increasing) auto
  then show "n < 2147483648" using k by simp
  have "(2::nat) ^ k dvd 2 ^ 32" using k by (intro le_imp_power_dvd) simp
  then show "n dvd 4294967296" using k by simp
qed

lemma ring_pos_eq:
  assumes "n dvd 4294967296"
  shows "ring_pos n i j = (unat i + j) mod n"
proof -
  have "unat (i + of_nat j) = (unat i + j mod 4294967296) mod 4294967296"
    by (simp add: unat_plus_32 unat_of_nat take_bit_eq_mod)
  then have "unat (i + of_nat j) = (unat i + j) mod 4294967296"
    by (simp add: mod_add_right_eq)
  then show ?thesis
    using assms by (simp add: ring_pos_def mod_mod_cancel)
qed

lemma ring_pos_less: "0 < n \<Longrightarrow> ring_pos n i j < n"
  by (simp add: ring_pos_def)

lemma ring_pos_add: "ring_pos n (i + of_nat k) j = ring_pos n i (k + j)"
  by (simp add: ring_pos_def add.assoc)

lemma mod_distance:
  fixes x j n :: nat
  assumes "j < n"
  shows "((x + j) mod n + n - x mod n) mod n = j"
proof -
  have n: "0 < n" using assms by simp
  then have le: "x mod n \<le> (x + j) mod n + n"
    by (meson le_add2 mod_less_divisor order.strict_implies_order order_trans)
  have "int (((x + j) mod n + n - x mod n) mod n)
      = (int ((x + j) mod n) + int n - int (x mod n)) mod int n"
    using le by (simp add: zmod_int of_nat_diff)
  also have "\<dots> = (int ((x + j) mod n) - int (x mod n) + int n) mod int n"
    by (simp add: algebra_simps)
  also have "\<dots> = (int (x + j) - int x) mod int n"
    by (simp only: mod_add_self2 zmod_int mod_diff_eq)
  also have "\<dots> = int j" using assms by simp
  finally show ?thesis by simp
qed

lemma ring_pos_inj:
  assumes "n dvd 4294967296" and "j < n" and "k < n" and "ring_pos n i j = ring_pos n i k"
  shows "j = k"
proof -
  have "(unat i + j) mod n = (unat i + k) mod n"
    using assms(4) by (simp only: ring_pos_eq [OF assms(1)])
  then have "((unat i + j) mod n + n - unat i mod n) mod n
      = ((unat i + k) mod n + n - unat i mod n) mod n"
    by (rule arg_cong)
  then show ?thesis
    unfolding mod_distance [OF assms(2)] mod_distance [OF assms(3)] .
qed

lemma length_ring_slice [simp]: "length (ring_slice buf i n) = n"
  by (simp add: ring_slice_def)

lemma nth_ring_slice [simp]: "j < n \<Longrightarrow> ring_slice buf i n ! j = buf ! ring_pos (length buf) i j"
  by (simp add: ring_slice_def)

lemma ring_slice_0 [simp]: "ring_slice buf i 0 = []"
  by (simp add: ring_slice_def)

lemma ring_slice_append:
  "ring_slice buf i (n + k) = ring_slice buf i n @ ring_slice buf (i + of_nat n) k"
  by (rule nth_equalityI) (auto simp: nth_append ring_pos_add)

lemma ring_slice_take: "k \<le> n \<Longrightarrow> take k (ring_slice buf i n) = ring_slice buf i k"
  by (rule nth_equalityI) auto

lemma ring_slice_drop:
  "k \<le> n \<Longrightarrow> drop k (ring_slice buf i n) = ring_slice buf (i + of_nat k) (n - k)"
  by (rule nth_equalityI) (auto simp: ring_pos_add)

lemma ring_slice_cong:
  assumes "length buf' = length buf"
    and "\<And>j. j < n \<Longrightarrow> buf' ! ring_pos (length buf) i j = buf ! ring_pos (length buf) i j"
  shows "ring_slice buf' i n = ring_slice buf i n"
  using assms by (intro nth_equalityI) auto

section \<open>Reading and writing\<close>

lemma unat_split_lens:
  fixes offset len :: u32
  assumes "unat offset < n" and "n < 2147483648" and "unat len \<le> n"
  defines "l0 \<equiv> min len (of_nat n - offset)"
  shows "unat l0 = min (unat len) (n - unat offset)"
    and "unat (len - l0) = unat len - unat l0"
proof -
  have n: "unat (of_nat n :: u32) = n" using assms by (simp add: unat_of_nat_32)
  have "unat (of_nat n - offset) = n - unat offset"
    using assms n by (simp add: unat_minus_no_wrap word_le_unat)
  then show "unat l0 = min (unat len) (n - unat offset)"
    unfolding l0_def by (auto simp: min_def word_le_unat)
  show "unat (len - l0) = unat len - unat l0"
    unfolding l0_def by (rule unat_minus_no_wrap) simp
qed

text \<open>
  With the size of the array and an offset inside it, a read of at most the whole ring returns
  the elements in ring order.
\<close>

lemma ringbuffer_read_data:
  assumes sz: "ring_size (length buf)" and off: "unat offset = ring_pos (length buf) i 0"
    and len: "unat len \<le> length buf"
  shows "spa_ringbuffer_read_data buf (of_nat (length buf)) offset len
       = Some (ring_slice buf i (unat len))"
proof -
  let ?n = "length buf"
  note d = ring_sizeD [OF sz]
  have off_n: "unat offset < ?n" using d off by (simp add: ring_pos_less)
  define l0 where "l0 = min len (of_nat ?n - offset)"
  have l0: "unat l0 = min (unat len) (?n - unat offset)"
    and l1: "unat (len - l0) = unat len - unat l0"
    unfolding l0_def using unat_split_lens [OF off_n d(2) len] by auto
  have pos: "ring_pos ?n i j = (unat offset + j) mod ?n" for j
    using d off by (simp add: ring_pos_eq mod_simps)
  have d0: "copy_out buf (unat offset) (unat l0) = Some (take (unat l0) (drop (unat offset) buf))"
    using off_n l0 by (simp add: copy_out_def)
  have d1: "copy_out buf 0 (unat (len - l0)) = Some (take (unat (len - l0)) buf)"
    using l1 len by (simp add: copy_out_def)
  have "take (unat l0) (drop (unat offset) buf) @ take (unat len - unat l0) buf
      = ring_slice buf i (unat len)" (is "?l = ?r")
  proof (rule nth_equalityI)
    show "length ?l = length ?r" using off_n l0 len by auto
    fix j
    assume "j < length ?l"
    then have j: "j < unat len" using off_n l0 len by auto
    show "?l ! j = ?r ! j"
    proof (cases "unat offset + j < ?n")
      case True
      then show ?thesis using j l0 off_n by (auto simp: nth_append pos)
    next
      case False
      then have "(unat offset + j) mod ?n = unat offset + j - ?n"
        using off_n j len by (simp add: le_mod_geq)
      then show ?thesis using False j l0 off_n by (auto simp: nth_append pos add.commute)
    qed
  qed
  then show ?thesis
    using d0 d1 l1 unfolding spa_ringbuffer_read_data_def Let_def l0_def [symmetric]
    by (auto simp: word_less_unat)
qed

text \<open>
  A write of at most the whole ring stores the data in ring order and leaves every other cell
  of the array alone.
\<close>

lemma ringbuffer_write_data:
  assumes sz: "ring_size (length buf)" and off: "unat offset = ring_pos (length buf) i 0"
    and len: "unat len = length data" "length data \<le> length buf"
  obtains buf' where
    "spa_ringbuffer_write_data buf (of_nat (length buf)) offset data len = Some buf'"
    "length buf' = length buf"
    "ring_slice buf' i (length data) = data"
    "\<And>p. p < length buf \<Longrightarrow> (\<forall>j < length data. p \<noteq> ring_pos (length buf) i j) \<Longrightarrow>
       buf' ! p = buf ! p"
proof -
  let ?n = "length buf"
  note d = ring_sizeD [OF sz]
  have off_n: "unat offset < ?n" using d off by (simp add: ring_pos_less)
  have len_n: "unat len \<le> ?n" using len by simp
  define l0 where "l0 = min len (of_nat ?n - offset)"
  have l0: "unat l0 = min (length data) (?n - unat offset)"
    and l1: "unat (len - l0) = length data - unat l0"
    unfolding l0_def using unat_split_lens [OF off_n d(2) len_n] len by auto
  have pos: "ring_pos ?n i j = (unat offset + j) mod ?n" for j
    using d off by (simp add: ring_pos_eq mod_simps)
  have wrap: "(unat offset + j) mod ?n
      = (if unat offset + j < ?n then unat offset + j else unat offset + j - ?n)"
    if "j < ?n" for j
    using that off_n by (simp add: le_mod_geq)
  define buf1 where
    "buf1 = take (unat offset) buf @ take (unat l0) data @ drop (unat offset + unat l0) buf"
  define buf2 where
    "buf2 = drop (unat l0) data @ drop (length data - unat l0) buf1"
  have len1: "length buf1 = ?n" using l0 off_n by (auto simp: buf1_def)
  have c1: "copy_in buf (unat offset) (take (unat l0) data) = Some buf1"
    using l0 off_n by (auto simp: copy_in_def buf1_def)
  have c2: "copy_in buf1 0 (drop (unat l0) data) = Some buf2"
    using len len1 by (auto simp: copy_in_def buf2_def)
  have len2: "length buf2 = ?n" using len len1 by (auto simp: buf2_def)
  have run: "spa_ringbuffer_write_data buf (of_nat ?n) offset data len
      = Some (if 0 < len - l0 then buf2 else buf1)"
    using c1 c2 l0 l1 unfolding spa_ringbuffer_write_data_def Let_def l0_def [symmetric]
    by (auto simp: copy_out_def)
  have same: "buf2 = buf1" if "\<not> 0 < len - l0"
    using that l0 l1 by (auto simp: buf2_def word_less_unat)
  have le0: "unat l0 \<le> length data" "unat l0 \<le> ?n - unat offset" using l0 by simp_all
  have at: "buf2 ! p = (if p < length data - unat l0 then data ! (unat l0 + p)
      else if unat offset \<le> p \<and> p < unat offset + unat l0 then data ! (p - unat offset)
      else buf ! p)" if "p < ?n" for p
    using that copy_in_nth [OF c1 that] copy_in_nth [OF c2, of p] le0(1)
    by (auto simp: len1 min_absorb2)
  have full: "unat l0 = ?n - unat offset" if "unat l0 < length data" using that l0 by simp
  have stored: "buf2 ! ring_pos ?n i j = data ! j" if j: "j < length data" for j
  proof (cases "j < unat l0")
    case True
    then have "unat offset + j < ?n" "ring_pos ?n i j = unat offset + j"
      using le0 by (simp_all add: pos)
    moreover have "\<not> unat offset + j < length data - unat l0"
      using True le0 full len(2) by (cases "unat l0 < length data") auto
    ultimately show ?thesis using True by (simp add: at)
  next
    case False
    then have "unat l0 = ?n - unat offset" using j full by simp
    then have "\<not> unat offset + j < ?n" "j < ?n" using False j len(2) by simp_all
    then have "ring_pos ?n i j = j - unat l0"
      using \<open>unat l0 = ?n - unat offset\<close> off_n by (simp add: pos wrap)
    moreover have "j - unat l0 < length data - unat l0" "j - unat l0 < ?n"
      using False j len(2) by linarith+
    ultimately show ?thesis using False at [of "j - unat l0"] by simp
  qed
  have kept: "buf2 ! p = buf ! p"
    if p: "p < ?n" and free: "\<forall>j < length data. p \<noteq> ring_pos ?n i j" for p
  proof -
    have "\<not> p - unat offset < length data" if "unat offset \<le> p"
      using free [rule_format, of "p - unat offset"] p that by (auto simp: pos)
    then have "\<not> (unat offset \<le> p \<and> p < unat offset + unat l0)"
      using le0(1) by linarith
    moreover have "\<not> p < length data - unat l0"
    proof
      assume less: "p < length data - unat l0"
      then have "unat l0 = ?n - unat offset" using full by simp
      then have "ring_pos ?n i (unat l0 + p) = p" using p off_n by (simp add: pos le_mod_geq)
      moreover have "unat l0 + p < length data" using less by linarith
      ultimately show False using free by auto
    qed
    ultimately show ?thesis unfolding at [OF p] by auto
  qed
  show thesis
  proof (rule that)
    show "spa_ringbuffer_write_data buf (of_nat ?n) offset data len = Some buf2"
      using run same by auto
    show "length buf2 = ?n" by (rule len2)
    show "ring_slice buf2 i (length data) = data"
      by (rule nth_equalityI) (auto simp: len2 stored)
    show "\<And>p. p < ?n \<Longrightarrow> (\<forall>j < length data. p \<noteq> ring_pos ?n i j) \<Longrightarrow> buf2 ! p = buf ! p"
      by (rule kept)
  qed
qed

text \<open>Elements ahead of the write position survive a write that fits in the free space.\<close>

lemma ring_slice_frame:
  assumes sz: "ring_size (length buf)" and len: "length buf' = length buf"
    and fit: "unat (w - r) + k \<le> length buf"
    and frame: "\<And>p. p < length buf \<Longrightarrow> (\<forall>j < k. p \<noteq> ring_pos (length buf) w j) \<Longrightarrow>
       buf' ! p = buf ! p"
  shows "ring_slice buf' r (unat (w - r)) = ring_slice buf r (unat (w - r))"
proof (rule ring_slice_cong [OF len])
  let ?n = "length buf"
  note d = ring_sizeD [OF sz]
  fix j
  assume j: "j < unat (w - r)"
  have "ring_pos ?n r j \<noteq> ring_pos ?n w i" if i: "i < k" for i
  proof
    assume "ring_pos ?n r j = ring_pos ?n w i"
    moreover have "ring_pos ?n w i = ring_pos ?n r (unat (w - r) + i)"
      using ring_pos_add [of ?n r "unat (w - r)" i] by simp
    ultimately have "j = unat (w - r) + i"
      using ring_pos_inj [OF d(3), of j "unat (w - r) + i" r] i j fit by simp
    then show False using j by simp
  qed
  then show "buf' ! ring_pos ?n r j = buf ! ring_pos ?n r j"
    using d(1) by (intro frame) (auto simp: ring_pos_less)
qed

lemma sint_small: "unat x < 2147483648 \<Longrightarrow> sint (x :: u32) = int (unat x)"
proof -
  assume "unat x < 2147483648"
  then have "int (unat x) < 2147483648" by linarith
  moreover have "int (unat x) = uint x" by (rule uint_nat [symmetric])
  moreover have "0 \<le> uint x" by simp
  ultimately have less: "uint x < 2147483648" and pos: "- 2147483648 \<le> uint x" by linarith+
  have "sint x = uint x"
    unfolding sint_uint using less pos by (intro signed_take_bit_int_eq_self) simp_all
  then show ?thesis by (simp only: uint_nat)
qed

section \<open>One producer and one consumer, interleaved\<close>

text \<open>
  The header is used by two threads without a lock. Each of them runs a fixed protocol: take the
  own index and the fill level, copy, publish the new index. Every step below is one call; the
  two threads interleave arbitrarily, so a thread acts on a fill level that may be out of date.
  \<open>sent\<close> and \<open>got\<close> record the bytes that the producer has published and the consumer has
  released.
\<close>

datatype producer = WIdle | WReserved u32 nat | WCopied u32 "u8 list"

datatype consumer = RIdle | RAvail u32 nat | RCopied u32 "u8 list"

record rb_sys =
  rb :: spa_ringbuffer
  rbbuf :: "u8 list"
  wpc :: producer
  rpc :: consumer
  sent :: "u8 list"
  got :: "u8 list"

definition rb_offset :: "u8 list \<Rightarrow> u32 \<Rightarrow> u32" where
  "rb_offset buf idx = idx mod of_nat (length buf)"

inductive rb_step :: "rb_sys \<Rightarrow> rb_sys \<Rightarrow> bool" where
  w_index: "wpc s = WIdle \<Longrightarrow> spa_ringbuffer_get_write_index (rb s) = (filled, idx) \<Longrightarrow>
    rb_step s (s\<lparr>wpc := WReserved idx (nat filled)\<rparr>)"
| w_copy: "wpc s = WReserved idx filled \<Longrightarrow> filled + length data \<le> length (rbbuf s) \<Longrightarrow>
    spa_ringbuffer_write_data (rbbuf s) (of_nat (length (rbbuf s))) (rb_offset (rbbuf s) idx)
      data (of_nat (length data)) = Some buf' \<Longrightarrow>
    rb_step s (s\<lparr>rbbuf := buf', wpc := WCopied idx data\<rparr>)"
| w_publish: "wpc s = WCopied idx data \<Longrightarrow>
    rb_step s (s\<lparr>rb := spa_ringbuffer_write_update (rb s) (idx + of_nat (length data)),
      wpc := WIdle, sent := sent s @ data\<rparr>)"
| r_index: "rpc s = RIdle \<Longrightarrow> spa_ringbuffer_get_read_index (rb s) = (avail, idx) \<Longrightarrow>
    rb_step s (s\<lparr>rpc := RAvail idx (nat avail)\<rparr>)"
| r_copy: "rpc s = RAvail idx avail \<Longrightarrow> n \<le> avail \<Longrightarrow>
    spa_ringbuffer_read_data (rbbuf s) (of_nat (length (rbbuf s))) (rb_offset (rbbuf s) idx)
      (of_nat n) = Some data \<Longrightarrow>
    rb_step s (s\<lparr>rpc := RCopied idx data\<rparr>)"
| r_release: "rpc s = RCopied idx data \<Longrightarrow>
    rb_step s (s\<lparr>rb := spa_ringbuffer_read_update (rb s) (idx + of_nat (length data)),
      rpc := RIdle, got := got s @ data\<rparr>)"

inductive rb_reachable :: "nat \<Rightarrow> rb_sys \<Rightarrow> bool" for n where
  rb_start: "ring_size n \<Longrightarrow> length buf = n \<Longrightarrow>
    rb_reachable n \<lparr>rb = spa_ringbuffer_init r, rbbuf = buf, wpc = WIdle, rpc = RIdle,
      sent = [], got = []\<rparr>"
| rb_next: "rb_reachable n s \<Longrightarrow> rb_step s t \<Longrightarrow> rb_reachable n t"

definition rb_pending :: "rb_sys \<Rightarrow> u8 list" where
  "rb_pending s = ring_slice (rbbuf s) (readindex (rb s)) (ring_fill (rb s))"

definition producer_inv :: "rb_sys \<Rightarrow> bool" where
  "producer_inv s \<longleftrightarrow> (case wpc s of
     WIdle \<Rightarrow> True
   | WReserved idx filled \<Rightarrow> idx = writeindex (rb s) \<and> ring_fill (rb s) \<le> filled
   | WCopied idx data \<Rightarrow> idx = writeindex (rb s) \<and>
       ring_fill (rb s) + length data \<le> length (rbbuf s) \<and>
       ring_slice (rbbuf s) idx (length data) = data)"

definition consumer_inv :: "rb_sys \<Rightarrow> bool" where
  "consumer_inv s \<longleftrightarrow> (case rpc s of
     RIdle \<Rightarrow> True
   | RAvail idx avail \<Rightarrow> idx = readindex (rb s) \<and> avail \<le> ring_fill (rb s)
   | RCopied idx data \<Rightarrow> idx = readindex (rb s) \<and> length data \<le> ring_fill (rb s) \<and>
       ring_slice (rbbuf s) idx (length data) = data)"

definition rb_inv :: "rb_sys \<Rightarrow> bool" where
  "rb_inv s \<longleftrightarrow> ring_size (length (rbbuf s)) \<and> ring_fill (rb s) \<le> length (rbbuf s) \<and>
     sent s = got s @ rb_pending s \<and> producer_inv s \<and> consumer_inv s"

lemma ring_fill_sint:
  assumes "ring_size n" and "ring_fill r \<le> n"
  shows "sint (writeindex r - readindex r) = int (ring_fill r)"
  using assms ring_sizeD(2) [of n] unfolding ring_fill_def by (intro sint_small) simp

lemma unat_rb_offset:
  assumes "ring_size (length buf)"
  shows "unat (rb_offset buf idx) = ring_pos (length buf) idx 0"
  using ring_sizeD [OF assms]
  by (simp add: rb_offset_def ring_pos_def unat_mod_distrib unat_of_nat_32)

lemma ring_fill_write:
  assumes "ring_fill r + k < 2147483648"
  shows "ring_fill (spa_ringbuffer_write_update r (writeindex r + of_nat k)) = ring_fill r + k"
proof -
  define d where "d = writeindex r - readindex r"
  have "unat (writeindex r + of_nat k - readindex r) = unat (d + of_nat k)"
    by (rule arg_cong [where f = unat]) (simp add: d_def)
  also have "unat (d + of_nat k) = ring_fill r + k"
    using assms by (simp add: ring_fill_def unat_plus_32 unat_of_nat_32 flip: d_def)
  finally show ?thesis by (simp add: ring_fill_def spa_ringbuffer_write_update_def)
qed

lemma ring_fill_read:
  assumes "k \<le> ring_fill r"
  shows "ring_fill (spa_ringbuffer_read_update r (readindex r + of_nat k)) = ring_fill r - k"
proof -
  have k: "unat (of_nat k :: u32) = k"
    using assms unat_lt_32 [of "writeindex r - readindex r"]
    by (simp add: ring_fill_def unat_of_nat_32)
  define d where "d = writeindex r - readindex r"
  have "unat (writeindex r - (readindex r + of_nat k)) = unat (d - of_nat k)"
    by (rule arg_cong [where f = unat]) (simp add: d_def)
  also have "unat (d - of_nat k) = ring_fill r - k"
    using assms k by (simp add: ring_fill_def unat_minus_no_wrap word_le_unat flip: d_def)
  finally show ?thesis by (simp add: ring_fill_def spa_ringbuffer_read_update_def)
qed

lemma rb_init_inv:
  assumes "ring_size n" and "length buf = n"
  shows "rb_inv \<lparr>rb = spa_ringbuffer_init r, rbbuf = buf, wpc = WIdle, rpc = RIdle,
    sent = [], got = []\<rparr>"
  using assms by (simp add: rb_inv_def rb_pending_def producer_inv_def consumer_inv_def
      ring_fill_def spa_ringbuffer_init_def)

lemma w_index_inv:
  assumes inv: "rb_inv s" and "spa_ringbuffer_get_write_index (rb s) = (filled, idx)"
  shows "rb_inv (s\<lparr>wpc := WReserved idx (nat filled)\<rparr>)"
proof -
  have "sint (writeindex (rb s) - readindex (rb s)) = int (ring_fill (rb s))"
    using inv by (auto simp: rb_inv_def intro: ring_fill_sint)
  then show ?thesis
    using assms by (auto simp: rb_inv_def rb_pending_def producer_inv_def consumer_inv_def
        spa_ringbuffer_get_write_index_def Let_def split: consumer.splits)
qed

lemma r_index_inv:
  assumes inv: "rb_inv s" and "spa_ringbuffer_get_read_index (rb s) = (avail, idx)"
  shows "rb_inv (s\<lparr>rpc := RAvail idx (nat avail)\<rparr>)"
proof -
  have "sint (writeindex (rb s) - readindex (rb s)) = int (ring_fill (rb s))"
    using inv by (auto simp: rb_inv_def intro: ring_fill_sint)
  then show ?thesis
    using assms by (auto simp: rb_inv_def rb_pending_def producer_inv_def consumer_inv_def
        spa_ringbuffer_get_read_index_def Let_def split: producer.splits)
qed

text \<open>The producer's copy keeps everything the consumer can see.\<close>

lemma w_copy_inv:
  assumes inv: "rb_inv s" and pc: "wpc s = WReserved idx filled"
    and fit: "filled + length data \<le> length (rbbuf s)"
    and run: "spa_ringbuffer_write_data (rbbuf s) (of_nat (length (rbbuf s)))
      (rb_offset (rbbuf s) idx) data (of_nat (length data)) = Some buf'"
  shows "rb_inv (s\<lparr>rbbuf := buf', wpc := WCopied idx data\<rparr>)"
proof -
  let ?buf = "rbbuf s"
  let ?fill = "ring_fill (rb s)"
  have sz: "ring_size (length ?buf)" and idx: "idx = writeindex (rb s)" "?fill \<le> filled"
    using inv pc by (auto simp: rb_inv_def producer_inv_def)
  have len: "unat (of_nat (length data) :: u32) = length data"
    using fit ring_sizeD [OF sz] by (intro unat_of_nat_32) simp
  have le: "length data \<le> length ?buf" using fit by simp
  obtain buf2 where w: "spa_ringbuffer_write_data ?buf (of_nat (length ?buf))
      (rb_offset ?buf idx) data (of_nat (length data)) = Some buf2" "length buf2 = length ?buf"
    "ring_slice buf2 idx (length data) = data"
    "\<And>p. p < length ?buf \<Longrightarrow> (\<forall>j < length data. p \<noteq> ring_pos (length ?buf) idx j) \<Longrightarrow>
       buf2 ! p = ?buf ! p"
    using ringbuffer_write_data [OF sz unat_rb_offset [OF sz] len le] by blast
  have [simp]: "buf2 = buf'" using w(1) run by simp
  have fill: "unat (writeindex (rb s) - readindex (rb s)) + length data \<le> length ?buf"
    using fit idx by (simp add: ring_fill_def)
  have keep: "ring_slice buf' (readindex (rb s)) ?fill = ring_slice ?buf (readindex (rb s)) ?fill"
    unfolding ring_fill_def using ring_slice_frame [OF sz w(2) fill w(4)] idx by simp
  then have keep': "ring_slice buf' (readindex (rb s)) k = ring_slice ?buf (readindex (rb s)) k"
    if "k \<le> ?fill" for k
    using that by (metis ring_slice_take)
  show ?thesis
    using inv w(2,3) idx fit keep keep'
    by (auto simp: rb_inv_def rb_pending_def producer_inv_def consumer_inv_def
        split: consumer.splits)
qed

lemma w_publish_inv:
  assumes inv: "rb_inv s" and pc: "wpc s = WCopied idx data"
  shows "rb_inv (s\<lparr>rb := spa_ringbuffer_write_update (rb s) (idx + of_nat (length data)),
      wpc := WIdle, sent := sent s @ data\<rparr>)"
proof -
  let ?r = "rb s"
  have sz: "ring_size (length (rbbuf s))" and idx: "idx = writeindex ?r"
    and fit: "ring_fill ?r + length data \<le> length (rbbuf s)"
    and slice: "ring_slice (rbbuf s) idx (length data) = data"
    using inv pc by (auto simp: rb_inv_def producer_inv_def)
  have fill: "ring_fill (spa_ringbuffer_write_update ?r (writeindex ?r + of_nat (length data)))
      = ring_fill ?r + length data"
    using fit ring_sizeD [OF sz] by (intro ring_fill_write) simp
  have w: "readindex ?r + of_nat (ring_fill ?r) = writeindex ?r"
    by (simp add: ring_fill_def)
  show ?thesis
    using inv fill fit slice idx w
    by (auto simp: rb_inv_def rb_pending_def producer_inv_def consumer_inv_def
        ring_slice_append spa_ringbuffer_write_update_def split: consumer.splits)
qed

lemma r_copy_inv:
  assumes inv: "rb_inv s" and pc: "rpc s = RAvail idx avail" and n: "n \<le> avail"
    and run: "spa_ringbuffer_read_data (rbbuf s) (of_nat (length (rbbuf s)))
      (rb_offset (rbbuf s) idx) (of_nat n) = Some data"
  shows "rb_inv (s\<lparr>rpc := RCopied idx data\<rparr>)"
proof -
  have sz: "ring_size (length (rbbuf s))" and idx: "idx = readindex (rb s)"
    and avail: "avail \<le> ring_fill (rb s)" "ring_fill (rb s) \<le> length (rbbuf s)"
    using inv pc by (auto simp: rb_inv_def consumer_inv_def)
  have un: "unat (of_nat n :: u32) = n"
    using n avail ring_sizeD [OF sz] by (intro unat_of_nat_32) simp
  then have "data = ring_slice (rbbuf s) idx n"
    using ringbuffer_read_data [OF sz unat_rb_offset [OF sz], of "of_nat n" idx] run n avail by simp
  then show ?thesis
    using inv idx n avail
    by (auto simp: rb_inv_def rb_pending_def producer_inv_def consumer_inv_def
        split: producer.splits)
qed

lemma r_release_inv:
  assumes inv: "rb_inv s" and pc: "rpc s = RCopied idx data"
  shows "rb_inv (s\<lparr>rb := spa_ringbuffer_read_update (rb s) (idx + of_nat (length data)),
      rpc := RIdle, got := got s @ data\<rparr>)"
proof -
  let ?r = "rb s"
  have idx: "idx = readindex ?r" and le: "length data \<le> ring_fill ?r"
    and slice: "ring_slice (rbbuf s) idx (length data) = data"
    using inv pc by (auto simp: rb_inv_def consumer_inv_def)
  have fill: "ring_fill (spa_ringbuffer_read_update ?r (readindex ?r + of_nat (length data)))
      = ring_fill ?r - length data"
    using le by (rule ring_fill_read)
  have "rb_pending s = data @ ring_slice (rbbuf s) (readindex ?r + of_nat (length data))
      (ring_fill ?r - length data)"
    unfolding rb_pending_def
    using ring_slice_append [of "rbbuf s" "readindex ?r" "length data" "ring_fill ?r - length data"]
      le slice idx by simp
  then show ?thesis
    using inv fill idx
    by (auto simp: rb_inv_def rb_pending_def producer_inv_def consumer_inv_def
        spa_ringbuffer_read_update_def split: producer.splits)
qed

lemma rb_step_inv: "rb_step s t \<Longrightarrow> rb_inv s \<Longrightarrow> rb_inv t"
  by (induction rule: rb_step.induct)
    (auto intro: w_index_inv r_index_inv w_copy_inv w_publish_inv r_copy_inv r_release_inv)

lemma rb_step_length: "rb_step s t \<Longrightarrow> rb_inv s \<Longrightarrow> length (rbbuf t) = length (rbbuf s)"
  by (induction rule: rb_step.induct)
    (auto simp: spa_ringbuffer_write_data_def Let_def Option.bind_eq_Some_conv
      dest!: copy_in_length split: if_splits)

lemma rb_reachable_inv: "rb_reachable n s \<Longrightarrow> rb_inv s \<and> length (rbbuf s) = n"
proof (induction rule: rb_reachable.induct)
  case (rb_start buf r)
  then show ?case by (auto intro: rb_init_inv)
next
  case (rb_next s t)
  then show ?case using rb_step_inv rb_step_length by metis
qed

section \<open>The ring buffer as a bounded byte queue\<close>

text \<open>
  What a single-threaded user of the ring relies on: \<open>put\<close> appends while there is room and \<open>get\<close>
  hands out the oldest elements.
\<close>

locale bounded_fifo =
  fixes invar :: "'s \<Rightarrow> bool"
    and items :: "'s \<Rightarrow> 'a list"
    and room :: "'s \<Rightarrow> nat"
    and put :: "'s \<Rightarrow> 'a list \<Rightarrow> 's option"
    and get :: "'s \<Rightarrow> nat \<Rightarrow> ('a list \<times> 's) option"
  assumes put_items: "invar s \<Longrightarrow> length xs \<le> room s \<Longrightarrow>
      \<exists>s'. put s xs = Some s' \<and> invar s' \<and> items s' = items s @ xs \<and>
        room s' = room s - length xs"
    and get_items: "invar s \<Longrightarrow> n \<le> length (items s) \<Longrightarrow>
      \<exists>s'. get s n = Some (take n (items s), s') \<and> invar s' \<and> items s' = drop n (items s) \<and>
        room s' = room s + n"
begin

lemma put_all:
  "invar s \<Longrightarrow> length (concat xss) \<le> room s \<Longrightarrow>
   \<exists>s'. fold (\<lambda>xs st. Option.bind st (\<lambda>s. put s xs)) xss (Some s) = Some s' \<and> invar s' \<and>
     items s' = items s @ concat xss \<and> room s' = room s - length (concat xss)"
proof (induction xss arbitrary: s)
  case (Cons xs xss)
  then obtain s1 where s1: "put s xs = Some s1" "invar s1" "items s1 = items s @ xs"
    "room s1 = room s - length xs"
    using put_items [of s xs] by auto
  moreover have "length (concat xss) \<le> room s1" using Cons.prems s1(4) by simp
  ultimately show ?case using Cons.IH [of s1] by auto
qed auto

lemma put_all_get_all:
  assumes "invar s" and "items s = []" and "length (concat xss) \<le> room s"
  shows "\<exists>s' s''. fold (\<lambda>xs st. Option.bind st (\<lambda>s. put s xs)) xss (Some s) = Some s' \<and>
    get s' (length (concat xss)) = Some (concat xss, s'') \<and> invar s'' \<and> items s'' = []"
proof -
  obtain s' where s': "fold (\<lambda>xs st. Option.bind st (\<lambda>s. put s xs)) xss (Some s) = Some s'"
    "invar s'" "items s' = concat xss"
    using put_all [OF assms(1,3)] assms(2) by auto
  then show ?thesis using get_items [of s' "length (concat xss)"] by auto
qed

end

text \<open>The documented calling sequences of the header on a ring and its array.\<close>

definition ring_put :: "spa_ringbuffer \<times> u8 list \<Rightarrow> u8 list \<Rightarrow> (spa_ringbuffer \<times> u8 list) option" where
  "ring_put st xs = (let (r, buf) = st; (filled, idx) = spa_ringbuffer_get_write_index r
     in map_option (\<lambda>buf'. (spa_ringbuffer_write_update r (idx + of_nat (length xs)), buf'))
        (spa_ringbuffer_write_data buf (of_nat (length buf)) (rb_offset buf idx) xs
          (of_nat (length xs))))"

definition ring_get :: "spa_ringbuffer \<times> u8 list \<Rightarrow> nat \<Rightarrow>
    (u8 list \<times> (spa_ringbuffer \<times> u8 list)) option" where
  "ring_get st n = (let (r, buf) = st; (avail, idx) = spa_ringbuffer_get_read_index r
     in map_option (\<lambda>xs. (xs, (spa_ringbuffer_read_update r (idx + of_nat n), buf)))
        (spa_ringbuffer_read_data buf (of_nat (length buf)) (rb_offset buf idx) (of_nat n)))"

definition ring_invar :: "spa_ringbuffer \<times> u8 list \<Rightarrow> bool" where
  "ring_invar st \<longleftrightarrow> ring_size (length (snd st)) \<and> ring_fill (fst st) \<le> length (snd st)"

definition ring_items :: "spa_ringbuffer \<times> u8 list \<Rightarrow> u8 list" where
  "ring_items st = ring_slice (snd st) (readindex (fst st)) (ring_fill (fst st))"

definition ring_room :: "spa_ringbuffer \<times> u8 list \<Rightarrow> nat" where
  "ring_room st = length (snd st) - ring_fill (fst st)"

text \<open>
  A sequential put or get is three steps of \<open>rb_step\<close>, so its laws are those of the interleaved
  system run from a state where both sides are idle.
\<close>

definition rb_idle :: "spa_ringbuffer \<times> u8 list \<Rightarrow> rb_sys" where
  "rb_idle st = \<lparr>rb = fst st, rbbuf = snd st, wpc = WIdle, rpc = RIdle,
     sent = ring_items st, got = []\<rparr>"

lemma rb_inv_idle: "ring_invar st \<Longrightarrow> rb_inv (rb_idle st)"
  by (simp add: rb_inv_def ring_invar_def rb_idle_def rb_pending_def ring_items_def
      producer_inv_def consumer_inv_def)

lemma ring_put_items:
  assumes inv: "ring_invar st" and fit: "length xs \<le> ring_room st"
  shows "\<exists>st'. ring_put st xs = Some st' \<and> ring_invar st' \<and> ring_items st' = ring_items st @ xs \<and>
    ring_room st' = ring_room st - length xs"
proof -
  obtain r buf where st: "st = (r, buf)" by (cases st)
  let ?s = "rb_idle st"
  have sz: "ring_size (length buf)" and fill: "ring_fill r + length xs \<le> length buf"
    using inv fit by (auto simp: ring_invar_def ring_room_def st)
  obtain filled idx where i: "spa_ringbuffer_get_write_index r = (filled, idx)" by fastforce
  have idx: "idx = writeindex r" "nat filled = ring_fill r"
    using i ring_fill_sint [OF sz, of r] fill
    by (auto simp: spa_ringbuffer_get_write_index_def Let_def)
  have len: "unat (of_nat (length xs) :: u32) = length xs"
    using fill ring_sizeD [OF sz] by (intro unat_of_nat_32) simp
  obtain buf' where w: "spa_ringbuffer_write_data buf (of_nat (length buf)) (rb_offset buf idx) xs
      (of_nat (length xs)) = Some buf'" "length buf' = length buf"
    by (rule ringbuffer_write_data [OF sz unat_rb_offset [OF sz] len]) (use fill in auto)
  have "rb_inv (?s\<lparr>wpc := WReserved idx (nat filled)\<rparr>)"
    using rb_inv_idle [OF inv] i by (intro w_index_inv) (auto simp: rb_idle_def st)
  then have "rb_inv (?s\<lparr>rbbuf := buf', wpc := WCopied idx xs\<rparr>)"
    using w_copy_inv [of "?s\<lparr>wpc := WReserved idx (nat filled)\<rparr>" idx "nat filled" xs buf'] w(1) fill idx
    by (auto simp: rb_idle_def st)
  then have *: "rb_inv (?s\<lparr>rbbuf := buf', wpc := WCopied idx xs,
      rb := spa_ringbuffer_write_update r (idx + of_nat (length xs)), wpc := WIdle,
      sent := ring_items st @ xs\<rparr>)"
    using w_publish_inv [of "?s\<lparr>rbbuf := buf', wpc := WCopied idx xs\<rparr>" idx xs]
    by (auto simp: rb_idle_def st)
  have "ring_fill (spa_ringbuffer_write_update r (idx + of_nat (length xs)))
      = ring_fill r + length xs"
    unfolding idx(1) using fill ring_sizeD [OF sz] by (intro ring_fill_write) simp
  then show ?thesis
    using * i w
    by (auto simp: ring_put_def st ring_invar_def ring_items_def ring_room_def rb_inv_def
        rb_pending_def rb_idle_def)
qed

lemma ring_get_items:
  assumes inv: "ring_invar st" and n: "n \<le> length (ring_items st)"
  shows "\<exists>st'. ring_get st n = Some (take n (ring_items st), st') \<and> ring_invar st' \<and>
    ring_items st' = drop n (ring_items st) \<and> ring_room st' = ring_room st + n"
proof -
  obtain r buf where st: "st = (r, buf)" by (cases st)
  have sz: "ring_size (length buf)" and fill: "n \<le> ring_fill r" "ring_fill r \<le> length buf"
    using inv n by (auto simp: ring_invar_def ring_items_def st)
  obtain avail idx where i: "spa_ringbuffer_get_read_index r = (avail, idx)" "idx = readindex r"
    by (auto simp: spa_ringbuffer_get_read_index_def Let_def)
  have un: "unat (of_nat n :: u32) = n"
    using fill ring_sizeD [OF sz] by (intro unat_of_nat_32) simp
  have "spa_ringbuffer_read_data buf (of_nat (length buf)) (rb_offset buf idx) (of_nat n)
      = Some (ring_slice buf idx n)"
    using ringbuffer_read_data [OF sz unat_rb_offset [OF sz], of "of_nat n" idx] fill un by simp
  then show ?thesis
    using i fill ring_fill_read [OF fill(1)] sz
    by (auto simp: ring_get_def st ring_items_def ring_invar_def ring_room_def ring_slice_take
        ring_slice_drop spa_ringbuffer_read_update_def)
qed

interpretation ring: bounded_fifo ring_invar ring_items ring_room ring_put ring_get
  by unfold_locales (use ring_put_items ring_get_items in auto)

section \<open>Properties\<close>

text \<open>
  C1: whatever the interleaving of the producer's and the consumer's calls, the bytes the consumer
  has released followed by the bytes between the two indices are exactly the bytes the producer
  has published, in order, and the fill level never exceeds the array; the indices may wrap.
\<close>

theorem spsc_stream:
  assumes "rb_reachable n s"
  shows "sent s = got s @ ring_slice (rbbuf s) (readindex (rb s)) (ring_fill (rb s)) \<and>
    ring_fill (rb s) \<le> n"
  using rb_reachable_inv [OF assms] by (simp add: rb_inv_def rb_pending_def)

definition example_rb_sys :: rb_sys where
  "example_rb_sys = \<lparr>rb = \<lparr>readindex = 0, writeindex = 1\<rparr>, rbbuf = [7, 0], wpc = WIdle,
     rpc = RIdle, sent = [7], got = []\<rparr>"

lemma example_rb_reachable: "rb_reachable 2 example_rb_sys"
proof -
  let ?s0 = "\<lparr>rb = spa_ringbuffer_init \<lparr>readindex = 5, writeindex = 9\<rparr>, rbbuf = [0, 0], wpc = WIdle,
    rpc = RIdle, sent = [], got = []\<rparr>"
  have s0: "rb_reachable 2 ?s0"
    by (rule rb_start) (simp_all add: ring_size_def upt_rec)
  have s1: "rb_reachable 2 (?s0\<lparr>wpc := WReserved 0 (nat 0)\<rparr>)"
    by (rule rb_next [OF s0], rule w_index)
      (simp_all add: spa_ringbuffer_get_write_index_def spa_ringbuffer_init_def)
  have s2: "rb_reachable 2 (?s0\<lparr>wpc := WReserved 0 (nat 0), rbbuf := [7, 0], wpc := WCopied 0 [7]\<rparr>)"
    by (rule rb_next [OF s1], rule w_copy)
      (auto simp: spa_ringbuffer_write_data_def rb_offset_def copy_out_def copy_in_def)
  have "rb_reachable 2 (?s0\<lparr>wpc := WReserved 0 (nat 0), rbbuf := [7, 0], wpc := WCopied 0 [7],
    rb := spa_ringbuffer_write_update (spa_ringbuffer_init \<lparr>readindex = 5, writeindex = 9\<rparr>) 1,
    wpc := WIdle, sent := [7]\<rparr>)"
    by (rule rb_next [OF s2]) (use w_publish [of "?s0\<lparr>wpc := WReserved 0 (nat 0), rbbuf := [7, 0],
      wpc := WCopied 0 [7]\<rparr>" 0 "[7]"] in simp)
  then show ?thesis
    by (simp add: example_rb_sys_def spa_ringbuffer_write_update_def spa_ringbuffer_init_def)
qed

theorem spsc_stream_witness:
  "rb_reachable 2 example_rb_sys \<and>
   sent example_rb_sys = got example_rb_sys @
     ring_slice (rbbuf example_rb_sys) (readindex (rb example_rb_sys))
       (ring_fill (rb example_rb_sys))"
  using example_rb_reachable spsc_stream [OF example_rb_reachable] by simp

text \<open>
  C2: in every reachable state the producer's copy of any data that fits in the free space it saw,
  and the consumer's copy of any number of bytes up to the fill level it saw, stay inside the
  array, and the consumer gets the oldest pending bytes.
\<close>

theorem spsc_copies_in_bounds:
  assumes "rb_reachable n s"
  shows "(\<forall>idx filled data. wpc s = WReserved idx filled \<and> filled + length data \<le> n \<longrightarrow>
      spa_ringbuffer_write_data (rbbuf s) (of_nat n) (rb_offset (rbbuf s) idx) data
        (of_nat (length data)) \<noteq> None) \<and>
    (\<forall>idx avail k. rpc s = RAvail idx avail \<and> k \<le> avail \<longrightarrow>
      spa_ringbuffer_read_data (rbbuf s) (of_nat n) (rb_offset (rbbuf s) idx) (of_nat k)
        = Some (take k (ring_slice (rbbuf s) (readindex (rb s)) (ring_fill (rb s)))))"
proof -
  have inv: "rb_inv s" and n: "length (rbbuf s) = n" using rb_reachable_inv [OF assms] by auto
  have sz: "ring_size n" using inv n by (simp add: rb_inv_def)
  have un: "unat (of_nat k :: u32) = k" if "k \<le> n" for k
    using that ring_sizeD [OF sz] by (intro unat_of_nat_32) simp
  have w: "spa_ringbuffer_write_data (rbbuf s) (of_nat n) (rb_offset (rbbuf s) idx) data
      (of_nat (length data)) \<noteq> None" if "length data \<le> n" for idx data
    using ringbuffer_write_data [of "rbbuf s" "rb_offset (rbbuf s) idx" idx
        "of_nat (length data)" data] un [OF that] that sz unat_rb_offset [of "rbbuf s" idx] n
    by fastforce
  have r: "spa_ringbuffer_read_data (rbbuf s) (of_nat n) (rb_offset (rbbuf s) idx) (of_nat k)
      = Some (ring_slice (rbbuf s) idx k)" if "k \<le> n" for idx k
    using ringbuffer_read_data [of "rbbuf s" "rb_offset (rbbuf s) idx" idx "of_nat k"]
      un [OF that] that sz unat_rb_offset [of "rbbuf s" idx] n by simp
  show ?thesis
    using inv unfolding rb_inv_def consumer_inv_def n
    by (auto simp: w ring_slice_take intro!: r)
qed

lemma example_rb_reachable_avail: "rb_reachable 2 (example_rb_sys\<lparr>rpc := RAvail 0 (nat 1)\<rparr>)"
  by (rule rb_next [OF example_rb_reachable], rule r_index)
    (simp_all add: example_rb_sys_def spa_ringbuffer_get_read_index_def)

theorem spsc_copies_in_bounds_witness:
  "rb_reachable 2 (example_rb_sys\<lparr>rpc := RAvail 0 (nat 1)\<rparr>) \<and>
   spa_ringbuffer_read_data [7, 0] 2 0 1 = Some [7]"
proof
  show "rb_reachable 2 (example_rb_sys\<lparr>rpc := RAvail 0 (nat 1)\<rparr>)"
    by (rule example_rb_reachable_avail)
  have "spa_ringbuffer_read_data [7, 0] (of_nat 2) (rb_offset [7, 0] 0) (of_nat 1)
      = Some (take 1 (ring_slice [7, 0] 0 1))"
    using spsc_copies_in_bounds [OF example_rb_reachable_avail, THEN conjunct2, rule_format,
        of 0 "nat 1" 1]
    by (simp add: example_rb_sys_def ring_fill_def)
  then show "spa_ringbuffer_read_data [7, 0] 2 0 1 = Some [7]"
    by (simp add: rb_offset_def ring_slice_def ring_pos_def)
qed

text \<open>
  C3: filling an empty ring with any sequence of chunks that fit together and then reading the
  total number of bytes succeeds, returns the chunks in order and empties the ring.
\<close>

theorem ring_put_all_get_all:
  assumes "ring_invar st" and "ring_items st = []" and "length (concat xss) \<le> ring_room st"
  shows "\<exists>st' st''. fold (\<lambda>xs s. Option.bind s (\<lambda>s. ring_put s xs)) xss (Some st) = Some st' \<and>
    ring_get st' (length (concat xss)) = Some (concat xss, st'') \<and> ring_invar st'' \<and>
    ring_items st'' = []"
  using assms by (rule ring.put_all_get_all)

theorem ring_put_all_get_all_witness:
  "\<exists>st' st''. fold (\<lambda>xs s. Option.bind s (\<lambda>s. ring_put s xs)) [[1, 2], [3]]
       (Some (\<lparr>readindex = 4294967295, writeindex = 4294967295\<rparr>, [0, 0, 0, 0])) = Some st' \<and>
    ring_get st' 3 = Some ([1, 2, 3], st'') \<and> ring_invar st'' \<and> ring_items st'' = []"
proof -
  let ?st = "(\<lparr>readindex = 4294967295, writeindex = 4294967295\<rparr>, [0, 0, 0, 0]) :: spa_ringbuffer \<times> u8 list"
  have "ring_invar ?st" "ring_items ?st = []" "length (concat [[1, 2], [3 :: u8]]) \<le> ring_room ?st"
    by (simp_all add: ring_invar_def ring_items_def ring_room_def ring_fill_def ring_size_def upt_rec)
  from ring_put_all_get_all [OF this] show ?thesis by (simp add: numeral_3_eq_3)
qed

end
