(* ===== verification/PW_Meta.thy ===== *)
theory PW_Meta
  imports PW_Prelude
begin

text \<open>
  Buffer metadata records, \<^verbatim>\<open>spa/buffer/meta.h\<close>: the acquisition identity, exposure timing,
  reference timestamp, optical chopping and electrical trigger records of PipeWireAO, their layout
  and content checks, and the copy of a record set from one buffer to another.

  The payloads live in a byte memory addressed by 64-bit words; a metadata array is its address and
  its list of \<open>spa_meta\<close> descriptors (16 bytes each in memory), passed together with the number of
  descriptors. Null pointers are address \<open>0\<close>. Addresses are compared and added as
  \<^verbatim>\<open>uintptr_t\<close> words, so that the overflow guards of the code carry the proofs.
\<close>

section \<open>Record types\<close>

abbreviation (input) SPA_META_Invalid :: u32 where "SPA_META_Invalid \<equiv> 0"
abbreviation (input) SPA_META_Header :: u32 where "SPA_META_Header \<equiv> 1"
abbreviation (input) SPA_META_Busy :: u32 where "SPA_META_Busy \<equiv> 7"
abbreviation (input) SPA_META_SyncTimeline :: u32 where "SPA_META_SyncTimeline \<equiv> 9"
abbreviation (input) SPA_META_AcquisitionIdentity :: u32 where "SPA_META_AcquisitionIdentity \<equiv> 0x300"
abbreviation (input) SPA_META_ExposureTiming :: u32 where "SPA_META_ExposureTiming \<equiv> 0x301"
abbreviation (input) SPA_META_OpticalChopping :: u32 where "SPA_META_OpticalChopping \<equiv> 0x303"
abbreviation (input) SPA_META_ElectricalTrigger :: u32 where "SPA_META_ElectricalTrigger \<equiv> 0x304"
abbreviation (input) SPA_META_ReferenceTimestamp :: u32 where "SPA_META_ReferenceTimestamp \<equiv> 0x305"
abbreviation (input) SPA_META_START_features :: u32 where "SPA_META_START_features \<equiv> 0x10000"

abbreviation (input) SPA_META_MAX_RECORDS :: nat where "SPA_META_MAX_RECORDS \<equiv> 64"
abbreviation (input) SPA_META_MAX_BYTES :: u32 where "SPA_META_MAX_BYTES \<equiv> 4096"
abbreviation (input) SPA_META_RECORD_VALID :: u32 where "SPA_META_RECORD_VALID \<equiv> 1"
abbreviation (input) SPA_META_EXPOSURE_START_VALID :: u32 where "SPA_META_EXPOSURE_START_VALID \<equiv> 1"
abbreviation (input) SPA_META_EXPOSURE_DURATION_VALID :: u32 where "SPA_META_EXPOSURE_DURATION_VALID \<equiv> 2"
abbreviation (input) SPA_META_CLOCK_MONOTONIC :: u32 where "SPA_META_CLOCK_MONOTONIC \<equiv> 1"
abbreviation (input) SPA_META_CLOCK_MODEL :: u32 where "SPA_META_CLOCK_MODEL \<equiv> 4"
abbreviation (input) SPA_META_REQUIREMENT_REQUIRED :: u32 where "SPA_META_REQUIREMENT_REQUIRED \<equiv> 1"

type_synonym cmem = "u64 \<Rightarrow> u8"

record spa_meta =
  mtype :: u32
  msize :: u32
  mdata :: u64

record meta_array =
  maddr :: u64
  mrecs :: "spa_meta list"

record spa_meta_requirement =
  rtype :: u32
  rsize :: u32
  rflags :: u32
  rreserved :: u32

definition spa_aligned8 :: "u64 \<Rightarrow> bool" where
  "spa_aligned8 p \<longleftrightarrow> p AND 7 = 0"

section \<open>Writing memory\<close>

text \<open>\<open>in_reg a n\<close>: the \<open>n\<close> addresses from \<open>a\<close>; \<^verbatim>\<open>memset(a, 0, n)\<close> and \<^verbatim>\<open>memcpy(d, s, n)\<close>.\<close>

definition in_reg :: "u64 \<Rightarrow> nat \<Rightarrow> u64 \<Rightarrow> bool" where
  "in_reg a n x \<longleftrightarrow> unat (x - a) < n"

definition memset0 :: "cmem \<Rightarrow> u64 \<Rightarrow> nat \<Rightarrow> cmem" where
  "memset0 m a n = (\<lambda>x. if in_reg a n x then 0 else m x)"

definition memcpy :: "cmem \<Rightarrow> u64 \<Rightarrow> u64 \<Rightarrow> nat \<Rightarrow> cmem" where
  "memcpy m d s n = (\<lambda>x. if in_reg d n x then m (s + (x - d)) else m x)"

section \<open>Checks of single records\<close>

definition spa_meta_bytes_zero :: "cmem \<Rightarrow> u64 \<Rightarrow> nat \<Rightarrow> bool" where
  "spa_meta_bytes_zero m data n = (foldl (\<lambda>v i. v OR m (data + of_nat i)) 0 [0..<n] = 0)"

definition spa_meta_type_is_transport_owned :: "u32 \<Rightarrow> bool" where
  "spa_meta_type_is_transport_owned t \<longleftrightarrow>
     t = SPA_META_Busy \<or> t = SPA_META_SyncTimeline \<or> t \<ge> SPA_META_START_features"

definition spa_meta_record_size :: "u32 \<Rightarrow> u32" where
  "spa_meta_record_size t =
     (if t = SPA_META_Header then 32
      else if t = SPA_META_AcquisitionIdentity then 40
      else if t = SPA_META_ExposureTiming then 24
      else if t = SPA_META_ReferenceTimestamp then 24
      else if t = SPA_META_OpticalChopping then 8
      else if t = SPA_META_ElectricalTrigger then 8
      else 0)"

definition spa_meta_record_layout_validate :: "u32 \<Rightarrow> u32 \<Rightarrow> u32 \<Rightarrow> bool" where
  "spa_meta_record_layout_validate t sz max_bytes =
     (if t = SPA_META_Invalid \<or> t = 11 \<or> t = 12 \<or> t = 13 \<or> t = 0x302 \<or> sz > max_bytes then False
      else if t \<ge> SPA_META_START_features then
        sz = 0 \<and> \<not> (drop_bit 16 t \<ge> 11 \<and> drop_bit 16 t \<le> 13) \<and> drop_bit 16 t \<noteq> 0x302
      else let expected = spa_meta_record_size t in expected = 0 \<or> expected = sz)"

definition spa_meta_records_find :: "spa_meta list \<Rightarrow> u32 \<Rightarrow> spa_meta option" where
  "spa_meta_records_find metas t = find (\<lambda>m. mtype m = t) metas"

definition meta_storage_ok :: "spa_meta \<Rightarrow> bool" where
  "meta_storage_ok m \<longleftrightarrow>
     spa_meta_record_layout_validate (mtype m) (msize m) SPA_META_MAX_BYTES \<and>
     \<not> (msize m \<noteq> 0 \<and> (mdata m = 0 \<or> \<not> spa_aligned8 (mdata m)))"

definition spa_meta_record_validate :: "cmem \<Rightarrow> spa_meta option \<Rightarrow> bool \<Rightarrow> bool" where
  "spa_meta_record_validate mem meta require_valid = (case meta of None \<Rightarrow> False | Some m \<Rightarrow>
     (if \<not> meta_storage_ok m then False
      else if spa_meta_record_size (mtype m) = 0 then \<not> require_valid
      else let p = mdata m in
        if mtype m = SPA_META_AcquisitionIdentity then
          (if load32 mem p = 0 then \<not> require_valid \<and> spa_meta_bytes_zero mem p 40
           else load32 mem p = SPA_META_RECORD_VALID \<and> load32 mem (p + 4) = 0 \<and>
             \<not> spa_meta_bytes_zero mem (p + 8) 16)
        else if mtype m = SPA_META_ExposureTiming then
          (let flags = load32 mem p; clock = load32 mem (p + 4); start_nsec = load64 mem (p + 8);
               duration_nsec = load64 mem (p + 16)
           in if flags = 0 then \<not> require_valid \<and> spa_meta_bytes_zero mem p 24
              else if flags AND NOT 3 \<noteq> 0 then False
              else if flags AND SPA_META_EXPOSURE_START_VALID = 0 then
                flags = SPA_META_EXPOSURE_DURATION_VALID \<and> duration_nsec > 0 \<and> clock = 0 \<and>
                start_nsec = 0
              else clock \<ge> SPA_META_CLOCK_MONOTONIC \<and> clock \<le> SPA_META_CLOCK_MODEL \<and>
                (if flags AND SPA_META_EXPOSURE_DURATION_VALID \<noteq> 0 then duration_nsec > 0
                 else duration_nsec = 0))
        else if mtype m = SPA_META_ReferenceTimestamp then
          (let clock = load32 mem p
           in if clock = 0 then \<not> require_valid \<and> spa_meta_bytes_zero mem p 24
              else clock \<ge> SPA_META_CLOCK_MONOTONIC \<and> clock \<le> SPA_META_CLOCK_MODEL \<and>
                load32 mem (p + 4) = 0 \<and> load64 mem (p + 8) \<noteq> 0xFFFFFFFFFFFFFFFF)
        else if mtype m = SPA_META_OpticalChopping \<or> mtype m = SPA_META_ElectricalTrigger then
          (if load32 mem p = SPA_META_RECORD_VALID then load32 mem (p + 4) \<le> 3
           else \<not> require_valid \<and> load32 mem p = 0 \<and> load32 mem (p + 4) = 0)
        else True))"

definition spa_meta_record_init :: "cmem \<Rightarrow> spa_meta option \<Rightarrow> bool \<times> cmem" where
  "spa_meta_record_init mem meta = (case meta of None \<Rightarrow> (False, mem) | Some m \<Rightarrow>
     (if \<not> meta_storage_ok m then (False, mem)
      else if spa_meta_type_is_transport_owned (mtype m) then (True, mem)
      else if msize m \<noteq> 0 then (True, memset0 mem (mdata m) (unat (msize m)))
      else (True, mem)))"

section \<open>Checks of record arrays\<close>

definition round8 :: "u32 \<Rightarrow> u32" where
  "round8 n = (n + 7) AND NOT 7"

text \<open>
  The loop of \<^verbatim>\<open>spa_meta_records_layout_validate\<close>: \<open>seen\<close> are the descriptors already visited,
  \<open>desc\<close> and \<open>dlen\<close> the address and byte length of the descriptor array.
\<close>

fun meta_layout_loop :: "u64 \<Rightarrow> u64 \<Rightarrow> spa_meta list \<Rightarrow> spa_meta list \<Rightarrow> u32 \<Rightarrow> bool" where
  "meta_layout_loop desc dlen seen [] bytes = True"
| "meta_layout_loop desc dlen seen (m # rest) bytes =
     (if \<not> meta_storage_ok m \<or> round8 (msize m) > SPA_META_MAX_BYTES - bytes then False
      else let start = mdata m; sz = ucast (msize m) in
        if msize m \<noteq> 0 \<and> (start > 0xFFFFFFFFFFFFFFFF - sz \<or> desc > 0xFFFFFFFFFFFFFFFF - dlen \<or>
            (start < desc + dlen \<and> desc < start + sz)) then False
        else if list_ex (\<lambda>o'. mtype m = mtype o' \<or>
            (msize m \<noteq> 0 \<and> msize o' \<noteq> 0 \<and> start < mdata o' + ucast (msize o') \<and>
             mdata o' < start + sz)) seen then False
        else meta_layout_loop desc dlen (seen @ [m]) rest (bytes + round8 (msize m)))"

definition spa_meta_records_layout_validate :: "meta_array \<Rightarrow> bool" where
  "spa_meta_records_layout_validate metas =
     (let count = length (mrecs metas)
      in if count > SPA_META_MAX_RECORDS \<or>
            (count \<noteq> 0 \<and> (maddr metas = 0 \<or> \<not> spa_aligned8 (maddr metas))) then False
         else meta_layout_loop (maddr metas) (of_nat count * 16) [] (mrecs metas) 0)"

fun meta_last_of_type :: "spa_meta list \<Rightarrow> u32 \<Rightarrow> spa_meta option \<Rightarrow> spa_meta option" where
  "meta_last_of_type [] t acc = acc"
| "meta_last_of_type (m # ms) t acc = meta_last_of_type ms t (if mtype m = t then Some m else acc)"

fun meta_requirements_loop :: "cmem \<Rightarrow> spa_meta list \<Rightarrow> spa_meta_requirement list \<Rightarrow>
    spa_meta_requirement list \<Rightarrow> bool" where
  "meta_requirements_loop mem metas seen [] = True"
| "meta_requirements_loop mem metas seen (r # rest) =
     (if rreserved r \<noteq> 0 \<or> rflags r AND NOT SPA_META_REQUIREMENT_REQUIRED \<noteq> 0 \<or>
         \<not> spa_meta_record_layout_validate (rtype r) (rsize r) SPA_META_MAX_BYTES then False
      else if list_ex (\<lambda>q. rtype q = rtype r) seen then False
      else case meta_last_of_type metas (rtype r) None of
        None \<Rightarrow> if rflags r AND SPA_META_REQUIREMENT_REQUIRED \<noteq> 0 then False
                else meta_requirements_loop mem metas (seen @ [r]) rest
      | Some m \<Rightarrow>
          if msize m \<noteq> rsize r \<or>
             (rflags r AND SPA_META_REQUIREMENT_REQUIRED \<noteq> 0 \<and> spa_meta_record_size (rtype r) \<noteq> 0 \<and>
              \<not> spa_meta_record_validate mem (Some m) True) then False
          else meta_requirements_loop mem metas (seen @ [r]) rest)"

text \<open>The requirements are an array at \<open>raddr\<close>.\<close>

definition spa_meta_records_validate ::
    "cmem \<Rightarrow> meta_array \<Rightarrow> u64 \<Rightarrow> spa_meta_requirement list \<Rightarrow> bool" where
  "spa_meta_records_validate mem metas raddr requirements =
     (if \<not> spa_meta_records_layout_validate metas \<or> length requirements > SPA_META_MAX_RECORDS \<or>
         (mrecs metas \<noteq> [] \<and> maddr metas = 0) \<or>
         (requirements \<noteq> [] \<and> (raddr = 0 \<or> raddr AND 3 \<noteq> 0)) then False
      else if list_ex (\<lambda>m. \<not> spa_meta_record_validate mem (Some m) False) (mrecs metas) then False
      else meta_requirements_loop mem (mrecs metas) [] requirements)"

section \<open>Copying a record array\<close>

fun meta_init_loop :: "cmem \<Rightarrow> spa_meta list \<Rightarrow> bool \<times> cmem" where
  "meta_init_loop mem [] = (True, mem)"
| "meta_init_loop mem (d # ds) =
     (case spa_meta_record_init mem (Some d) of
        (False, mem') \<Rightarrow> (False, mem')
      | (True, mem') \<Rightarrow> meta_init_loop mem' ds)"

fun meta_copy_loop :: "cmem \<Rightarrow> spa_meta list \<Rightarrow> spa_meta list \<Rightarrow> cmem" where
  "meta_copy_loop mem dst [] = mem"
| "meta_copy_loop mem dst (s # ss) =
     (if spa_meta_type_is_transport_owned (mtype s) then meta_copy_loop mem dst ss
      else case spa_meta_records_find dst (mtype s) of
        None \<Rightarrow> meta_copy_loop mem dst ss
      | Some d \<Rightarrow> meta_copy_loop
          (if msize d \<noteq> 0 then memcpy mem (mdata d) (mdata s) (unat (msize d)) else mem) dst ss)"

definition meta_copy_target_ok :: "spa_meta list \<Rightarrow> spa_meta \<Rightarrow> bool" where
  "meta_copy_target_ok dst s \<longleftrightarrow>
     spa_meta_type_is_transport_owned (mtype s) \<or>
     (case spa_meta_records_find dst (mtype s) of
        None \<Rightarrow> False
      | Some d \<Rightarrow> msize d = msize s \<and>
          \<not> (msize d \<noteq> 0 \<and> (mdata d = 0 \<or> \<not> spa_aligned8 (mdata d))))"

definition meta_overlaps_descriptors :: "u64 \<Rightarrow> u64 \<Rightarrow> spa_meta \<Rightarrow> bool" where
  "meta_overlaps_descriptors desc dlen d \<longleftrightarrow>
     \<not> spa_meta_type_is_transport_owned (mtype d) \<and> msize d \<noteq> 0 \<and>
     mdata d < desc + dlen \<and> desc < mdata d + ucast (msize d)"

definition meta_payload_conflict :: "spa_meta \<Rightarrow> spa_meta \<Rightarrow> bool" where
  "meta_payload_conflict s d \<longleftrightarrow>
     \<not> (spa_meta_type_is_transport_owned (mtype s) \<and> spa_meta_type_is_transport_owned (mtype d)) \<and>
     msize s \<noteq> 0 \<and> msize d \<noteq> 0 \<and>
     (mdata s > 0xFFFFFFFFFFFFFFFF - ucast (msize s) \<or>
      mdata d > 0xFFFFFFFFFFFFFFFF - ucast (msize d) \<or>
      (mdata s < mdata d + ucast (msize d) \<and> mdata d < mdata s + ucast (msize s)))"

definition spa_meta_records_copy :: "cmem \<Rightarrow> meta_array \<Rightarrow> meta_array \<Rightarrow> bool \<times> cmem" where
  "spa_meta_records_copy mem dst src =
     (if \<not> spa_meta_records_validate mem src 0 [] \<or> \<not> spa_meta_records_layout_validate dst
      then (False, mem)
      else if maddr dst = maddr src then (length (mrecs dst) = length (mrecs src), mem)
      else if list_ex (\<lambda>s. \<not> meta_copy_target_ok (mrecs dst) s) (mrecs src) then (False, mem)
      else if list_ex (meta_overlaps_descriptors (maddr src) (of_nat (length (mrecs src)) * 16))
          (mrecs dst) then (False, mem)
      else if list_ex (\<lambda>s. list_ex (meta_payload_conflict s) (mrecs dst)) (mrecs src) then (False, mem)
      else case meta_init_loop mem (mrecs dst) of
        (False, mem') \<Rightarrow> (False, mem')
      | (True, mem') \<Rightarrow> (True, meta_copy_loop mem' (mrecs dst) (mrecs src)))"

definition spa_acquisition_identity_equal :: "cmem \<Rightarrow> u64 \<Rightarrow> u64 \<Rightarrow> bool" where
  "spa_acquisition_identity_equal mem a b \<longleftrightarrow>
     a \<noteq> 0 \<and> b \<noteq> 0 \<and> load32 mem a = SPA_META_RECORD_VALID \<and>
     load32 mem b = SPA_META_RECORD_VALID \<and> load32 mem (a + 4) = 0 \<and> load32 mem (b + 4) = 0 \<and>
     \<not> spa_meta_bytes_zero mem (a + 8) 16 \<and> load64 mem (a + 24) = load64 mem (b + 24) \<and>
     load64 mem (a + 32) = load64 mem (b + 32) \<and> load mem (a + 8) 16 = load mem (b + 8) 16"

section \<open>Regions\<close>

definition no_wrap :: "u64 \<Rightarrow> nat \<Rightarrow> bool" where
  "no_wrap a n \<longleftrightarrow> unat a + n < 2 ^ 64"

definition meta_region :: "spa_meta \<Rightarrow> u64 set" where
  "meta_region m = {x. in_reg (mdata m) (unat (msize m)) x}"

abbreviation meta_fact :: "spa_meta \<Rightarrow> bool" where
  "meta_fact m \<equiv> \<not> spa_meta_type_is_transport_owned (mtype m)"

lemma in_reg_0 [simp]: "\<not> in_reg a 0 x"
  by (simp add: in_reg_def)

lemma in_reg_nowrap: "no_wrap a n \<Longrightarrow> in_reg a n x \<longleftrightarrow> unat a \<le> unat x \<and> unat x < unat a + n"
proof -
  assume nw: "no_wrap a n"
  show ?thesis
  proof (cases "a \<le> x")
    case True
    hence "unat (x - a) = unat x - unat a" by (rule unat_minus_no_wrap)
    thus ?thesis using True by (auto simp: in_reg_def word_le_unat)
  next
    case False
    hence "unat (x - a) = 2 ^ 64 + unat x - unat a"
      using unat_sub_if_size [of x a] unat_lt_64 [of a] by (simp add: word_size word_le_unat)
    thus ?thesis using False nw unat_lt_64 [of a]
      by (auto simp: in_reg_def no_wrap_def word_le_unat)
  qed
qed

lemma no_wrap_guard64: "\<not> (a > 0xFFFFFFFFFFFFFFFF - (n :: u64)) \<Longrightarrow> no_wrap a (unat n)"
proof -
  have "n \<le> 0xFFFFFFFFFFFFFFFF" using unat_lt_64 [of n] by (simp add: word_le_unat)
  hence "unat (0xFFFFFFFFFFFFFFFF - n) = 2 ^ 64 - 1 - unat n" by (simp add: unat_minus_no_wrap)
  moreover assume "\<not> (a > 0xFFFFFFFFFFFFFFFF - n)"
  hence "unat a \<le> unat (0xFFFFFFFFFFFFFFFF - n)" by (simp add: word_le_unat not_less)
  ultimately show ?thesis using unat_lt_64 [of n] by (simp add: no_wrap_def)
qed

lemma no_wrap_guard: "\<not> (a > 0xFFFFFFFFFFFFFFFF - ucast (n :: u32)) \<Longrightarrow> no_wrap a (unat n)"
  using no_wrap_guard64 [of "ucast n" a] by simp

lemma unat_region_end: "no_wrap a (unat n) \<Longrightarrow> unat (a + n) = unat a + unat n" for n :: u64
  by (simp add: no_wrap_def unat_plus_64)

lemma no_overlap_disjoint:
  fixes a b n k :: u64
  assumes "no_wrap a (unat n)" "no_wrap b (unat k)" "\<not> (a < b + k \<and> b < a + n)"
  shows "in_reg a (unat n) x \<Longrightarrow> \<not> in_reg b (unat k) x"
  using assms by (auto simp: in_reg_nowrap word_less_unat unat_region_end)

lemma in_reg_load:
  assumes "i < n" "no_wrap a n" shows "in_reg a n (a + of_nat i)"
  using assms by (simp add: in_reg_def no_wrap_def unat_of_nat_64)

lemma in_regE:
  assumes "in_reg a n x" obtains i where "i < n" "x = a + of_nat i"
proof
  show "unat (x - a) < n" using assms by (simp add: in_reg_def)
  show "x = a + of_nat (unat (x - a))" by simp
qed

section \<open>Layout\<close>

text \<open>What a validated layout gives: bounded, distinct, disjoint records off the descriptors.\<close>

definition meta_apart :: "spa_meta \<Rightarrow> spa_meta \<Rightarrow> bool" where
  "meta_apart m k \<longleftrightarrow> mtype m \<noteq> mtype k \<and> meta_region m \<inter> meta_region k = {}"

definition meta_placed :: "u64 \<Rightarrow> u64 \<Rightarrow> spa_meta \<Rightarrow> bool" where
  "meta_placed desc dlen m \<longleftrightarrow> meta_storage_ok m \<and> no_wrap (mdata m) (unat (msize m)) \<and>
     (msize m \<noteq> 0 \<longrightarrow> no_wrap desc (unat dlen) \<and>
        (\<forall>x. in_reg desc (unat dlen) x \<longrightarrow> x \<notin> meta_region m))"

lemma meta_apart_sym: "meta_apart m k \<Longrightarrow> meta_apart k m"
  by (auto simp: meta_apart_def)

lemma meta_apartI:
  assumes "mtype m \<noteq> mtype k" "no_wrap (mdata m) (unat (msize m))" "no_wrap (mdata k) (unat (msize k))"
    "\<not> (msize m \<noteq> 0 \<and> msize k \<noteq> 0 \<and> mdata m < mdata k + ucast (msize k) \<and>
        mdata k < mdata m + ucast (msize m))"
  shows "meta_apart m k"
proof (cases "msize m = 0 \<or> msize k = 0")
  case True
  thus ?thesis using assms(1) by (auto simp: meta_apart_def meta_region_def)
next
  case False
  hence "\<not> (mdata m < mdata k + ucast (msize k) \<and> mdata k < mdata m + ucast (msize m))"
    using assms(4) by blast
  from no_overlap_disjoint [OF _ _ this] show ?thesis
    using assms(1-3) by (auto simp: meta_apart_def meta_region_def)
qed

lemma meta_placedI:
  assumes "meta_storage_ok m" "no_wrap (mdata m) (unat (msize m))"
    "msize m \<noteq> 0 \<Longrightarrow> \<not> (desc > 0xFFFFFFFFFFFFFFFF - dlen) \<and>
       \<not> (mdata m < desc + dlen \<and> desc < mdata m + ucast (msize m))"
  shows "meta_placed desc dlen m"
proof (cases "msize m = 0")
  case True
  thus ?thesis using assms(1,2) by (simp add: meta_placed_def)
next
  case False
  have nw: "no_wrap desc (unat dlen)" using assms(3) [OF False] by (intro no_wrap_guard64) blast
  moreover have "x \<notin> meta_region m" if "in_reg desc (unat dlen) x" for x
  proof -
    have "\<not> in_reg (mdata m) (unat (ucast (msize m) :: u64)) x"
    proof
      assume "in_reg (mdata m) (unat (ucast (msize m) :: u64)) x"
      from no_overlap_disjoint [OF _ nw conjunct2 [OF assms(3) [OF False]] this]
      show False using assms(2) that by simp
    qed
    thus ?thesis by (simp add: meta_region_def)
  qed
  ultimately show ?thesis using assms(1,2) by (simp add: meta_placed_def)
qed

lemma storage_ok_size: "meta_storage_ok m \<Longrightarrow> msize m \<le> SPA_META_MAX_BYTES"
  by (rule ccontr) (simp add: meta_storage_ok_def spa_meta_record_layout_validate_def not_le)

lemma unat_round8: "unat n \<le> 4096 \<Longrightarrow> unat (round8 n) = (unat n + 7) div 8 * 8"
  unfolding round8_def unat_align_8 by (simp add: unat_plus_32 minus_mod_eq_div_mult)

lemma layout_loop_sound:
  assumes "meta_layout_loop desc dlen seen ms bytes" "unat bytes \<le> 4096"
    "\<forall>m\<in>set seen. meta_placed desc dlen m"
  shows "(\<forall>m\<in>set ms. meta_placed desc dlen m) \<and> sorted_wrt meta_apart ms \<and>
    (\<forall>m\<in>set ms. \<forall>k\<in>set seen. meta_apart k m) \<and>
    unat bytes + sum_list (map (\<lambda>m. unat (msize m)) ms) \<le> 4096"
  using assms
proof (induction ms arbitrary: seen bytes)
  case Nil
  thus ?case by simp
next
  case (Cons m rest)
  from Cons(2) have ok: "meta_storage_ok m" and sz: "\<not> round8 (msize m) > SPA_META_MAX_BYTES - bytes"
    and place: "msize m = 0 \<or> \<not> (mdata m > 0xFFFFFFFFFFFFFFFF - ucast (msize m)) \<and>
       \<not> (desc > 0xFFFFFFFFFFFFFFFF - dlen) \<and>
       \<not> (mdata m < desc + dlen \<and> desc < mdata m + ucast (msize m))"
    and new: "\<forall>k\<in>set seen. mtype m \<noteq> mtype k \<and> \<not> (msize m \<noteq> 0 \<and> msize k \<noteq> 0 \<and>
       mdata m < mdata k + ucast (msize k) \<and> mdata k < mdata m + ucast (msize m))"
    and loop: "meta_layout_loop desc dlen (seen @ [m]) rest (bytes + round8 (msize m))"
    by (auto simp: Let_def list_ex_iff split: if_splits)
  have nw: "no_wrap (mdata m) (unat (msize m))"
    using place unat_lt_64 [of "mdata m"] by (auto simp: no_wrap_guard) (simp add: no_wrap_def)
  have m: "meta_placed desc dlen m"
    by (rule meta_placedI [OF ok nw]) (use place in blast)
  have apart: "\<forall>k\<in>set seen. meta_apart k m"
    using new nw Cons(4) by (auto simp: meta_placed_def intro!: meta_apart_sym [OF meta_apartI])
  have small: "unat (msize m) \<le> 4096"
    using storage_ok_size [OF ok] by (simp add: word_le_unat)
  have "bytes \<le> 4096" using Cons(3) by (simp add: word_le_unat)
  hence "unat (round8 (msize m)) \<le> 4096 - unat bytes"
    using sz by (simp add: word_less_unat unat_minus_no_wrap not_less)
  moreover from this have b: "unat (bytes + round8 (msize m)) = unat bytes + unat (round8 (msize m))"
    using Cons(3) by (subst unat_plus_32) auto
  moreover have "unat (msize m) \<le> unat (round8 (msize m))"
    using small by (simp add: unat_round8)
  ultimately have le: "unat (bytes + round8 (msize m)) \<le> 4096"
    and ge: "unat bytes + unat (msize m) \<le> unat (bytes + round8 (msize m))"
    using Cons(3) by linarith+
  have all: "\<forall>k\<in>set (seen @ [m]). meta_placed desc dlen k" using Cons(4) m by auto
  show ?case using Cons(1) [OF loop le all] ge m apart by auto
qed


lemma layout_validateD:
  assumes "spa_meta_records_layout_validate A"
  shows "length (mrecs A) \<le> SPA_META_MAX_RECORDS" "sorted_wrt meta_apart (mrecs A)"
    "m \<in> set (mrecs A) \<Longrightarrow> meta_placed (maddr A) (of_nat (length (mrecs A)) * 16) m"
    "sum_list (map (\<lambda>m. unat (msize m)) (mrecs A)) \<le> 4096"
  using assms layout_loop_sound [of "maddr A" "of_nat (length (mrecs A)) * 16" "[]" "mrecs A" 0]
  by (auto simp: spa_meta_records_layout_validate_def Let_def split: if_splits)

lemma sorted_wrt_apart:
  assumes "sorted_wrt meta_apart ms" "m \<in> set ms" "k \<in> set ms" "m \<noteq> k"
  shows "meta_apart m k"
  using assms by (induction ms) (auto intro: meta_apart_sym)

lemma find_typed:
  assumes "sorted_wrt meta_apart ms"
  shows "spa_meta_records_find ms t = Some d \<longleftrightarrow> d \<in> set ms \<and> mtype d = t"
proof
  assume "spa_meta_records_find ms t = Some d"
  thus "d \<in> set ms \<and> mtype d = t"
    unfolding spa_meta_records_find_def using find_Some_set [of _ ms d] by blast
next
  assume d: "d \<in> set ms \<and> mtype d = t"
  then obtain k where "find (\<lambda>m. mtype m = t) ms = Some k"
    using find_None_iff [of "\<lambda>m. mtype m = t" ms] by (cases "find (\<lambda>m. mtype m = t) ms") auto
  moreover from find_Some_set [OF this] have "k \<in> set ms" "mtype k = t" by simp_all
  hence "k = d" using d sorted_wrt_apart [OF assms, of k d] by (auto simp: meta_apart_def)
  ultimately show "spa_meta_records_find ms t = Some d" by (simp add: spa_meta_records_find_def)
qed

section \<open>Copying\<close>

lemma init_loop_mem:
  assumes "\<forall>d\<in>set ds. meta_storage_ok d"
  shows "meta_init_loop mem ds =
    (True, \<lambda>x. if \<exists>d\<in>set ds. meta_fact d \<and> x \<in> meta_region d then 0 else mem x)"
  using assms
proof (induction ds arbitrary: mem)
  case Nil
  thus ?case by simp
next
  case (Cons d ds)
  have "spa_meta_record_init mem (Some d) =
      (True, \<lambda>x. if meta_fact d \<and> x \<in> meta_region d then 0 else mem x)"
    using Cons(2) by (auto simp: spa_meta_record_init_def memset0_def meta_region_def)
  thus ?case using Cons by (auto simp: fun_eq_iff)
qed

lemma copy_loop_other:
  assumes "\<And>s d. s \<in> set ss \<Longrightarrow> meta_fact s \<Longrightarrow> spa_meta_records_find dst (mtype s) = Some d \<Longrightarrow>
    x \<notin> meta_region d"
  shows "meta_copy_loop mem dst ss x = mem x"
  using assms
proof (induction ss arbitrary: mem)
  case (Cons s ss)
  have IH: "meta_copy_loop mem' dst ss x = mem' x" for mem'
    by (rule Cons(1)) (use Cons(2) in auto)
  show ?case using Cons(2) [of s] by (simp add: IH memcpy_def meta_region_def split: option.split)
qed simp

lemma copy_loop_copied:
  assumes "sorted_wrt meta_apart dst" "sorted_wrt meta_apart ss"
    and disj: "\<And>s d. s \<in> set ss \<Longrightarrow> meta_fact s \<Longrightarrow> d \<in> set dst \<Longrightarrow> meta_fact d \<Longrightarrow>
      meta_region s \<inter> meta_region d = {}"
    and "s \<in> set ss" "meta_fact s" and d: "spa_meta_records_find dst (mtype s) = Some d"
    and nw: "no_wrap (mdata d) (unat (msize d))" "no_wrap (mdata s) (unat (msize s))"
    and sz: "msize s = msize d" and i: "i < unat (msize d)"
  shows "meta_copy_loop mem dst ss (mdata d + of_nat i) = mem (mdata s + of_nat i)"
  using assms(2) disj assms(4)
proof (induction ss arbitrary: mem)
  case Nil
  thus ?case by simp
next
  case (Cons s0 ss)
  note fd = find_typed [OF assms(1)]
  have xd: "mdata d + of_nat i \<in> meta_region d"
    using nw i by (simp add: meta_region_def in_reg_load)
  have xs: "mdata s + of_nat i \<in> meta_region s"
    using nw i sz by (simp add: meta_region_def in_reg_load)
  have IH: "meta_copy_loop m dst ss (mdata d + of_nat i) = m (mdata s + of_nat i)"
    if "s \<in> set ss" for m
    by (rule Cons(1)) (use Cons(2,3) that in auto)
  show ?case
  proof (cases "s \<in> set ss")
    case True
    have "mdata s + of_nat i \<notin> meta_region d0"
      if "meta_fact s0" "spa_meta_records_find dst (mtype s0) = Some d0" for d0
      using Cons(3) [of s d0] True assms(5) that xs fd by auto
    thus ?thesis by (auto simp: IH [OF True] memcpy_def meta_region_def split: option.split)
  next
    case False
    hence s: "s = s0" using Cons(4) by simp
    have "meta_copy_loop m dst ss (mdata d + of_nat i) = m (mdata d + of_nat i)" for m
    proof (rule copy_loop_other)
      fix s' d' assume s': "s' \<in> set ss" "spa_meta_records_find dst (mtype s') = Some d'"
      hence ne: "mtype d' \<noteq> mtype d" using Cons(2) d fd by (auto simp: s meta_apart_def)
      have "meta_apart d' d"
        by (rule sorted_wrt_apart [OF assms(1)]) (use ne d s'(2) fd in auto)
      thus "mdata d + of_nat i \<notin> meta_region d'" using xd by (auto simp: meta_apart_def)
    qed
    moreover have "msize d \<noteq> 0" using i by auto
    ultimately show ?thesis using xd assms(5) d by (simp add: s memcpy_def meta_region_def)
  qed
qed

section \<open>Contents\<close>

lemma bytes_zero_iff: "spa_meta_bytes_zero m a n \<longleftrightarrow> (\<forall>i<n. m (a + of_nat i) = 0)"
proof -
  have "foldl (\<lambda>v i. v OR m (a + of_nat i)) v [0..<n] = 0 \<longleftrightarrow> v = 0 \<and> (\<forall>i<n. m (a + of_nat i) = 0)"
    for v
    by (induction n) (auto simp: or_eq_0_iff less_Suc_eq)
  thus ?thesis by (simp add: spa_meta_bytes_zero_def)
qed

definition payload_same :: "cmem \<Rightarrow> u64 \<Rightarrow> cmem \<Rightarrow> u64 \<Rightarrow> nat \<Rightarrow> bool" where
  "payload_same m p m' q n \<longleftrightarrow> (\<forall>i<n. m (p + of_nat i) = m' (q + of_nat i))"

lemma payload_same_shift:
  assumes "payload_same m p m' q N" "k + i < N"
  shows "m (p + of_nat k + of_nat i) = m' (q + of_nat k + of_nat i)"
proof -
  have "m (p + of_nat (k + i)) = m' (q + of_nat (k + i))"
    using assms unfolding payload_same_def by blast
  thus ?thesis by (simp add: add.assoc)
qed

lemma payload_same_load:
  "payload_same m p m' q N \<Longrightarrow> k + n \<le> N \<Longrightarrow> load m (p + of_nat k) n = load m' (q + of_nat k) n"
  by (simp add: load_def payload_same_shift)

lemma payload_same_zero:
  "payload_same m p m' q N \<Longrightarrow> k + n \<le> N \<Longrightarrow>
     spa_meta_bytes_zero m (p + of_nat k) n = spa_meta_bytes_zero m' (q + of_nat k) n"
  by (simp add: bytes_zero_iff payload_same_shift)

lemma storage_ok_record_size:
  assumes "meta_storage_ok m" "spa_meta_record_size (mtype m) \<noteq> 0"
  shows "msize m = spa_meta_record_size (mtype m)"
  using assms
  by (auto simp: meta_storage_ok_def spa_meta_record_layout_validate_def Let_def
      spa_meta_record_size_def word_le_unat split: if_splits)

lemma record_validate_cong:
  assumes ok: "meta_storage_ok d" "meta_storage_ok s" and ty: "mtype d = mtype s"
    and same: "payload_same m (mdata d) m' (mdata s) (unat (msize d))"
  shows "spa_meta_record_validate m (Some d) v = spa_meta_record_validate m' (Some s) v"
proof (cases "spa_meta_record_size (mtype d) = 0")
  case True
  thus ?thesis using ok ty by (simp add: spa_meta_record_validate_def)
next
  case False
  hence sz: "msize d = spa_meta_record_size (mtype s)" using storage_ok_record_size ok ty by metis
  have l: "n + k \<le> unat (msize d) \<Longrightarrow> load m (mdata d + of_nat n) k = load m' (mdata s + of_nat n) k"
    for n k using payload_same_load [OF same] .
  note l0 = l [of 0] and l4 = l [of 4 4] and l8 = l [of 8 8] and l16 = l [of 16 8]
  note z0 = payload_same_zero [OF same, of 0] and z8 = payload_same_zero [OF same, of 8 16]
  consider "mtype s = SPA_META_AcquisitionIdentity" | "mtype s = SPA_META_ExposureTiming"
    | "mtype s = SPA_META_ReferenceTimestamp" | "mtype s = SPA_META_OpticalChopping"
    | "mtype s = SPA_META_ElectricalTrigger"
    | "mtype s \<noteq> SPA_META_AcquisitionIdentity \<and> mtype s \<noteq> SPA_META_ExposureTiming \<and>
       mtype s \<noteq> SPA_META_ReferenceTimestamp \<and> mtype s \<noteq> SPA_META_OpticalChopping \<and>
       mtype s \<noteq> SPA_META_ElectricalTrigger" by blast
  thus ?thesis
    by cases (use ok ty sz l0 l4 l8 l16 z0 z8 in
      \<open>simp_all add: spa_meta_record_validate_def spa_meta_record_size_def load32_def load64_def Let_def\<close>)
qed

lemma load32_zero [simp]: "load32 (\<lambda>_. 0) a = 0"
  by (simp add: load32_def load_def le_word_def upt_rec)

lemma record_validate_zero:
  assumes "meta_storage_ok d" "\<And>i. i < unat (msize d) \<Longrightarrow> m (mdata d + of_nat i) = 0"
  shows "spa_meta_record_validate m (Some d) False"
proof -
  have "payload_same m (mdata d) (\<lambda>_. 0) (mdata d) (unat (msize d))"
    using assms(2) by (simp add: payload_same_def)
  from record_validate_cong [OF assms(1,1) refl this]
  have "spa_meta_record_validate m (Some d) False = spa_meta_record_validate (\<lambda>_. 0) (Some d) False" .
  also have "\<dots>"
    using assms(1) by (simp add: spa_meta_record_validate_def bytes_zero_iff)
  finally show ?thesis .
qed

text \<open>The payload of a record, and what a copy leaves in memory.\<close>

definition meta_payload :: "cmem \<Rightarrow> spa_meta \<Rightarrow> u8 list" where
  "meta_payload mem m = load mem (mdata m) (unat (msize m))"

lemma meta_payload_same:
  "msize d = msize s \<Longrightarrow> payload_same m (mdata d) m' (mdata s) (unat (msize d)) \<longleftrightarrow>
     meta_payload m d = meta_payload m' s"
  by (auto simp: meta_payload_def payload_same_def load_def)

lemma copy_preconditions:
  assumes "spa_meta_records_copy mem dst src = (True, mem')" "maddr dst \<noteq> maddr src"
  shows "spa_meta_records_layout_validate dst" "spa_meta_records_layout_validate src"
    "s \<in> set (mrecs src) \<Longrightarrow> spa_meta_record_validate mem (Some s) False"
    "s \<in> set (mrecs src) \<Longrightarrow> meta_fact s \<Longrightarrow>
       \<exists>d. spa_meta_records_find (mrecs dst) (mtype s) = Some d \<and> msize d = msize s"
    "d \<in> set (mrecs dst) \<Longrightarrow>
       \<not> meta_overlaps_descriptors (maddr src) (of_nat (length (mrecs src)) * 16) d"
    "s \<in> set (mrecs src) \<Longrightarrow> d \<in> set (mrecs dst) \<Longrightarrow> \<not> meta_payload_conflict s d"
  using assms
  by (auto simp: spa_meta_records_copy_def spa_meta_records_validate_def list_ex_iff
      meta_copy_target_ok_def split: if_splits option.splits)

lemma no_conflict_disjoint:
  assumes "\<not> meta_payload_conflict s d" "meta_fact s \<or> meta_fact d"
    "no_wrap (mdata s) (unat (msize s))" "no_wrap (mdata d) (unat (msize d))"
  shows "meta_region s \<inter> meta_region d = {}"
proof (cases "msize s = 0 \<or> msize d = 0")
  case True
  thus ?thesis by (auto simp: meta_region_def)
next
  case False
  hence "\<not> (mdata s < mdata d + ucast (msize d) \<and> mdata d < mdata s + ucast (msize s))"
    using assms(1,2) by (auto simp: meta_payload_conflict_def)
  from no_overlap_disjoint [OF _ _ this] show ?thesis
    using assms(3,4) by (auto simp: meta_region_def)
qed

definition meta_written :: "meta_array \<Rightarrow> u64 set" where
  "meta_written dst = (\<Union>d\<in>{d \<in> set (mrecs dst). meta_fact d}. meta_region d)"

lemma storage_ok_all:
  assumes "spa_meta_records_layout_validate A" "m \<in> set (mrecs A)"
  shows "meta_storage_ok m" "no_wrap (mdata m) (unat (msize m))"
  using layout_validateD(3) [OF assms] by (auto simp: meta_placed_def)

lemma copy_memory:
  assumes "spa_meta_records_copy mem dst src = (True, mem')" "maddr dst \<noteq> maddr src"
  shows "mem' = meta_copy_loop (\<lambda>x. if x \<in> meta_written dst then 0 else mem x) (mrecs dst) (mrecs src)"
proof -
  have "meta_init_loop mem (mrecs dst) =
      (True, \<lambda>x. if \<exists>d\<in>set (mrecs dst). meta_fact d \<and> x \<in> meta_region d then 0 else mem x)"
    by (intro init_loop_mem ballI storage_ok_all [OF copy_preconditions(1) [OF assms]])
  also have "(\<lambda>x. if \<exists>d\<in>set (mrecs dst). meta_fact d \<and> x \<in> meta_region d then 0 else mem x) =
      (\<lambda>x. if x \<in> meta_written dst then 0 else mem x)"
    by (auto simp: meta_written_def fun_eq_iff)
  finally show ?thesis using assms by (simp add: spa_meta_records_copy_def split: if_splits)
qed

lemma copy_fact:
  assumes "spa_meta_records_copy mem dst src = (True, mem')" "maddr dst \<noteq> maddr src"
    "s \<in> set (mrecs src)" "meta_fact s" "d \<in> set (mrecs dst)" "mtype d = mtype s"
  shows "msize d = msize s \<and> meta_payload mem' d = meta_payload mem s"
proof -
  note pre = copy_preconditions [OF assms(1,2)]
  note sd = layout_validateD(2) [OF pre(1)] and nw = storage_ok_all(2) [OF pre(1)]
    storage_ok_all(2) [OF pre(2)]
  have disj: "meta_region k \<inter> meta_region d = {}"
    if "k \<in> set (mrecs src)" "d \<in> set (mrecs dst)" "meta_fact k \<or> meta_fact d" for k d
    using no_conflict_disjoint [OF pre(6) [OF that(1,2)] that(3)] nw that by blast
  have f: "spa_meta_records_find (mrecs dst) (mtype s) = Some d"
    using find_typed [OF sd] assms(5,6) by simp
  hence sz: "msize s = msize d" using pre(4) [OF assms(3,4)] by simp
  have out: "mdata s + of_nat i \<notin> meta_written dst" if "i < unat (msize d)" for i
  proof -
    have "mdata s + of_nat i \<in> meta_region s"
      using in_reg_load [OF _ nw(2) [OF assms(3)]] that sz by (simp add: meta_region_def)
    thus ?thesis using disj [OF assms(3)] assms(4) by (auto simp: meta_written_def)
  qed
  have "mem' (mdata d + of_nat i) = mem (mdata s + of_nat i)" if "i < unat (msize d)" for i
    unfolding copy_memory [OF assms(1,2)]
    by (subst copy_loop_copied [OF sd layout_validateD(2) [OF pre(2)] _ assms(3,4) f nw(1) [OF assms(5)]
        nw(2) [OF assms(3)] sz that]) (use disj out [OF that] in auto)
  thus ?thesis using sz by (simp add: meta_payload_def load_def)
qed

lemma copy_absent:
  assumes "spa_meta_records_copy mem dst src = (True, mem')" "maddr dst \<noteq> maddr src"
    "d \<in> set (mrecs dst)" "meta_fact d" "mtype d \<notin> mtype ` set (mrecs src)" "i < unat (msize d)"
  shows "mem' (mdata d + of_nat i) = 0"
proof -
  note pre = copy_preconditions [OF assms(1,2)]
  note sd = layout_validateD(2) [OF pre(1)]
  have x: "mdata d + of_nat i \<in> meta_region d"
    using in_reg_load [OF assms(6) storage_ok_all(2) [OF pre(1) assms(3)]] by (simp add: meta_region_def)
  have "mem' (mdata d + of_nat i) = (if mdata d + of_nat i \<in> meta_written dst then 0
      else mem (mdata d + of_nat i))"
    unfolding copy_memory [OF assms(1,2)]
  proof (rule copy_loop_other)
    fix s e assume s: "s \<in> set (mrecs src)" "spa_meta_records_find (mrecs dst) (mtype s) = Some e"
    hence e: "e \<in> set (mrecs dst)" "mtype e = mtype s" using find_typed [OF sd] by simp_all
    hence "meta_apart e d"
      by (intro sorted_wrt_apart [OF sd]) (use assms(3,5) s in auto)
    thus "mdata d + of_nat i \<notin> meta_region e" using x by (auto simp: meta_apart_def)
  qed
  thus ?thesis using x assms(3,4) by (auto simp: meta_written_def)
qed

lemma copy_frame:
  assumes "spa_meta_records_copy mem dst src = (True, mem')" "maddr dst \<noteq> maddr src"
    "x \<notin> meta_written dst"
  shows "mem' x = mem x"
proof -
  note pre = copy_preconditions [OF assms(1,2)]
  have "mem' x = (if x \<in> meta_written dst then 0 else mem x)"
    unfolding copy_memory [OF assms(1,2)]
  proof (rule copy_loop_other)
    fix s d assume s: "s \<in> set (mrecs src)" "meta_fact s"
      "spa_meta_records_find (mrecs dst) (mtype s) = Some d"
    hence "d \<in> set (mrecs dst)" "mtype d = mtype s"
      using find_typed [OF layout_validateD(2) [OF pre(1)]] by simp_all
    thus "x \<notin> meta_region d" using assms(3) s(2) by (auto simp: meta_written_def)
  qed
  thus ?thesis using assms(3) by simp
qed

lemma copy_absent_payload:
  assumes "spa_meta_records_copy mem dst src = (True, mem')" "maddr dst \<noteq> maddr src"
    "d \<in> set (mrecs dst)" "meta_fact d" "mtype d \<notin> mtype ` set (mrecs src)"
  shows "meta_payload mem' d = replicate (unat (msize d)) 0"
  using copy_absent [OF assms] by (auto intro!: nth_equalityI simp: meta_payload_def)

section \<open>Identities and requirements\<close>

abbreviation identity_at :: "u64 \<Rightarrow> spa_meta" where
  "identity_at a \<equiv> \<lparr>mtype = SPA_META_AcquisitionIdentity, msize = 40, mdata = a\<rparr>"

lemma le_word_inject32: "length a = 4 \<Longrightarrow> length b = 4 \<Longrightarrow> le_word a = (le_word b :: u32) \<longleftrightarrow> a = b"
proof -
  assume l: "length a = 4" "length b = 4"
  have "le_nat a < 2 ^ 32" "le_nat b < 2 ^ 32" using le_nat_bound [of a] le_nat_bound [of b] l by simp_all
  hence "le_word a = (le_word b :: u32) \<longleftrightarrow> le_nat a = le_nat b"
    by (auto simp: le_word_def word_eq_unat unat_of_nat_32)
  thus ?thesis using l le_nat_inject [of a b] by auto
qed

lemma le_word_inject64: "length a = 8 \<Longrightarrow> length b = 8 \<Longrightarrow> le_word a = (le_word b :: u64) \<longleftrightarrow> a = b"
proof -
  assume l: "length a = 8" "length b = 8"
  have "le_nat a < 2 ^ 64" "le_nat b < 2 ^ 64" using le_nat_bound [of a] le_nat_bound [of b] l by simp_all
  hence "le_word a = (le_word b :: u64) \<longleftrightarrow> le_nat a = le_nat b"
    by (auto simp: le_word_def word_eq_unat unat_of_nat_64)
  thus ?thesis using l le_nat_inject [of a b] by auto
qed

lemma identity_payload_eq:
  "load mem a 40 = load mem b 40 \<longleftrightarrow> load32 mem a = load32 mem b \<and> load32 mem (a + 4) = load32 mem (b + 4) \<and>
     load mem (a + 8) 16 = load mem (b + 8) 16 \<and> load64 mem (a + 24) = load64 mem (b + 24) \<and>
     load64 mem (a + 32) = load64 mem (b + 32)" for mem :: cmem
proof -
  have "load mem x 40 = load mem x 4 @ load mem (x + 4) 4 @ load mem (x + 8) 16 @ load mem (x + 24) 8 @
      load mem (x + 32) 8" for x
    using load_append [of mem x 4 36] load_append [of mem "x + 4" 4 32]
      load_append [of mem "x + 8" 16 16] load_append [of mem "x + 24" 8 8]
    by (simp add: add.assoc)
  thus ?thesis by (simp add: load32_def load64_def le_word_inject32 le_word_inject64)
qed

lemma identity_validate:
  assumes "spa_aligned8 a" "a \<noteq> 0"
  shows "spa_meta_record_validate mem (Some (identity_at a)) True \<longleftrightarrow>
    load32 mem a = SPA_META_RECORD_VALID \<and> load32 mem (a + 4) = 0 \<and> \<not> spa_meta_bytes_zero mem (a + 8) 16"
  using assms
  by (auto simp: spa_meta_record_validate_def meta_storage_ok_def spa_meta_record_layout_validate_def
      spa_meta_record_size_def Let_def word_le_unat word_less_unat)

lemma bytes_zero_load_cong:
  "load mem a n = load mem b n \<Longrightarrow> spa_meta_bytes_zero mem a n = spa_meta_bytes_zero mem b n"
  by (simp add: bytes_zero_iff load_def)

lemma requirements_loop_iff:
  "meta_requirements_loop mem metas seen rs \<longleftrightarrow> distinct (map rtype rs) \<and> rtype ` set rs \<inter> rtype ` set seen = {} \<and>
    (\<forall>r\<in>set rs. rreserved r = 0 \<and> rflags r AND NOT SPA_META_REQUIREMENT_REQUIRED = 0 \<and>
       spa_meta_record_layout_validate (rtype r) (rsize r) SPA_META_MAX_BYTES \<and>
       (case meta_last_of_type metas (rtype r) None of
          None \<Rightarrow> rflags r AND SPA_META_REQUIREMENT_REQUIRED = 0
        | Some m \<Rightarrow> msize m = rsize r \<and> (rflags r AND SPA_META_REQUIREMENT_REQUIRED \<noteq> 0 \<and>
            spa_meta_record_size (rtype r) \<noteq> 0 \<longrightarrow> spa_meta_record_validate mem (Some m) True)))"
proof (induction rs arbitrary: seen)
  case (Cons r rs)
  have "list_ex (\<lambda>q. rtype q = rtype r) seen \<longleftrightarrow> rtype r \<in> rtype ` set seen" by (induction seen) auto
  thus ?case by (cases "meta_last_of_type metas (rtype r) None") (auto simp: Cons)
qed simp

lemma last_of_type_mem:
  "meta_last_of_type ms t acc = Some m \<Longrightarrow> m \<in> set ms \<and> mtype m = t \<or> acc = Some m"
  by (induction ms arbitrary: acc) (fastforce split: if_splits)+

lemma last_of_type_none: "meta_last_of_type ms t acc = None \<longleftrightarrow> acc = None \<and> (\<forall>m\<in>set ms. mtype m \<noteq> t)"
  by (induction ms arbitrary: acc) auto

text \<open>With one record per type the last record of a type is the only one.\<close>

lemma last_of_type_iff:
  assumes "sorted_wrt meta_apart ms"
  shows "meta_last_of_type ms t None = Some m \<longleftrightarrow> m \<in> set ms \<and> mtype m = t"
proof
  assume m: "m \<in> set ms \<and> mtype m = t"
  then obtain k where k: "meta_last_of_type ms t None = Some k"
    using last_of_type_none [of ms t None] by (cases "meta_last_of_type ms t None") auto
  hence "k \<in> set ms" "mtype k = t" using last_of_type_mem by fastforce+
  thus "meta_last_of_type ms t None = Some m"
    using k m sorted_wrt_apart [OF assms, of m k] by (auto simp: meta_apart_def)
qed (use last_of_type_mem in fastforce)

lemma case_last_of_type:
  assumes "sorted_wrt meta_apart ms"
  shows "(case meta_last_of_type ms t None of None \<Rightarrow> fl = (0::u32) | Some m \<Rightarrow> P m) \<longleftrightarrow>
    (fl \<noteq> 0 \<longrightarrow> (\<exists>!m. m \<in> set ms \<and> mtype m = t)) \<and> (\<forall>m\<in>set ms. mtype m = t \<longrightarrow> P m)"
proof (cases "meta_last_of_type ms t None")
  case None
  thus ?thesis using last_of_type_none [of ms t None] by auto
next
  case (Some k)
  hence "\<forall>m. m \<in> set ms \<and> mtype m = t \<longleftrightarrow> m = k" by (simp flip: last_of_type_iff [OF assms]) auto
  thus ?thesis using Some by auto
qed

section \<open>Properties\<close>

definition demo_mem :: cmem where
  "demo_mem x = (if x = 0x4000 then 1 else if x = 0x4008 then 5 else if x = 0x4018 then 7
     else if x = 0x2000 then 9 else if x = 0x2030 then 3 else if x = 0x2048 then 1 else 0)"

definition demo_dst :: meta_array where
  "demo_dst = \<lparr>maddr = 0x1000,
     mrecs = [\<lparr>mtype = SPA_META_AcquisitionIdentity, msize = 40, mdata = 0x2000\<rparr>,
       \<lparr>mtype = SPA_META_ExposureTiming, msize = 24, mdata = 0x2028\<rparr>,
       \<lparr>mtype = SPA_META_Busy, msize = 8, mdata = 0x2048\<rparr>]\<rparr>"

definition demo_src :: meta_array where
  "demo_src = \<lparr>maddr = 0x3000,
     mrecs = [\<lparr>mtype = SPA_META_AcquisitionIdentity, msize = 40, mdata = 0x4000\<rparr>]\<rparr>"

lemma demo_copy: "fst (spa_meta_records_copy demo_mem demo_dst demo_src)"
  by code_simp

lemma demo_copy_eq:
  "spa_meta_records_copy demo_mem demo_dst demo_src =
     (True, snd (spa_meta_records_copy demo_mem demo_dst demo_src))"
  using demo_copy by (metis prod.collapse)

text \<open>
  C4: a successful copy between two metadata arrays carries every fact record of the source,
  byte for byte, into the destination record of the same type and size; fact records the source
  does not have are cleared; no other byte of memory changes (in particular the source records
  and the transport-owned records of the destination, which are not in meta_written, keep theirs).
\<close>

theorem meta_copy_transfers:
  assumes "spa_meta_records_copy mem dst src = (True, mem')" "maddr dst \<noteq> maddr src"
  shows "(\<forall>s\<in>set (mrecs src). meta_fact s \<longrightarrow>
      (\<exists>d\<in>set (mrecs dst). mtype d = mtype s \<and> msize d = msize s \<and>
         meta_payload mem' d = meta_payload mem s)) \<and>
    (\<forall>d\<in>set (mrecs dst). meta_fact d \<and> mtype d \<notin> mtype ` set (mrecs src) \<longrightarrow>
      meta_payload mem' d = replicate (unat (msize d)) 0) \<and>
    (\<forall>x. x \<notin> meta_written dst \<longrightarrow> mem' x = mem x)"
proof (intro conjI ballI impI allI)
  fix s assume s: "s \<in> set (mrecs src)" "meta_fact s"
  note pre = copy_preconditions [OF assms]
  from pre(4) [OF s] find_typed [OF layout_validateD(2) [OF pre(1)]]
  obtain d where "d \<in> set (mrecs dst)" "mtype d = mtype s" by blast
  thus "\<exists>d\<in>set (mrecs dst). mtype d = mtype s \<and> msize d = msize s \<and>
      meta_payload mem' d = meta_payload mem s"
    using copy_fact [OF assms s] by blast
qed (use copy_absent_payload [OF assms] copy_frame [OF assms] in auto)

theorem meta_copy_transfers_witness:
  "meta_payload (snd (spa_meta_records_copy demo_mem demo_dst demo_src))
     \<lparr>mtype = SPA_META_ExposureTiming, msize = 24, mdata = 0x2028\<rparr> = replicate 24 0"
proof -
  have d: "\<lparr>mtype = SPA_META_ExposureTiming, msize = 24, mdata = 0x2028\<rparr> \<in> set (mrecs demo_dst)"
    by (simp add: demo_dst_def)
  have "maddr demo_dst \<noteq> maddr demo_src" by (simp add: demo_dst_def demo_src_def)
  from bspec [OF conjunct1 [OF conjunct2 [OF meta_copy_transfers [OF demo_copy_eq this]]] d]
  show ?thesis
    by (simp add: demo_src_def spa_meta_type_is_transport_owned_def word_le_unat)
qed

text \<open>
  C5: after a successful copy the destination array validates record by record, whatever stale
  bytes it held before, and the source array still does.
\<close>

theorem meta_copy_validates:
  assumes "spa_meta_records_copy mem dst src = (True, mem')" "maddr dst \<noteq> maddr src"
  shows "spa_meta_records_validate mem' dst 0 [] \<and> spa_meta_records_validate mem' src 0 []"
proof -
  note pre = copy_preconditions [OF assms]
  have "spa_meta_record_validate mem' (Some d) False" if d: "d \<in> set (mrecs dst)" for d
  proof -
    note ok = storage_ok_all(1) [OF pre(1) d]
    consider "\<not> meta_fact d" | s where "meta_fact d" "s \<in> set (mrecs src)" "mtype s = mtype d"
      | "meta_fact d" "mtype d \<notin> mtype ` set (mrecs src)" by (metis imageE)
    thus ?thesis
    proof cases
      case 1
      hence "spa_meta_record_size (mtype d) = 0"
        by (auto simp: spa_meta_type_is_transport_owned_def spa_meta_record_size_def word_le_unat)
      thus ?thesis using ok by (simp add: spa_meta_record_validate_def)
    next
      case (2 s)
      hence c: "msize d = msize s \<and> meta_payload mem' d = meta_payload mem s"
        using copy_fact [OF assms] d by simp
      hence "payload_same mem' (mdata d) mem (mdata s) (unat (msize d))"
        using meta_payload_same by blast
      from record_validate_cong [OF ok storage_ok_all(1) [OF pre(2)] _ this]
      show ?thesis using 2 pre(3) by simp
    next
      case 3
      thus ?thesis using record_validate_zero [OF ok] copy_absent [OF assms d] by blast
    qed
  qed
  moreover have "spa_meta_record_validate mem' (Some s) False" if s: "s \<in> set (mrecs src)" for s
  proof -
    note ok = storage_ok_all [OF pre(2) s]
    have "mdata s + of_nat i \<notin> meta_written dst" if i: "i < unat (msize s)" for i
      using in_reg_load [OF i ok(2)] no_conflict_disjoint [OF pre(6) [OF s]] ok(2)
        storage_ok_all(2) [OF pre(1)] by (fastforce simp: meta_written_def meta_region_def)
    hence "payload_same mem' (mdata s) mem (mdata s) (unat (msize s))"
      using copy_frame [OF assms] by (simp add: payload_same_def)
    thus ?thesis using record_validate_cong [OF ok(1) ok(1) refl] pre(3) [OF s] by simp
  qed
  ultimately show ?thesis using pre(1,2)
    by (auto simp: spa_meta_records_validate_def list_ex_iff spa_meta_records_layout_validate_def
        Let_def split: if_splits)
qed

theorem meta_copy_validates_witness:
  "spa_meta_records_validate (snd (spa_meta_records_copy demo_mem demo_dst demo_src)) demo_dst 0 []"
proof -
  have "maddr demo_dst \<noteq> maddr demo_src" by (simp add: demo_dst_def demo_src_def)
  from meta_copy_validates [OF demo_copy_eq this] show ?thesis by blast
qed

text \<open>
  C6: a refused copy writes nothing: all checks run before the first write, and the
  initialisation of the destination records cannot fail after them.
\<close>

theorem meta_copy_refused_no_write:
  assumes "spa_meta_records_copy mem dst src = (False, mem')"
  shows "mem' = mem"
proof -
  have "fst (meta_init_loop mem (mrecs dst))" if "spa_meta_records_layout_validate dst"
    using init_loop_mem [of "mrecs dst" mem] storage_ok_all(1) [OF that] by simp
  thus ?thesis using assms
    by (auto simp: spa_meta_records_copy_def split: if_splits prod.splits bool.splits)
qed

theorem meta_copy_refused_no_write_witness:
  "snd (spa_meta_records_copy demo_mem demo_src demo_dst) = demo_mem"
proof -
  have "\<not> fst (spa_meta_records_copy demo_mem demo_src demo_dst)" by code_simp
  hence "spa_meta_records_copy demo_mem demo_src demo_dst =
      (False, snd (spa_meta_records_copy demo_mem demo_src demo_dst))" by (metis prod.collapse)
  from meta_copy_refused_no_write [OF this] show ?thesis .
qed

text \<open>
  C7: an accepted layout has at most 64 records and at most 4096 payload bytes, one record per
  type, and its payloads are 8-byte aligned storage that does not wrap around the address space,
  pairwise disjoint and disjoint from the descriptor array itself.
\<close>

theorem meta_layout_sound:
  assumes "spa_meta_records_layout_validate A"
  shows "length (mrecs A) \<le> SPA_META_MAX_RECORDS \<and>
    sum_list (map (\<lambda>m. unat (msize m)) (mrecs A)) \<le> unat SPA_META_MAX_BYTES \<and>
    distinct (map mtype (mrecs A)) \<and>
    (\<forall>i j. i < j \<and> j < length (mrecs A) \<longrightarrow> meta_region (mrecs A ! i) \<inter> meta_region (mrecs A ! j) = {}) \<and>
    (\<forall>m\<in>set (mrecs A). msize m \<noteq> 0 \<longrightarrow> mdata m \<noteq> 0 \<and> unat (mdata m) mod 8 = 0 \<and>
       unat (mdata m) + unat (msize m) < 2 ^ 64 \<and>
       meta_region m \<inter> {x. in_reg (maddr A) (16 * length (mrecs A)) x} = {})"
proof -
  note D = layout_validateD [OF assms]
  have len: "unat (of_nat (length (mrecs A)) * 16 :: u64) = 16 * length (mrecs A)"
    using D(1) by (simp add: unat_word_ariths(2) unat_of_nat_64)
  have types: "distinct (map mtype (mrecs A))"
    using D(2) by (simp add: distinct_map inj_on_def distinct_conv_nth sorted_wrt_iff_nth_less
      meta_apart_def) (metis in_set_conv_nth linorder_neqE_nat)
  have "mdata m \<noteq> 0 \<and> unat (mdata m) mod 8 = 0 \<and> unat (mdata m) + unat (msize m) < 2 ^ 64 \<and>
      meta_region m \<inter> {x. in_reg (maddr A) (16 * length (mrecs A)) x} = {}"
    if "m \<in> set (mrecs A)" "msize m \<noteq> 0" for m
  proof -
    have "meta_placed (maddr A) (of_nat (length (mrecs A)) * 16) m" by (rule D(3) [OF that(1)])
    hence "meta_storage_ok m" "no_wrap (mdata m) (unat (msize m))"
      and off: "\<forall>x. in_reg (maddr A) (16 * length (mrecs A)) x \<longrightarrow> x \<notin> meta_region m"
      using that(2) len by (simp_all add: meta_placed_def)
    moreover have "unat (mdata m) mod 8 = 0" if "spa_aligned8 (mdata m)"
      using that unat_and_7 [of "mdata m"] by (simp add: spa_aligned8_def)
    ultimately show ?thesis using that(2) by (auto simp: meta_storage_ok_def no_wrap_def)
  qed
  thus ?thesis using D(1,2,4) types by (auto simp: sorted_wrt_iff_nth_less meta_apart_def)
qed

theorem meta_layout_sound_witness:
  "meta_region (mrecs demo_dst ! 0) \<inter> meta_region (mrecs demo_dst ! 1) = {}"
proof -
  have "spa_meta_records_layout_validate demo_dst" by code_simp
  moreover have "(0::nat) < 1 \<and> 1 < length (mrecs demo_dst)" by (simp add: demo_dst_def)
  ultimately show ?thesis using meta_layout_sound [of demo_dst] by blast
qed

text \<open>
  C8: two acquisition identities at aligned addresses are reported equal exactly when both are
  valid identity records and all their 40 bytes agree; so equality is symmetric and transitive,
  and an unavailable identity equals nothing, not even itself.
\<close>

theorem acquisition_identity_equal_iff:
  assumes "spa_aligned8 a" "spa_aligned8 b"
  shows "spa_acquisition_identity_equal mem a b \<longleftrightarrow> a \<noteq> 0 \<and> b \<noteq> 0 \<and>
    spa_meta_record_validate mem (Some (identity_at a)) True \<and>
    spa_meta_record_validate mem (Some (identity_at b)) True \<and>
    meta_payload mem (identity_at a) = meta_payload mem (identity_at b)"
proof (cases "a \<noteq> 0 \<and> b \<noteq> 0")
  case True
  thus ?thesis
    using bytes_zero_load_cong [of mem "a + 8" 16 "b + 8"]
    by (auto simp: spa_acquisition_identity_equal_def identity_validate assms identity_payload_eq
        meta_payload_def)
qed (auto simp: spa_acquisition_identity_equal_def)

theorem acquisition_identity_equal_iff_witness:
  "spa_acquisition_identity_equal demo_mem 0x4000 0x4000 \<and>
   \<not> spa_acquisition_identity_equal demo_mem 0x4000 0x2000"
proof -
  have al: "spa_aligned8 0x4000" "spa_aligned8 0x2000" by (simp_all add: spa_aligned8_def)
  have "spa_meta_record_validate demo_mem (Some (identity_at 0x4000)) True"
    "\<not> spa_meta_record_validate demo_mem (Some (identity_at 0x2000)) True" by code_simp+
  thus ?thesis using acquisition_identity_equal_iff [OF al(1) al(1), of demo_mem]
      acquisition_identity_equal_iff [OF al, of demo_mem] by simp
qed

text \<open>
  C9: exactly which arrays are accepted against a list of requirements. The layout and every record
  must be valid, the requirements a readable array of at most 64 entries with distinct types, no
  unknown flag and a possible size for their type; a type marked as required must have exactly one
  record; every record of a listed type, required or not, must have the size asked for; and a
  required record of a type the header defines must hold available data (for other types the
  contents are not looked at).
\<close>

theorem meta_requirements_met:
  "spa_meta_records_validate mem A raddr rs \<longleftrightarrow>
    spa_meta_records_layout_validate A \<and> length rs \<le> SPA_META_MAX_RECORDS \<and>
    (rs \<noteq> [] \<longrightarrow> raddr \<noteq> 0 \<and> raddr AND 3 = 0) \<and>
    (\<forall>m\<in>set (mrecs A). spa_meta_record_validate mem (Some m) False) \<and>
    distinct (map rtype rs) \<and>
    (\<forall>r\<in>set rs. rreserved r = 0 \<and> rflags r AND NOT SPA_META_REQUIREMENT_REQUIRED = 0 \<and>
       spa_meta_record_layout_validate (rtype r) (rsize r) SPA_META_MAX_BYTES \<and>
       (rflags r AND SPA_META_REQUIREMENT_REQUIRED \<noteq> 0 \<longrightarrow> (\<exists>!m. m \<in> set (mrecs A) \<and> mtype m = rtype r)) \<and>
       (\<forall>m\<in>set (mrecs A). mtype m = rtype r \<longrightarrow> msize m = rsize r \<and>
          (rflags r AND SPA_META_REQUIREMENT_REQUIRED \<noteq> 0 \<and> spa_meta_record_size (rtype r) \<noteq> 0 \<longrightarrow>
             spa_meta_record_validate mem (Some m) True)))"
proof (cases "spa_meta_records_layout_validate A")
  case True
  hence "mrecs A = [] \<or> maddr A \<noteq> 0"
    by (auto simp: spa_meta_records_layout_validate_def Let_def split: if_splits)
  hence "spa_meta_records_validate mem A raddr rs \<longleftrightarrow> length rs \<le> SPA_META_MAX_RECORDS \<and>
      (rs \<noteq> [] \<longrightarrow> raddr \<noteq> 0 \<and> raddr AND 3 = 0) \<and>
      (\<forall>m\<in>set (mrecs A). spa_meta_record_validate mem (Some m) False) \<and> meta_requirements_loop mem (mrecs A) [] rs"
    using True by (auto simp: spa_meta_records_validate_def list_ex_iff)
  thus ?thesis
    using True by (simp add: requirements_loop_iff case_last_of_type [OF layout_validateD(2) [OF True]])
qed (simp add: spa_meta_records_validate_def)

theorem meta_requirements_met_witness:
  "\<exists>!m. m \<in> set (mrecs demo_src) \<and> mtype m = SPA_META_AcquisitionIdentity \<and> msize m = 40 \<and>
     spa_meta_record_validate demo_mem (Some m) True"
proof -
  let ?r = "\<lparr>rtype = SPA_META_AcquisitionIdentity, rsize = 40, rflags = 1, rreserved = 0\<rparr>"
  have v: "spa_meta_records_validate demo_mem demo_src 0x100 [?r]" by code_simp
  have "\<exists>!m. m \<in> set (mrecs demo_src) \<and> mtype m = SPA_META_AcquisitionIdentity"
    "\<forall>m\<in>set (mrecs demo_src). mtype m = SPA_META_AcquisitionIdentity \<longrightarrow> msize m = 40 \<and>
       spa_meta_record_validate demo_mem (Some m) True"
    using v unfolding meta_requirements_met by (simp_all add: spa_meta_record_size_def)
  thus ?thesis by metis
qed

end
