(* ===== verification/PW_Stream.thy ===== *)
theory PW_Stream
  imports PW_Ringbuffer "HOL-Library.Multiset"
begin

text \<open>
  The buffer side of \<^verbatim>\<open>src/pipewire/stream.c\<close>: the two rings of buffer ids, the loan of buffers to
  the application (\<^verbatim>\<open>pw_stream_dequeue_buffer\<close>, \<^verbatim>\<open>pw_stream_queue_buffer\<close>,
  \<^verbatim>\<open>pw_stream_return_buffer\<close>), the process functions that exchange buffers with the port's
  \<^verbatim>\<open>spa_io_buffers\<close> area, flush, drain and (re)configuration of the buffers.

  A \<open>struct buffer *\<close> is its index in the stream's array, \<^verbatim>\<open>NULL\<close> is \<open>None\<close>; the count behind
  \<^verbatim>\<open>b->busy\<close> is part of the buffer. Each function is one atomic step. The process callback of the
  application is a parameter \<open>process\<close>; that \<^verbatim>\<open>trigger_done\<close> is called is counted in
  \<open>trigger_dones\<close>, and a \<^verbatim>\<open>do_trigger_deprecated\<close> put on the data loop in \<open>triggers\<close>.
  \<open>EFAULT\<close> stands for the dereference of a null \<^verbatim>\<open>impl->io\<close>, which the C code does not survive.
  Mapping memory (\<^verbatim>\<open>mmap\<close>) is a parameter \<open>map_data\<close> that gives the result code.

  The rings refine queues of ids (\<open>qlist\<close>, locale \<open>id_deque\<close>). \<open>out_step\<close> is an output stream
  together with its application and its peers; its invariant is that every buffer has exactly
  one owner.
\<close>

section \<open>State\<close>

abbreviation (input) MAX_BUFFERS :: nat where "MAX_BUFFERS \<equiv> 64"
abbreviation (input) MASK_BUFFERS :: u32 where "MASK_BUFFERS \<equiv> 63"
abbreviation (input) SPA_ID_INVALID :: u32 where "SPA_ID_INVALID \<equiv> 0xFFFFFFFF"
abbreviation (input) BUFFER_FLAG_MAPPED :: u32 where "BUFFER_FLAG_MAPPED \<equiv> 1"
abbreviation (input) BUFFER_FLAG_DEQUEUED :: u32 where "BUFFER_FLAG_DEQUEUED \<equiv> 2"
abbreviation (input) BUFFER_FLAG_ADDED :: u32 where "BUFFER_FLAG_ADDED \<equiv> 4"
abbreviation (input) SPA_STATUS_OK :: int where "SPA_STATUS_OK \<equiv> 0"
abbreviation (input) SPA_STATUS_NEED_DATA :: int where "SPA_STATUS_NEED_DATA \<equiv> 1"
abbreviation (input) SPA_STATUS_HAVE_DATA :: int where "SPA_STATUS_HAVE_DATA \<equiv> 2"
abbreviation (input) SPA_STATUS_DRAINED :: int where "SPA_STATUS_DRAINED \<equiv> 8"
abbreviation (input) SPA_DATA_MemPtr :: u32 where "SPA_DATA_MemPtr \<equiv> 1"
abbreviation (input) SPA_DATA_FLAG_READABLE :: u32 where "SPA_DATA_FLAG_READABLE \<equiv> 1"
abbreviation (input) SPA_DATA_FLAG_WRITABLE :: u32 where "SPA_DATA_FLAG_WRITABLE \<equiv> 2"
abbreviation (input) SPA_DATA_FLAG_MAPPABLE :: u32 where "SPA_DATA_FLAG_MAPPABLE \<equiv> 8"
abbreviation (input) SPA_IO_CLOCK_FLAG_DISCONT :: u32 where "SPA_IO_CLOCK_FLAG_DISCONT \<equiv> 16"
abbreviation (input) SPA_IO_CLOCK_FLAG_NO_RATE :: u32 where "SPA_IO_CLOCK_FLAG_NO_RATE \<equiv> 8"
abbreviation (input) SPA_NSEC_PER_SEC :: u64 where "SPA_NSEC_PER_SEC \<equiv> 1000000000"

datatype spa_direction = SPA_DIRECTION_INPUT | SPA_DIRECTION_OUTPUT

record spa_data =
  dtype :: u32
  dflags :: u32
  ddata :: bool
  dmapped :: bool
  dmaxsize :: u32

record spa_buffer =
  sb_busy :: "u32 option"
  sb_datas :: "spa_data list"

record buffer =
  bid :: u32
  bflags :: u32
  bbusy :: "u32 option"
  bsize :: u64
  brequested :: u64
  btime :: u64
  bbuffer :: spa_buffer

record queue =
  ids :: "u32 list"
  ring :: spa_ringbuffer
  incount :: u64
  outcount :: u64

record spa_io_buffers =
  status :: int
  buffer_id :: u32

record spa_io_clock =
  cflags :: u32
  cid :: u32
  cnsec :: u64
  crate :: spa_fraction
  cposition :: u64
  cduration :: u64

record spa_io_rate_match =
  rm_delay :: u32
  rm_size :: u32

record pw_time =
  tnow :: u64
  trate :: spa_fraction
  tticks :: u64
  tdelay :: u64
  tqueued :: u64

record stream =
  direction :: spa_direction
  map_buffers :: bool
  io :: "spa_io_buffers option"
  rate_match :: "spa_io_rate_match option"
  rate_queued :: u32
  have_requested :: u32
  rate_size :: u64
  buffers :: "buffer list"
  n_buffers :: u32
  dequeued :: queue
  queued :: queue
  seq :: u64
  time :: pw_time
  base_pos :: u64
  clock_id :: u32
  quantum :: u64
  rt_callbacks :: bool
  disconnecting :: bool
  draining :: bool
  drained :: bool
  using_trigger :: bool
  early_process :: bool
  in_trigger :: int
  node_driving :: bool
  node_reliable :: bool
  node_position :: "spa_io_clock option"
  triggers :: nat
  trigger_dones :: nat

section \<open>Queues\<close>

definition queue_push :: "stream \<Rightarrow> queue \<Rightarrow> buffer \<Rightarrow> queue res" where
  "queue_push stream q buf =
     (if bid buf \<ge> n_buffers stream then Inl EINVAL
      else let q = q\<lparr>incount := incount q + bsize buf\<rparr>;
               (_, index) = spa_ringbuffer_get_write_index (ring q);
               q = q\<lparr>ids := (ids q)[unat (index AND MASK_BUFFERS) := bid buf]\<rparr>
           in Inr (q\<lparr>ring := spa_ringbuffer_write_update (ring q) (index + 1)\<rparr>))"

definition queue_is_empty :: "queue \<Rightarrow> bool" where
  "queue_is_empty q \<longleftrightarrow> fst (spa_ringbuffer_get_read_index (ring q)) < 1"

definition queue_pop :: "stream \<Rightarrow> queue \<Rightarrow> nat option \<times> queue" where
  "queue_pop stream q =
     (let (avail, index) = spa_ringbuffer_get_read_index (ring q)
      in if avail < 1 then (None, q)
         else let id = unat (ids q ! unat (index AND MASK_BUFFERS));
                  q = q\<lparr>ring := spa_ringbuffer_read_update (ring q) (index + 1)\<rparr>
              in (Some id, q\<lparr>outcount := outcount q + bsize (buffers stream ! id)\<rparr>))"

definition clear_queue :: "queue \<Rightarrow> queue" where
  "clear_queue q = q\<lparr>ring := spa_ringbuffer_init (ring q), incount := outcount q\<rparr>"

definition queue_push_front :: "queue \<Rightarrow> buffer \<Rightarrow> int \<times> queue" where
  "queue_push_front q buf =
     (let (ret, index) = spa_ringbuffer_get_read_index (ring q)
      in if ret < 0 then (ret, q)
         else let index = index - 1;
                  q = q\<lparr>ids := (ids q)[unat (index AND MASK_BUFFERS) := bid buf]\<rparr>;
                  q = q\<lparr>outcount := outcount q - bsize buf\<rparr>
              in (ret, q\<lparr>ring := spa_ringbuffer_read_update (ring q) index\<rparr>))"

section \<open>The application's operations\<close>

definition get_buffer :: "stream \<Rightarrow> u32 \<Rightarrow> nat option" where
  "get_buffer s i = (if i < n_buffers s then Some (unat i) else None)"

definition set_buf :: "stream \<Rightarrow> nat \<Rightarrow> (buffer \<Rightarrow> buffer) \<Rightarrow> stream" where
  "set_buf s i f = s\<lparr>buffers := (buffers s)[i := f (buffers s ! i)]\<rparr>"

abbreviation dequeued_flag :: "stream \<Rightarrow> nat \<Rightarrow> bool" where
  "dequeued_flag s i \<equiv> bflags (buffers s ! i) AND BUFFER_FLAG_DEQUEUED = BUFFER_FLAG_DEQUEUED"

definition busy_inc :: "buffer \<Rightarrow> buffer" where
  "busy_inc b = b\<lparr>bbusy := map_option (\<lambda>n. n + 1) (bbusy b)\<rparr>"

definition busy_dec :: "buffer \<Rightarrow> buffer" where
  "busy_dec b = b\<lparr>bbusy := map_option (\<lambda>n. n - 1) (bbusy b)\<rparr>"

definition update_requested :: "stream \<Rightarrow> u32 \<times> stream" where
  "update_requested s =
     (let (avail, index) = spa_ringbuffer_get_read_index (ring (dequeued s))
      in if avail < 1 then (if using_trigger s then 1 else 0, s)
         else let id = unat (ids (dequeued s) ! unat (index AND MASK_BUFFERS))
              in (have_requested s, set_buf s id (\<lambda>b. b\<lparr>brequested := rate_size s\<rparr>)))"

definition call_process :: "(stream \<Rightarrow> stream) \<Rightarrow> stream \<Rightarrow> stream" where
  "call_process process s =
     (if n_buffers s = 0 then s
      else let (req, s) = (if direction s = SPA_DIRECTION_OUTPUT then update_requested s else (1, s))
           in if req = 0 then s
              else if rt_callbacks s \<and> \<not> disconnecting s then process s else s)"

lemma ring_fill_pop:
  "1 \<le> sint (w - r) \<Longrightarrow> nat (sint (w - (r + 1))) < nat (sint (w - r))" for w r :: u32
proof -
  assume a: "1 \<le> sint (w - r)"
  let ?d = "w - r"
  have "sint (?d - 1) = sint ?d - 1"
  proof -
    have "sint (?d - 1) = signed_take_bit 31 (sint ?d - sint (1 :: u32))"
      by (simp add: sint_word_ariths)
    also have "\<dots> = sint ?d - 1"
      using a sint_greater_eq [of ?d] sint_less [of ?d] by (simp add: signed_take_bit_int_eq_self)
    finally show ?thesis .
  qed
  moreover have "w - (r + 1) = ?d - 1" by (simp add: algebra_simps)
  ultimately have "sint (w - (r + 1)) = sint ?d - 1" by (simp only:)
  thus ?thesis using a by linarith
qed

text \<open>
  The loop of \<^verbatim>\<open>pw_stream_dequeue_buffer\<close> that drops entries of buffers the application still holds.
\<close>

function dequeue_loop :: "stream \<Rightarrow> nat option \<times> stream" where
  "dequeue_loop s =
     (case queue_pop s (dequeued s) of
        (None, q) \<Rightarrow> (None, s\<lparr>dequeued := q\<rparr>)
      | (Some i, q) \<Rightarrow>
          let s = s\<lparr>dequeued := q\<rparr>
          in if dequeued_flag s i then
               dequeue_loop (if direction s = SPA_DIRECTION_INPUT then set_buf s i busy_dec else s)
             else (Some i, s))"
  by pat_completeness auto

lemma queue_pop_decreases:
  assumes "queue_pop s q = (Some i, q')"
  shows "nat (sint (writeindex (ring q') - readindex (ring q'))) <
    nat (sint (writeindex (ring q) - readindex (ring q)))"
  using assms ring_fill_pop [of "writeindex (ring q)" "readindex (ring q)"]
  by (auto simp: queue_pop_def spa_ringbuffer_get_read_index_def spa_ringbuffer_read_update_def Let_def
      split: if_splits)

termination dequeue_loop
  by (relation "measure (\<lambda>s. nat (sint (writeindex (ring (dequeued s)) - readindex (ring (dequeued s)))))")
    (auto simp: set_buf_def dest!: queue_pop_decreases [OF sym])

declare dequeue_loop.simps [simp del]

definition pw_stream_dequeue_buffer :: "stream \<Rightarrow> nat res \<times> stream" where
  "pw_stream_dequeue_buffer s =
     (if direction s = SPA_DIRECTION_OUTPUT \<and> node_reliable s \<and> \<not> queue_is_empty (queued s)
      then (Inl EAGAIN, s)
      else if direction s = SPA_DIRECTION_OUTPUT \<and> node_reliable s \<and> io s = None
      then (Inl EFAULT, s)
      else if direction s = SPA_DIRECTION_OUTPUT \<and> node_reliable s \<and>
          status (the (io s)) = SPA_STATUS_HAVE_DATA
      then (Inl EAGAIN, s)
      else case dequeue_loop s of
        (None, s) \<Rightarrow> (Inl EPIPE, s)
      | (Some i, s) \<Rightarrow>
          (if direction s = SPA_DIRECTION_OUTPUT \<and> bbusy (buffers s ! i) \<noteq> None then
             let s = set_buf s i busy_inc
             in if the (bbusy (buffers s ! i)) > 1 then
                  let s = set_buf s i busy_dec
                  in (Inl EBUSY, case queue_push s (dequeued s) (buffers s ! i) of
                        Inl _ \<Rightarrow> s | Inr q \<Rightarrow> s\<lparr>dequeued := q\<rparr>)
                else (Inr i, set_buf s i (\<lambda>b. b\<lparr>bflags := bflags b OR BUFFER_FLAG_DEQUEUED\<rparr>))
           else (Inr i, set_buf s i (\<lambda>b. b\<lparr>bflags := bflags b OR BUFFER_FLAG_DEQUEUED\<rparr>))))"

definition pw_stream_queue_buffer :: "stream \<Rightarrow> nat \<Rightarrow> unit res \<times> stream" where
  "pw_stream_queue_buffer s i =
     (if \<not> dequeued_flag s i then (Inl EINVAL, s)
      else let s = set_buf s i (\<lambda>b. b\<lparr>bflags := bflags b AND NOT BUFFER_FLAG_DEQUEUED\<rparr>);
               s = set_buf s i busy_dec
           in case queue_push s (queued s) (buffers s ! i) of
                Inl e \<Rightarrow> (Inl e, s)
              | Inr q \<Rightarrow>
                  (let s = s\<lparr>queued := q\<rparr>
                   in (Inr (), if direction s = SPA_DIRECTION_OUTPUT \<and> node_driving s \<and> \<not> using_trigger s
                               then s\<lparr>triggers := triggers s + 1\<rparr> else s)))"

definition pw_stream_return_buffer :: "stream \<Rightarrow> nat \<Rightarrow> int res \<times> stream" where
  "pw_stream_return_buffer s i =
     (if \<not> dequeued_flag s i then (Inl EINVAL, s)
      else let s = set_buf s i (\<lambda>b. b\<lparr>bflags := bflags b AND NOT BUFFER_FLAG_DEQUEUED\<rparr>);
               s = (if direction s = SPA_DIRECTION_OUTPUT then set_buf s i busy_dec else s);
               (ret, q) = queue_push_front (dequeued s) (buffers s ! i);
               s = s\<lparr>dequeued := q\<rparr>
           in (Inr ret,
               if ret < 0 then
                 let s = set_buf s i (\<lambda>b. b\<lparr>bflags := bflags b OR BUFFER_FLAG_DEQUEUED\<rparr>)
                 in if direction s = SPA_DIRECTION_OUTPUT then set_buf s i busy_inc else s
               else s))"

section \<open>The data loop\<close>

definition copy_position :: "stream \<Rightarrow> u64 \<Rightarrow> stream" where
  "copy_position s qd =
     (let s = s\<lparr>seq := seq s + 1\<rparr>;
          s = (case node_position s of None \<Rightarrow> s | Some p \<Rightarrow>
            (let s = s\<lparr>time := (time s)\<lparr>tnow := cnsec p, trate := crate p\<rparr>\<rparr>;
                 s = (if clock_id s \<noteq> cid p \<or> cflags p AND SPA_IO_CLOCK_FLAG_DISCONT \<noteq> 0
                      then s\<lparr>base_pos := cposition p - tticks (time s), clock_id := cid p\<rparr> else s);
                 s = (if cflags p AND SPA_IO_CLOCK_FLAG_NO_RATE \<noteq> 0 then
                        (if num (crate p) = 0 \<or> denom (crate p) = 0 then
                           s\<lparr>time := (time s)\<lparr>tticks := cnsec p,
                             trate := \<lparr>num = 1, denom = 1000000000\<rparr>\<rparr>\<rparr>
                         else s\<lparr>time := (time s)\<lparr>tticks :=
                           (cnsec p * ucast (denom (crate p))) div (SPA_NSEC_PER_SEC * ucast (num (crate p)))\<rparr>\<rparr>)
                      else s\<lparr>time := (time s)\<lparr>tticks := cposition p - base_pos s\<rparr>\<rparr>)
             in s\<lparr>time := (time s)\<lparr>tdelay := 0, tqueued := qd\<rparr>, quantum := cduration p\<rparr>));
          s = (case rate_match s of
                 Some r \<Rightarrow> s\<lparr>rate_queued := rm_delay r, rate_size := ucast (rm_size r),
                             have_requested := (if rm_size r \<noteq> 0 then 1 else 0)\<rparr>
               | None \<Rightarrow> s\<lparr>rate_queued := 0, rate_size := quantum s, have_requested := 1\<rparr>)
      in s\<lparr>seq := seq s + 1\<rparr>)"

definition call_trigger_done :: "stream \<Rightarrow> stream" where
  "call_trigger_done s = s\<lparr>trigger_dones := trigger_dones s + 1\<rparr>"

definition push_dequeued :: "stream \<Rightarrow> nat \<Rightarrow> bool \<times> stream" where
  "push_dequeued s i = (case queue_push s (dequeued s) (buffers s ! i) of
     Inl _ \<Rightarrow> (False, s) | Inr q \<Rightarrow> (True, s\<lparr>dequeued := q\<rparr>))"

definition push_queued :: "stream \<Rightarrow> nat \<Rightarrow> bool \<times> stream" where
  "push_queued s i = (case queue_push s (queued s) (buffers s ! i) of
     Inl _ \<Rightarrow> (False, s) | Inr q \<Rightarrow> (True, s\<lparr>queued := q\<rparr>))"

text \<open>An area given to the port; \<^verbatim>\<open>NULL\<close>, and an area that is too small, are \<open>None\<close>.\<close>

datatype io_area =
    SPA_IO_Buffers "spa_io_buffers option"
  | SPA_IO_RateMatch "spa_io_rate_match option"
  | SPA_IO_Other

fun impl_port_set_io :: "stream \<Rightarrow> io_area \<Rightarrow> stream" where
  "impl_port_set_io s (SPA_IO_Buffers a) = s\<lparr>io := a\<rparr>"
| "impl_port_set_io s (SPA_IO_RateMatch m) = s\<lparr>rate_match := m\<rparr>"
| "impl_port_set_io s SPA_IO_Other = s"

definition impl_port_reuse_buffer :: "stream \<Rightarrow> u32 \<Rightarrow> unit res \<times> stream" where
  "impl_port_reuse_buffer s i =
     (if i \<ge> n_buffers s then (Inl EINVAL, s) else (Inr (), snd (push_queued s (unat i))))"

definition impl_node_process_input :: "(stream \<Rightarrow> stream) \<Rightarrow> stream \<Rightarrow> int res \<times> stream" where
  "impl_node_process_input process s = (case io s of None \<Rightarrow> (Inl EIO, s) | Some b \<Rightarrow>
     (let buf = (if status b = SPA_STATUS_HAVE_DATA then get_buffer s (buffer_id b) else None);
          s = (case buf of None \<Rightarrow> s | Some i \<Rightarrow>
                (case push_dequeued s i of (ok, s) \<Rightarrow> if ok then set_buf s i busy_inc else s));
          s = copy_position s (incount (dequeued s));
          s = (case buf of None \<Rightarrow> s | Some i \<Rightarrow> set_buf s i (\<lambda>b. b\<lparr>btime := tnow (time s)\<rparr>));
          s = (if queue_is_empty (dequeued s) then s else call_process process s);
          s = (case io s of None \<Rightarrow> s | Some b \<Rightarrow>
                if status b \<noteq> SPA_STATUS_NEED_DATA \<or> buffer_id b = SPA_ID_INVALID then
                  (case queue_pop s (queued s) of (r, q) \<Rightarrow>
                     s\<lparr>queued := q, io := Some \<lparr>status = SPA_STATUS_NEED_DATA,
                        buffer_id = (case r of Some i \<Rightarrow> bid (buffers s ! i) | None \<Rightarrow> SPA_ID_INVALID)\<rparr>\<rparr>)
                else s);
          s = (if node_driving s \<and> using_trigger s then call_trigger_done s else s)
      in (Inr (SPA_STATUS_NEED_DATA + SPA_STATUS_HAVE_DATA), s)))"

text \<open>
  One pass of \<^verbatim>\<open>impl_node_process_output\<close> up to the call of the process callback: the result
  code, whether to ask for more, and the stream. The passes of the \<^verbatim>\<open>goto again\<close> loop are counted
  by fuel; two always suffice (\<open>process_output_two_passes\<close> below).
\<close>

definition process_output_exchange :: "spa_io_buffers \<Rightarrow> bool \<Rightarrow> stream \<Rightarrow> int \<times> bool \<times> stream" where
  "process_output_exchange b driver_end s =
     (if status b \<noteq> SPA_STATUS_HAVE_DATA then
        (let (ask_more, s) = (case get_buffer s (buffer_id b) of None \<Rightarrow> (False, s)
               | Some i \<Rightarrow> (early_process s, snd (push_dequeued s i)));
             (r, q) = (if driver_end then (None, queued s) else queue_pop s (queued s));
             s = s\<lparr>queued := q\<rparr>
         in case r of
              Some i \<Rightarrow> (SPA_STATUS_HAVE_DATA, ask_more,
                s\<lparr>drained := False,
                  io := Some \<lparr>status = SPA_STATUS_HAVE_DATA, buffer_id = bid (buffers s ! i)\<rparr>\<rparr>)
            | None \<Rightarrow>
                if draining s \<or> drained s then
                  (SPA_STATUS_DRAINED, ask_more,
                   s\<lparr>draining := True, drained := True,
                     io := Some \<lparr>status = SPA_STATUS_DRAINED, buffer_id = SPA_ID_INVALID\<rparr>\<rparr>)
                else
                  (SPA_STATUS_NEED_DATA, True,
                   s\<lparr>io := Some \<lparr>status = SPA_STATUS_NEED_DATA, buffer_id = SPA_ID_INVALID\<rparr>\<rparr>))
      else (if driver_end then SPA_STATUS_NEED_DATA else status b, False, s))"

fun process_output_loop :: "nat \<Rightarrow> (stream \<Rightarrow> stream) \<Rightarrow> stream \<Rightarrow> (int \<times> stream) option" where
  "process_output_loop 0 process s = None"
| "process_output_loop (Suc fuel) process s =
     (case io s of None \<Rightarrow> None | Some b \<Rightarrow>
       (let driver_end = (node_driving s \<and> in_trigger s = 0);
            (res, ask_more, s) = process_output_exchange b driver_end s;
            s = copy_position s (outcount (queued s));
            ask = (\<not> draining s \<and> \<not> node_driving s \<and> ask_more);
            s = (if ask then call_process process s else s)
        in if ask \<and> (draining s \<or> \<not> queue_is_empty (queued s))
           then process_output_loop fuel process s
           else Some (res, if driver_end \<and> using_trigger s then call_trigger_done s else s)))"

definition impl_node_process_output ::
    "nat \<Rightarrow> (stream \<Rightarrow> stream) \<Rightarrow> stream \<Rightarrow> (int res \<times> stream) option" where
  "impl_node_process_output fuel process s =
     (if io s = None then Some (Inl EIO, s)
      else map_option (\<lambda>(r, s). (Inr r, s)) (process_output_loop fuel process s))"

definition do_trigger_deprecated ::
    "nat \<Rightarrow> (stream \<Rightarrow> stream) \<Rightarrow> stream \<Rightarrow> (int res \<times> stream) option" where
  "do_trigger_deprecated fuel process s =
     map_option (\<lambda>(r, s). (r, s\<lparr>in_trigger := in_trigger s - 1\<rparr>))
       (impl_node_process_output fuel process (s\<lparr>in_trigger := in_trigger s + 1, triggers := triggers s - 1\<rparr>))"

definition do_trigger_driver ::
    "nat \<Rightarrow> (stream \<Rightarrow> stream) \<Rightarrow> stream \<Rightarrow> (int res \<times> stream) option" where
  "do_trigger_driver fuel process s =
     (if direction s = SPA_DIRECTION_OUTPUT then
        let s = call_process process s; s = s\<lparr>in_trigger := in_trigger s + 1\<rparr>
        in map_option (\<lambda>(r, s). (r, s\<lparr>in_trigger := in_trigger s - 1\<rparr>))
             (impl_node_process_output fuel process s)
      else Some (Inr SPA_STATUS_NEED_DATA, s))"

text \<open>The loop of \<^verbatim>\<open>do_flush\<close>, from one queue into the other.\<close>

function flush_loop :: "stream \<Rightarrow> queue \<Rightarrow> queue \<Rightarrow> queue \<times> queue" where
  "flush_loop s from to =
     (case queue_pop s from of
        (None, from) \<Rightarrow> (from, to)
      | (Some i, from) \<Rightarrow> flush_loop s from
          (case queue_push s to (buffers s ! i) of Inl _ \<Rightarrow> to | Inr to \<Rightarrow> to))"
  by pat_completeness auto

termination flush_loop
  by (relation "measure (\<lambda>(s, from, to). nat (sint (writeindex (ring from) - readindex (ring from))))")
    (auto dest!: queue_pop_decreases [OF sym])

declare flush_loop.simps [simp del]

definition do_flush :: "stream \<Rightarrow> stream" where
  "do_flush s =
     (let s = (if direction s = SPA_DIRECTION_OUTPUT
               then (case flush_loop s (queued s) (dequeued s) of
                       (from, to) \<Rightarrow> s\<lparr>queued := from, dequeued := to\<rparr>)
               else (case flush_loop s (dequeued s) (queued s) of
                       (from, to) \<Rightarrow> s\<lparr>dequeued := from, queued := to\<rparr>))
      in s\<lparr>queued := (queued s)\<lparr>incount := 0, outcount := 0\<rparr>,
           dequeued := (dequeued s)\<lparr>incount := 0, outcount := 0\<rparr>\<rparr>)"

definition do_drain :: "stream \<Rightarrow> stream" where
  "do_drain s = s\<lparr>draining := True, drained := False\<rparr>"

definition do_stop_drain :: "stream \<Rightarrow> stream" where
  "do_stop_drain s =
     (let s = (case io s of None \<Rightarrow> s | Some b \<Rightarrow>
                if drained s then s\<lparr>io := Some (b\<lparr>status := SPA_STATUS_NEED_DATA\<rparr>)\<rparr> else s)
      in s\<lparr>draining := False, drained := False\<rparr>)"

section \<open>Configuration\<close>

function clear_dequeued_loop :: "stream \<Rightarrow> stream" where
  "clear_dequeued_loop s =
     (case queue_pop s (dequeued s) of
        (None, q) \<Rightarrow> s\<lparr>dequeued := q\<rparr>
      | (Some i, q) \<Rightarrow> clear_dequeued_loop (set_buf (s\<lparr>dequeued := q\<rparr>) i busy_dec))"
  by pat_completeness auto

termination clear_dequeued_loop
  by (relation "measure (\<lambda>s. nat (sint (writeindex (ring (dequeued s)) - readindex (ring (dequeued s)))))")
    (auto simp: set_buf_def dest!: queue_pop_decreases [OF sym])

declare clear_dequeued_loop.simps [simp del]

definition unmap_buffer :: "buffer \<Rightarrow> buffer" where
  "unmap_buffer b =
     (if bflags b AND BUFFER_FLAG_MAPPED = BUFFER_FLAG_MAPPED then
        b\<lparr>bbuffer := (bbuffer b)\<lparr>sb_datas :=
          map (\<lambda>d. if dflags d AND SPA_DATA_FLAG_MAPPABLE = SPA_DATA_FLAG_MAPPABLE
                   then d\<lparr>dmapped := False\<rparr> else d) (sb_datas (bbuffer b))\<rparr>\<rparr>
      else b)"

definition clear_buffers :: "stream \<Rightarrow> stream" where
  "clear_buffers s =
     (let s = s\<lparr>buffers := map unmap_buffer (take (unat (n_buffers s)) (buffers s)) @
                           drop (unat (n_buffers s)) (buffers s)\<rparr>;
          s = s\<lparr>n_buffers := 0\<rparr>;
          s = (if direction s = SPA_DIRECTION_INPUT then clear_dequeued_loop s
               else let s = s\<lparr>dequeued := clear_queue (dequeued s)\<rparr>
                    in case io s of None \<Rightarrow> s | Some b \<Rightarrow>
                         if status b = SPA_STATUS_HAVE_DATA
                         then s\<lparr>io := Some \<lparr>status = SPA_STATUS_OK, buffer_id = SPA_ID_INVALID\<rparr>\<rparr>
                         else s)
      in s\<lparr>queued := clear_queue (queued s)\<rparr>)"

text \<open>
  The first loop of \<^verbatim>\<open>impl_port_use_buffers\<close>: \<open>use_datas\<close> maps the memory of one buffer (result,
  datas, accumulated size, buffer flags), \<open>use_buffers_map\<close> goes over the buffers.
\<close>

fun use_datas :: "(spa_data \<Rightarrow> u32 \<Rightarrow> unit res) \<Rightarrow> spa_data list \<Rightarrow> u32 \<Rightarrow> u32 \<Rightarrow>
    unit res \<times> spa_data list \<times> u32 \<times> u32" where
  "use_datas map_data [] buf_size fl = (Inr (), [], buf_size, fl)"
| "use_datas map_data (d # ds) buf_size fl =
     (if \<not> ddata d \<and> dflags d AND SPA_DATA_FLAG_MAPPABLE = SPA_DATA_FLAG_MAPPABLE then
        (let prot = (if dflags d AND SPA_DATA_FLAG_READABLE = SPA_DATA_FLAG_READABLE then 1 else 0) OR
                    (if dflags d AND SPA_DATA_FLAG_WRITABLE = SPA_DATA_FLAG_WRITABLE then 2 else 0)
         in case map_data d prot of
              Inl e \<Rightarrow> (Inl e, d # ds, buf_size, fl)
            | Inr _ \<Rightarrow>
                (case use_datas map_data ds (buf_size + dmaxsize d) (fl OR BUFFER_FLAG_MAPPED) of
                   (r, ds, sz, fl) \<Rightarrow> (r, d\<lparr>ddata := True, dmapped := True\<rparr> # ds, sz, fl)))
      else if dtype d = SPA_DATA_MemPtr \<and> \<not> ddata d then (Inl EINVAL, d # ds, buf_size, fl)
      else (case use_datas map_data ds (buf_size + dmaxsize d) fl of
              (r, ds, sz, fl) \<Rightarrow> (r, d # ds, sz, fl)))"

fun use_buffers_map :: "(spa_data \<Rightarrow> u32 \<Rightarrow> unit res) \<Rightarrow> nat \<Rightarrow> stream \<Rightarrow> spa_buffer list \<Rightarrow> u32 \<Rightarrow>
    unit res \<times> stream \<times> spa_buffer list" where
  "use_buffers_map map_data i s [] sz = (Inr (), s, [])"
| "use_buffers_map map_data i s (sb # sbs) sz =
     (let s = set_buf s i (\<lambda>b. b\<lparr>bflags := 0, bid := of_nat i\<rparr>)
      in if map_buffers s then
           (case use_datas map_data (sb_datas sb) 0 0 of (r, ds, buf_size, fl) \<Rightarrow>
             (let s = set_buf s i (\<lambda>b. b\<lparr>bflags := fl\<rparr>); sb = sb\<lparr>sb_datas := ds\<rparr>
              in case r of
                   Inl e \<Rightarrow> (Inl e, s, sb # sbs)
                 | Inr _ \<Rightarrow>
                     if sint sz > 0 \<and> buf_size \<noteq> sz then (Inl EINVAL, s, sb # sbs)
                     else (case use_buffers_map map_data (Suc i) s sbs buf_size of
                             (r, s, sbs) \<Rightarrow> (r, s, sb # sbs))))
         else (case use_buffers_map map_data (Suc i) s sbs sz of (r, s, sbs) \<Rightarrow> (r, s, sb # sbs)))"

fun use_buffers_add :: "nat \<Rightarrow> stream \<Rightarrow> spa_buffer list \<Rightarrow> stream" where
  "use_buffers_add i s [] = s"
| "use_buffers_add i s (sb # sbs) =
     (let s = set_buf s i (\<lambda>b. b\<lparr>bbuffer := sb, bbusy := sb_busy sb\<rparr>);
          s = (if direction s = SPA_DIRECTION_OUTPUT then snd (push_dequeued s i) else s);
          s = set_buf s i (\<lambda>b. b\<lparr>bflags := bflags b OR BUFFER_FLAG_ADDED\<rparr>)
      in use_buffers_add (Suc i) s sbs)"

definition impl_port_use_buffers ::
    "(spa_data \<Rightarrow> u32 \<Rightarrow> unit res) \<Rightarrow> stream \<Rightarrow> spa_buffer list \<Rightarrow> unit res \<times> stream \<times> spa_buffer list" where
  "impl_port_use_buffers map_data s bufs =
     (if disconnecting s \<and> length bufs > 0 then (Inl EIO, s, bufs)
      else let s = clear_buffers s
           in if length bufs > MAX_BUFFERS then (Inl ENOSPC, s, bufs)
              else case use_buffers_map map_data 0 s bufs 0 of
                (Inl e, s, bufs) \<Rightarrow> (Inl e, s, bufs)
              | (Inr _, s, bufs) \<Rightarrow>
                  (Inr (), use_buffers_add 0 (s\<lparr>n_buffers := of_nat (length bufs)\<rparr>) bufs, bufs))"

section \<open>Queues of ids\<close>

definition qlist :: "queue \<Rightarrow> nat list" where
  "qlist q = map unat (ring_slice (ids q) (readindex (ring q)) (ring_fill (ring q)))"

definition queue_ok :: "queue \<Rightarrow> bool" where
  "queue_ok q \<longleftrightarrow> length (ids q) = MAX_BUFFERS \<and> ring_fill (ring q) \<le> MAX_BUFFERS"

lemma length_qlist: "length (qlist q) = ring_fill (ring q)"
  by (simp add: qlist_def)

lemma unat_and_63: "unat (x AND 63) = unat x mod 64" for x :: u32
  using unat_and_mask [of x 6] by (simp add: mask_eq_exp_minus_1)

lemma slot_pos: "unat ((i :: u32) AND MASK_BUFFERS) = ring_pos 64 i 0"
  by (simp add: unat_and_63 ring_pos_def)

lemma avail_fill: "queue_ok q \<Longrightarrow> fst (spa_ringbuffer_get_read_index (ring q)) = int (length (qlist q))"
  using ring_fill_sint by (simp add: spa_ringbuffer_get_read_index_def Let_def length_qlist queue_ok_def
      ring_fill_def sint_small)

lemma queue_is_empty_iff: "queue_ok q \<Longrightarrow> queue_is_empty q \<longleftrightarrow> qlist q = []"
  by (simp add: queue_is_empty_def avail_fill)

lemma write_slot:
  "length (ids q) = 64 \<Longrightarrow>
   unat (writeindex (ring q) AND MASK_BUFFERS) = ring_pos 64 (readindex (ring q)) (ring_fill (ring q))"
  unfolding slot_pos by (simp add: ring_pos_def ring_fill_def)

lemma slice_update_outside:
  assumes "length buf = 64" "k < 64" "n \<le> k"
  shows "ring_slice (buf[ring_pos 64 i k := x]) i n = ring_slice buf i n"
proof (rule ring_slice_cong)
  fix j assume "j < n"
  hence "ring_pos 64 i j \<noteq> ring_pos 64 i k"
    using ring_pos_inj [of 64 j k i] assms by auto
  thus "buf[ring_pos 64 i k := x] ! ring_pos (length buf) i j = buf ! ring_pos (length buf) i j"
    using assms by simp
qed simp

lemma ring_slice_Suc: "ring_slice buf i (Suc n) = ring_slice buf i n @ [buf ! ring_pos (length buf) i n]"
  by (simp add: ring_slice_def)

lemma ring_slice_Cons:
  "ring_slice buf i (Suc n) = buf ! ring_pos (length buf) i 0 # ring_slice buf (i + 1) n"
  using ring_slice_append [of buf i 1 n] by (simp add: ring_slice_def)

lemma queue_push_abs:
  assumes "queue_ok q" "length (qlist q) < MAX_BUFFERS" "bid b < n_buffers s"
  obtains q' where "queue_push s q b = Inr q'" "queue_ok q'" "qlist q' = qlist q @ [unat (bid b)]"
proof
  let ?w = "writeindex (ring q)" and ?r = "readindex (ring q)" and ?n = "ring_fill (ring q)"
  let ?q = "q\<lparr>incount := incount q + bsize b, ids := (ids q)[unat (?w AND MASK_BUFFERS) := bid b],
    ring := spa_ringbuffer_write_update (ring q) (?w + 1)\<rparr>"
  have l: "length (ids q) = 64" "?n < 64" using assms by (simp_all add: queue_ok_def length_qlist)
  show "queue_push s q b = Inr ?q"
    using assms(3) by (simp add: queue_push_def spa_ringbuffer_get_write_index_def Let_def not_le)
  have f: "ring_fill (spa_ringbuffer_write_update (ring q) (?w + 1)) = Suc ?n"
    using ring_fill_write [of "ring q" 1] l by simp
  thus "queue_ok ?q" using l by (simp add: queue_ok_def)
  have r: "readindex (spa_ringbuffer_write_update (ring q) (?w + 1)) = ?r"
    by (simp add: spa_ringbuffer_write_update_def)
  have "ring_pos 64 ?r ?n < 64" by (simp add: ring_pos_less)
  thus "qlist ?q = qlist q @ [unat (bid b)]"
    using l f unfolding qlist_def
    by (simp add: r ring_slice_Suc write_slot slice_update_outside)
qed

lemma queue_pop_empty: "queue_ok q \<Longrightarrow> qlist q = [] \<Longrightarrow> queue_pop s q = (None, q)"
  using avail_fill [of q] by (simp add: queue_pop_def case_prod_beta)

lemma queue_pop_abs:
  assumes "queue_ok q" "qlist q = x # xs"
  obtains q' where "queue_pop s q = (Some x, q')" "queue_ok q'" "qlist q' = xs"
proof
  let ?w = "writeindex (ring q)" and ?r = "readindex (ring q)" and ?n = "ring_fill (ring q)"
  let ?q = "q\<lparr>ring := spa_ringbuffer_read_update (ring q) (?r + 1),
    outcount := outcount q + bsize (buffers s ! x)\<rparr>"
  have n: "?n = Suc (length xs)" using assms(2) length_qlist [of q] by simp
  have l: "length (ids q) = 64" using assms(1) by (simp add: queue_ok_def)
  have sl: "map unat (ring_slice (ids q) ?r (Suc (length xs))) = x # xs"
    using assms(2) by (simp add: qlist_def n)
  have x: "unat (ids q ! unat (?r AND MASK_BUFFERS)) = x"
    and xs: "map unat (ring_slice (ids q) (?r + 1) (length xs)) = xs"
    using sl l unfolding ring_slice_Cons slot_pos by simp_all
  have "1 \<le> fst (spa_ringbuffer_get_read_index (ring q))"
    using avail_fill [OF assms(1)] assms(2) by simp
  thus "queue_pop s q = (Some x, ?q)"
    using x by (simp add: queue_pop_def spa_ringbuffer_get_read_index_def Let_def)
  have f: "ring_fill (spa_ringbuffer_read_update (ring q) (?r + 1)) = length xs"
    using ring_fill_read [of 1 "ring q"] n by simp
  thus "queue_ok ?q" using assms(1) n by (simp add: queue_ok_def)
  have "readindex (spa_ringbuffer_read_update (ring q) (?r + 1)) = ?r + 1"
    by (simp add: spa_ringbuffer_read_update_def)
  thus "qlist ?q = xs" using f xs by (simp add: qlist_def)
qed

lemma ring_fill_unread:
  assumes "ring_fill r < 64"
  shows "ring_fill (spa_ringbuffer_read_update r (readindex r - 1)) = Suc (ring_fill r)"
proof -
  define d where "d = writeindex r - readindex r"
  have "unat (writeindex r - (readindex r - 1)) = unat (d + 1)"
    by (rule arg_cong [where f = unat]) (simp add: d_def)
  also have "\<dots> = Suc (ring_fill r)"
    using assms by (simp add: ring_fill_def unat_plus_32 flip: d_def)
  finally show ?thesis by (simp add: ring_fill_def spa_ringbuffer_read_update_def)
qed

lemma queue_push_front_abs:
  assumes "queue_ok q" "length (qlist q) < MAX_BUFFERS"
  obtains q' where "queue_push_front q b = (int (length (qlist q)), q')" "queue_ok q'"
    "qlist q' = unat (bid b) # qlist q"
proof
  let ?r = "readindex (ring q)" and ?n = "ring_fill (ring q)"
  let ?q = "q\<lparr>ids := (ids q)[unat ((?r - 1) AND MASK_BUFFERS) := bid b],
    outcount := outcount q - bsize b, ring := spa_ringbuffer_read_update (ring q) (?r - 1)\<rparr>"
  have l: "length (ids q) = 64" "?n < 64" using assms by (simp_all add: queue_ok_def length_qlist)
  have "fst (spa_ringbuffer_get_read_index (ring q)) = int (length (qlist q))"
    by (rule avail_fill [OF assms(1)])
  thus "queue_push_front q b = (int (length (qlist q)), ?q)"
    by (simp add: queue_push_front_def spa_ringbuffer_get_read_index_def Let_def)
  note f = ring_fill_unread [OF l(2)]
  show "queue_ok ?q" using f l by (simp add: queue_ok_def)
  have p: "ring_pos 64 ?r j = ring_pos 64 (?r - 1) (Suc j)" for j
    using ring_pos_add [of 64 "?r - 1" 1 j] by simp
  have "ring_slice ((ids q)[ring_pos 64 (?r - 1) 0 := bid b]) ?r ?n = ring_slice (ids q) ?r ?n"
  proof (rule ring_slice_cong)
    fix j assume "j < ?n"
    hence "ring_pos 64 ?r j \<noteq> ring_pos 64 (?r - 1) 0"
      using ring_pos_inj [of 64 "Suc j" 0 "?r - 1"] l unfolding p by auto
    thus "(ids q)[ring_pos 64 (?r - 1) 0 := bid b] ! ring_pos (length (ids q)) ?r j
        = ids q ! ring_pos (length (ids q)) ?r j" using l by simp
  qed simp
  moreover have "ring_pos 64 (?r - 1) 0 < 64" by (simp add: ring_pos_less)
  moreover have "readindex (spa_ringbuffer_read_update (ring q) (?r - 1)) = ?r - 1"
    by (simp add: spa_ringbuffer_read_update_def)
  ultimately show "qlist ?q = unat (bid b) # qlist q"
    using f l unfolding qlist_def slot_pos by (simp add: ring_slice_Cons)
qed

lemma clear_queue_abs: "queue_ok q \<Longrightarrow> queue_ok (clear_queue q) \<and> qlist (clear_queue q) = []"
  by (simp add: clear_queue_def queue_ok_def qlist_def ring_fill_def spa_ringbuffer_init_def)

section \<open>The queue interface\<close>

text \<open>
  What the stream relies on from its rings: a bounded double-ended queue of valid buffer ids.
  A mover is a loop that pops from one queue and pushes to another until the first is empty.
\<close>

locale id_deque =
  fixes ok :: "'q \<Rightarrow> bool" and abs :: "'q \<Rightarrow> nat list" and cap :: nat and valid :: "nat \<Rightarrow> bool"
    and push :: "nat \<Rightarrow> 'q \<Rightarrow> 'q" and pop :: "'q \<Rightarrow> nat option \<times> 'q" and unpop :: "nat \<Rightarrow> 'q \<Rightarrow> 'q"
  assumes push_law: "ok q \<Longrightarrow> valid i \<Longrightarrow> length (abs q) < cap \<Longrightarrow>
      ok (push i q) \<and> abs (push i q) = abs q @ [i]"
    and pop_nil: "ok q \<Longrightarrow> abs q = [] \<Longrightarrow> pop q = (None, q)"
    and pop_cons: "ok q \<Longrightarrow> abs q = i # js \<Longrightarrow> \<exists>q'. pop q = (Some i, q') \<and> ok q' \<and> abs q' = js"
    and unpop_law: "ok q \<Longrightarrow> valid i \<Longrightarrow> length (abs q) < cap \<Longrightarrow>
      ok (unpop i q) \<and> abs (unpop i q) = i # abs q"
begin

lemma unpop_pop:
  assumes "ok q" "abs q = i # js" "valid i" "length js < cap"
  shows "abs (unpop i (snd (pop q))) = abs q"
  using pop_cons [OF assms(1,2)] unpop_law assms(2-4) by fastforce

end

locale id_mover = id_deque +
  fixes move :: "'a \<Rightarrow> 'a \<Rightarrow> 'a \<times> 'a"
  assumes move_step: "move from to = (case pop from of (None, from') \<Rightarrow> (from', to)
    | (Some i, from') \<Rightarrow> move from' (push i to))"
begin

lemma move_all:
  assumes "ok from" "ok to" "\<forall>i\<in>set (abs from). valid i" "length (abs from) + length (abs to) \<le> cap"
  shows "\<exists>from' to'. move from to = (from', to') \<and> ok from' \<and> ok to' \<and> abs from' = [] \<and>
    abs to' = abs to @ abs from"
  using assms
proof (induction "abs from" arbitrary: "from" to)
  case Nil
  hence "move from to = (from, to)" using pop_nil by (subst move_step) simp
  thus ?case using Nil by auto
next
  case (Cons i js)
  obtain q where q: "pop from = (Some i, q)" "ok q" "abs q = js"
    using pop_cons [OF Cons(3) Cons(2) [symmetric]] by blast
  have f: "abs from = i # js" using Cons(2) by simp
  have "valid i" "length (abs to) < cap" using Cons(5,6) by (simp_all add: f)
  hence p: "ok (push i to)" "abs (push i to) = abs to @ [i]" using push_law Cons(4) by blast+
  have "\<forall>i\<in>set (abs q). valid i" "length (abs q) + length (abs (push i to)) \<le> cap"
    using Cons(5,6) q(3) p(2) by (simp_all add: f)
  from Cons(1) [OF q(3) [symmetric] q(2) p(1) this] obtain from' to'
    where m: "move q (push i to) = (from', to')" "ok from'" "ok to'" "abs from' = []"
      "abs to' = abs (push i to) @ abs q" by blast
  have "move from to = (from', to')" using q(1) m(1) by (subst move_step) simp
  thus ?case using m(2-5) p(2) q(3) f by simp
qed

end

definition bufs_ok :: "stream \<Rightarrow> bool" where
  "bufs_ok s \<longleftrightarrow> length (buffers s) = MAX_BUFFERS \<and> unat (n_buffers s) \<le> MAX_BUFFERS \<and>
     (\<forall>i < unat (n_buffers s). bid (buffers s ! i) = of_nat i)"

definition push_id :: "stream \<Rightarrow> nat \<Rightarrow> queue \<Rightarrow> queue" where
  "push_id s i q = (case queue_push s q (buffers s ! i) of Inl _ \<Rightarrow> q | Inr q \<Rightarrow> q)"

lemma bid_less:
  assumes "bufs_ok s" "i < unat (n_buffers s)"
  shows "bid (buffers s ! i) < n_buffers s" "unat (bid (buffers s ! i)) = i"
proof -
  have "bid (buffers s ! i) = of_nat i" "i < 64" using assms by (auto simp: bufs_ok_def)
  thus u: "unat (bid (buffers s ! i)) = i" by (simp add: unat_of_nat_32)
  show "bid (buffers s ! i) < n_buffers s" using assms(2) by (simp add: word_less_unat u)
qed

lemma push_id_abs:
  assumes "queue_ok q" "bufs_ok s" "i < unat (n_buffers s)" "length (qlist q) < MAX_BUFFERS"
  shows "queue_ok (push_id s i q) \<and> qlist (push_id s i q) = qlist q @ [i]"
  using queue_push_abs [OF assms(1,4) bid_less(1) [OF assms(2,3)]] bid_less(2) [OF assms(2,3)]
  by (metis push_id_def sum.case(2))

interpretation sq: id_mover queue_ok qlist 64 "\<lambda>i. bufs_ok s \<and> i < unat (n_buffers s)" "push_id s"
  "queue_pop s" "\<lambda>i q. snd (queue_push_front q (buffers s ! i))" "flush_loop s" for s
proof unfold_locales
  fix q i assume "queue_ok q" "bufs_ok s \<and> i < unat (n_buffers s)" "length (qlist q) < 64"
  thus "queue_ok (push_id s i q) \<and> qlist (push_id s i q) = qlist q @ [i]"
    using push_id_abs by blast
next
  fix q assume "queue_ok q" "qlist q = []"
  thus "queue_pop s q = (None, q)" by (rule queue_pop_empty)
next
  fix q i js assume "queue_ok q" "qlist q = i # js"
  thus "\<exists>q'. queue_pop s q = (Some i, q') \<and> queue_ok q' \<and> qlist q' = js"
    using queue_pop_abs by metis
next
  fix q i assume q: "queue_ok q" "bufs_ok s \<and> i < unat (n_buffers s)" "length (qlist q) < 64"
  obtain q' where "queue_push_front q (buffers s ! i) = (int (length (qlist q)), q')" "queue_ok q'"
    "qlist q' = unat (bid (buffers s ! i)) # qlist q" using queue_push_front_abs [OF q(1,3)] by blast
  thus "queue_ok (snd (queue_push_front q (buffers s ! i))) \<and>
      qlist (snd (queue_push_front q (buffers s ! i))) = i # qlist q"
    using bid_less(2) q(2) by simp
next
  fix "from" to
  show "flush_loop s from to = (case queue_pop s from of (None, from') \<Rightarrow> (from', to)
      | (Some i, from') \<Rightarrow> flush_loop s from' (push_id s i to))"
    unfolding push_id_def by (rule flush_loop.simps)
qed

section \<open>Ownership of the buffers of an output stream\<close>

definition held :: "stream \<Rightarrow> nat list" where
  "held s = filter (dequeued_flag s) [0..<unat (n_buffers s)]"

definition io_ids :: "stream \<Rightarrow> nat list" where
  "io_ids s = (case io s of None \<Rightarrow> [] | Some b \<Rightarrow>
     if buffer_id b < n_buffers s then [unat (buffer_id b)] else [])"

definition owners :: "stream \<Rightarrow> nat list \<Rightarrow> nat multiset" where
  "owners s peer = mset (qlist (dequeued s)) + mset (held s) + mset (qlist (queued s)) +
     mset (io_ids s) + mset peer"

definition own_inv :: "stream \<Rightarrow> nat list \<Rightarrow> bool" where
  "own_inv s peer \<longleftrightarrow> direction s = SPA_DIRECTION_OUTPUT \<and> bufs_ok s \<and> queue_ok (dequeued s) \<and>
     queue_ok (queued s) \<and> owners s peer = mset [0..<unat (n_buffers s)]"

lemma set_buf_simps [simp]:
  "direction (set_buf s i f) = direction s" "io (set_buf s i f) = io s"
  "n_buffers (set_buf s i f) = n_buffers s" "dequeued (set_buf s i f) = dequeued s"
  "queued (set_buf s i f) = queued s" "length (buffers (set_buf s i f)) = length (buffers s)"
  "i < length (buffers s) \<Longrightarrow> buffers (set_buf s i f) ! i = f (buffers s ! i)"
  "j \<noteq> i \<Longrightarrow> buffers (set_buf s i f) ! j = buffers s ! j"
  "draining (set_buf s i f) = draining s" "drained (set_buf s i f) = drained s"
  "node_driving (set_buf s i f) = node_driving s" "node_reliable (set_buf s i f) = node_reliable s"
  "using_trigger (set_buf s i f) = using_trigger s" "in_trigger (set_buf s i f) = in_trigger s"
  by (simp_all add: set_buf_def)

lemma busy_simps [simp]:
  "bflags (busy_inc b) = bflags b" "bflags (busy_dec b) = bflags b"
  "bid (busy_inc b) = bid b" "bid (busy_dec b) = bid b"
  "bsize (busy_inc b) = bsize b" "bsize (busy_dec b) = bsize b"
  by (simp_all add: busy_inc_def busy_dec_def)

lemma count_filter_upt: "count (mset (filter P [0..<n])) x = (if x < n \<and> P x then 1 else 0)"
  by (simp add: count_mset filter_filter count_list_eq_length_filter[symmetric] flip: count_mset)

lemma flag_words: "(x OR 2) AND 2 = (2 :: u32)" "(x AND - 3) AND 2 \<noteq> (2 :: u32)"
proof -
  show "(x OR 2) AND 2 = (2 :: u32)" by (simp add: bit_eq_iff bit_simps)
  show "(x AND - 3) AND 2 \<noteq> (2 :: u32)" by (simp add: and.assoc)
qed

abbreviation set_dequeued :: "buffer \<Rightarrow> buffer" where
  "set_dequeued b \<equiv> b\<lparr>bflags := bflags b OR BUFFER_FLAG_DEQUEUED\<rparr>"

abbreviation clear_dequeued :: "buffer \<Rightarrow> buffer" where
  "clear_dequeued b \<equiv> b\<lparr>bflags := bflags b AND NOT BUFFER_FLAG_DEQUEUED\<rparr>"

lemma held_cong:
  "n_buffers s' = n_buffers s \<Longrightarrow> (\<And>i. i < unat (n_buffers s) \<Longrightarrow> dequeued_flag s' i = dequeued_flag s i) \<Longrightarrow>
     held s' = held s"
  unfolding held_def by (auto intro!: filter_cong)

lemma held_set:
  assumes "i < unat (n_buffers s)" "unat (n_buffers s) \<le> length (buffers s)" "\<not> dequeued_flag s i"
  shows "mset (held (set_buf s i set_dequeued)) = add_mset i (mset (held s))"
proof (rule multiset_eqI)
  fix x
  have "dequeued_flag (set_buf s i set_dequeued) x = (dequeued_flag s x \<or> x = i)"
    using assms by (cases "x = i") (simp_all add: flag_words)
  thus "count (mset (held (set_buf s i set_dequeued))) x = count (add_mset i (mset (held s))) x"
    using assms by (auto simp add: held_def count_filter_upt simp del: mset_filter)
qed

lemma held_clear:
  assumes "i < unat (n_buffers s)" "unat (n_buffers s) \<le> length (buffers s)" "dequeued_flag s i"
  shows "mset (held s) = add_mset i (mset (held (set_buf s i clear_dequeued)))"
proof (rule multiset_eqI)
  fix x
  have "dequeued_flag (set_buf s i clear_dequeued) x = (dequeued_flag s x \<and> x \<noteq> i)"
    using assms by (cases "x = i") (simp_all add: flag_words)
  thus "count (mset (held s)) x = count (add_mset i (mset (held (set_buf s i clear_dequeued)))) x"
    using assms by (auto simp add: held_def count_filter_upt simp del: mset_filter)
qed

lemma held_set_buf:
  assumes "unat (n_buffers s) \<le> length (buffers s)" "\<And>b. bflags (f b) = bflags b"
  shows "held (set_buf s i f) = held s"
proof (rule held_cong)
  fix j assume "j < unat (n_buffers s)"
  thus "dequeued_flag (set_buf s i f) j = dequeued_flag s j"
    using assms by (cases "j = i") simp_all
qed simp

lemma bufs_ok_set_buf [simp]:
  assumes "\<And>b. bid (f b) = bid b" shows "bufs_ok (set_buf s i f) = bufs_ok s"
proof -
  have "bid (buffers (set_buf s i f) ! j) = bid (buffers s ! j)" if "j < length (buffers s)" for j
    using assms that by (cases "j = i") simp_all
  thus ?thesis by (auto simp: bufs_ok_def)
qed

lemma bufs_okD: "bufs_ok s \<Longrightarrow> unat (n_buffers s) \<le> length (buffers s)"
  by (simp add: bufs_ok_def)

lemma own_invD:
  assumes "own_inv s peer"
  shows "set (qlist (dequeued s)) \<subseteq> {..<unat (n_buffers s)}"
    "set (qlist (queued s)) \<subseteq> {..<unat (n_buffers s)}"
    "length (qlist (dequeued s)) + length (held s) + length (qlist (queued s)) +
      length (io_ids s) + length peer = unat (n_buffers s)"
    "distinct (qlist (dequeued s) @ held s @ qlist (queued s) @ io_ids s @ peer)"
proof -
  have o: "owners s peer = mset [0..<unat (n_buffers s)]" using assms by (simp add: own_inv_def)
  have "set_mset (owners s peer) = {..<unat (n_buffers s)}"
    unfolding o by (simp add: atLeast0LessThan)
  thus "set (qlist (dequeued s)) \<subseteq> {..<unat (n_buffers s)}"
    "set (qlist (queued s)) \<subseteq> {..<unat (n_buffers s)}" by (auto simp: owners_def)
  have "mset (qlist (dequeued s) @ held s @ qlist (queued s) @ io_ids s @ peer) =
      mset [0..<unat (n_buffers s)]"
    using o by (simp add: owners_def ac_simps)
  thus "distinct (qlist (dequeued s) @ held s @ qlist (queued s) @ io_ids s @ peer)"
    using distinct_upt mset_eq_imp_distinct_iff by blast
  have "size (owners s peer) = unat (n_buffers s)" unfolding o by simp
  thus "length (qlist (dequeued s)) + length (held s) + length (qlist (queued s)) +
      length (io_ids s) + length peer = unat (n_buffers s)" by (simp add: owners_def)
qed

lemma own_inv_sizes:
  assumes "own_inv s peer"
  shows "unat (n_buffers s) \<le> 64" "bufs_ok s" "queue_ok (dequeued s)" "queue_ok (queued s)"
  using assms by (auto simp: own_inv_def bufs_ok_def)

text \<open>
  The dequeue loop: with every buffer owned once there is nothing to discard, and the loop takes
  the oldest entry. In general it never returns a buffer the application holds.
\<close>

lemma dequeue_loop_nil:
  assumes "queue_ok (dequeued s)" "qlist (dequeued s) = []"
  shows "dequeue_loop s = (None, s)"
  using queue_pop_empty [OF assms] by (subst dequeue_loop.simps) simp

lemma dequeue_loop_cons:
  assumes "queue_ok (dequeued s)" "qlist (dequeued s) = i # js" "\<not> dequeued_flag s i"
  obtains q where "dequeue_loop s = (Some i, s\<lparr>dequeued := q\<rparr>)" "queue_ok q" "qlist q = js"
proof -
  from queue_pop_abs [OF assms(1,2), of s] obtain q
    where q: "queue_pop s (dequeued s) = (Some i, q)" "queue_ok q" "qlist q = js" by blast
  have "dequeue_loop s = (Some i, s\<lparr>dequeued := q\<rparr>)"
    using q(1) assms(3) by (subst dequeue_loop.simps) (simp add: Let_def)
  thus thesis using that q by blast
qed

lemma dequeue_loop_not_held: "dequeue_loop s = (Some i, s') \<Longrightarrow> \<not> dequeued_flag s' i"
proof (induction s rule: dequeue_loop.induct)
  case (1 s)
  obtain r q where pop: "queue_pop s (dequeued s) = (r, q)" by fastforce
  show ?case
  proof (cases r)
    case None
    thus ?thesis using 1(2) pop by (subst (asm) dequeue_loop.simps) simp
  next
    case (Some j)
    show ?thesis
    proof (cases "dequeued_flag s j")
      case True
      thus ?thesis using 1(1) [OF pop [symmetric] Some refl] 1(2) pop Some
        by (subst (asm) (2) dequeue_loop.simps) (simp add: Let_def)
    next
      case False
      thus ?thesis using 1(2) pop Some by (subst (asm) dequeue_loop.simps) (auto simp: Let_def)
    qed
  qed
qed

lemma owners_cong:
  assumes "n_buffers s' = n_buffers s" "io s' = io s"
    "mset (qlist (dequeued s')) + mset (held s') + mset (qlist (queued s')) =
     mset (qlist (dequeued s)) + mset (held s) + mset (qlist (queued s))"
  shows "owners s' peer = owners s peer"
  unfolding owners_def io_ids_def assms(1,2) using assms(3) by simp

lemma own_inv_cong:
  assumes "own_inv s peer" "direction s' = direction s" "bufs_ok s'" "queue_ok (dequeued s')"
    "queue_ok (queued s')" "n_buffers s' = n_buffers s" "owners s' peer' = owners s peer"
  shows "own_inv s' peer'"
  using assms by (simp add: own_inv_def)

lemma held_dequeued [simp]: "held (s\<lparr>dequeued := q\<rparr>) = held s" "held (s\<lparr>queued := q\<rparr>) = held s"
  by (simp_all add: held_def)

lemma bufs_ok_queues [simp]:
  "bufs_ok (s\<lparr>dequeued := q\<rparr>) = bufs_ok s" "bufs_ok (s\<lparr>queued := q\<rparr>) = bufs_ok s"
  by (simp_all add: bufs_ok_def)

lemma not_held_dequeued:
  assumes "own_inv s peer" "i \<in> set (qlist (dequeued s))"
  shows "\<not> dequeued_flag s i" "i < unat (n_buffers s)"
proof -
  show "i < unat (n_buffers s)" using own_invD(1) [OF assms(1)] assms(2) by auto
  thus "\<not> dequeued_flag s i" using own_invD(4) [OF assms(1)] assms(2) by (auto simp: held_def)
qed

lemma take_buffer_own:
  assumes inv: "own_inv s peer" and dq: "qlist (dequeued s) = i # js"
    and q: "queue_ok q" "qlist q = js" and f: "\<And>b. bflags (f b) = bflags b" "\<And>b. bid (f b) = bid b"
  shows "own_inv (set_buf (set_buf (s\<lparr>dequeued := q\<rparr>) i f) i set_dequeued) peer"
proof (rule own_inv_cong [OF inv])
  let ?s = "set_buf (s\<lparr>dequeued := q\<rparr>) i f"
  note len = bufs_okD [OF own_inv_sizes(2) [OF inv]] and nh = not_held_dequeued [OF inv, of i]
  have h: "held ?s = held s" using held_set_buf [of "s\<lparr>dequeued := q\<rparr>" f i] len f by simp
  have "\<not> dequeued_flag ?s i" using nh dq len f by simp
  hence "mset (held (set_buf ?s i set_dequeued)) = add_mset i (mset (held s))"
    using held_set [of i ?s] nh dq len h by simp
  thus "owners (set_buf ?s i set_dequeued) peer = owners s peer"
    using dq q by (intro owners_cong) simp_all
qed (use own_inv_sizes [OF inv] q f in simp_all)

lemma rotate_own:
  assumes inv: "own_inv s peer" and dq: "qlist (dequeued s) = i # js"
    and q: "queue_ok q" "qlist q = js" and f: "\<And>b. bflags (f b) = bflags b" "\<And>b. bid (f b) = bid b"
  shows "own_inv (set_buf (s\<lparr>dequeued := q\<rparr>) i f\<lparr>dequeued :=
    push_id (set_buf (s\<lparr>dequeued := q\<rparr>) i f) i q\<rparr>) peer"
proof -
  let ?s = "set_buf (s\<lparr>dequeued := q\<rparr>) i f"
  note sz = own_inv_sizes [OF inv] and nh = not_held_dequeued [OF inv, of i]
  have "length js < 64" using own_invD(3) [OF inv] sz(1) dq by simp
  hence p: "queue_ok (push_id ?s i q)" "qlist (push_id ?s i q) = js @ [i]"
    using push_id_abs [of q ?s i] q f sz nh dq by simp_all
  have h: "held ?s = held s"
    using held_set_buf [of "s\<lparr>dequeued := q\<rparr>" f i] bufs_okD [OF sz(2)] f by simp
  show ?thesis
  proof (rule own_inv_cong [OF inv])
    show "owners (?s\<lparr>dequeued := push_id ?s i q\<rparr>) peer = owners s peer"
      using p h dq by (intro owners_cong) simp_all
  qed (use sz p f in simp_all)
qed

lemma push_case:
  "(case queue_push (set_buf (s\<lparr>dequeued := q\<rparr>) i f) q b of
      Inl _ \<Rightarrow> set_buf (s\<lparr>dequeued := q\<rparr>) i f
    | Inr q' \<Rightarrow> set_buf (s\<lparr>dequeued := q\<rparr>) i f\<lparr>dequeued := q'\<rparr>) =
   set_buf (s\<lparr>dequeued := q\<rparr>) i f\<lparr>dequeued :=
     (case queue_push (set_buf (s\<lparr>dequeued := q\<rparr>) i f) q b of Inl _ \<Rightarrow> q | Inr q' \<Rightarrow> q')\<rparr>"
  by (auto simp: set_buf_def split: sum.splits)

lemma dequeue_own:
  assumes inv: "own_inv s peer"
  shows "own_inv (snd (pw_stream_dequeue_buffer s)) peer"
proof (cases "qlist (dequeued s)")
  case Nil
  thus ?thesis using inv dequeue_loop_nil own_inv_sizes(3) [OF inv]
    by (simp add: pw_stream_dequeue_buffer_def)
next
  case (Cons i js)
  note nh = not_held_dequeued [OF inv, of i] and sz = own_inv_sizes [OF inv]
  obtain q where q: "dequeue_loop s = (Some i, s\<lparr>dequeued := q\<rparr>)" "queue_ok q" "qlist q = js"
    using dequeue_loop_cons [OF sz(3) Cons] nh Cons by auto
  let ?f = "\<lambda>b. busy_dec (busy_inc b)"
  have len: "i < length (buffers s)" using nh(2) Cons bufs_okD [OF sz(2)] by simp
  have t: "own_inv (set_buf (set_buf (s\<lparr>dequeued := q\<rparr>) i g) i set_dequeued) peer"
    if "\<And>b. bflags (g b) = bflags b" "\<And>b. bid (g b) = bid b" for g
    using take_buffer_own [OF inv Cons q(2,3), of g] that by blast
  have id: "set_buf s' i (\<lambda>b. b) = s'" for s' by (simp add: set_buf_def)
  have ff: "set_buf (set_buf (s\<lparr>dequeued := q\<rparr>) i busy_inc) i busy_dec = set_buf (s\<lparr>dequeued := q\<rparr>) i ?f"
    using len by (simp add: set_buf_def)
  have "own_inv (case queue_push (set_buf (s\<lparr>dequeued := q\<rparr>) i ?f) q (buffers (set_buf (s\<lparr>dequeued := q\<rparr>) i ?f) ! i) of
      Inl _ \<Rightarrow> set_buf (s\<lparr>dequeued := q\<rparr>) i ?f
    | Inr q' \<Rightarrow> set_buf (s\<lparr>dequeued := q\<rparr>) i ?f\<lparr>dequeued := q'\<rparr>) peer"
    unfolding push_case push_id_def [symmetric] by (rule rotate_own [OF inv Cons q(2,3)]) simp_all
  thus ?thesis
    using inv t [of busy_inc] t [of "\<lambda>b. b"]
    by (auto simp: pw_stream_dequeue_buffer_def q(1) Let_def ff id)
qed

lemma released:
  assumes inv: "own_inv s peer" and i: "i < unat (n_buffers s)" "dequeued_flag s i"
    and g: "\<And>b. bflags (g b) = bflags b" "\<And>b. bid (g b) = bid b"
  defines "s' \<equiv> set_buf (set_buf s i clear_dequeued) i g"
  shows "mset (held s) = add_mset i (mset (held s'))" "bufs_ok s'" "i < unat (n_buffers s')"
    "length (qlist (dequeued s')) < 64" "length (qlist (queued s')) < 64"
proof -
  note sz = own_inv_sizes [OF inv] and len = bufs_okD [OF own_inv_sizes(2) [OF inv]]
  have "held s' = held (set_buf s i clear_dequeued)"
    unfolding s'_def using len g by (intro held_set_buf) simp_all
  thus h: "mset (held s) = add_mset i (mset (held s'))" using held_clear [OF i(1) len i(2)] by simp
  show "bufs_ok s'" "i < unat (n_buffers s')" using sz g i by (simp_all add: s'_def)
  have "size (mset (held s)) = Suc (length (held s'))" unfolding h by simp
  hence "1 \<le> length (held s)" by simp
  hence "length (qlist (dequeued s)) < 64" "length (qlist (queued s)) < 64"
    using own_invD(3) [OF inv] sz(1) by linarith+
  thus "length (qlist (dequeued s')) < 64" "length (qlist (queued s')) < 64" by (simp_all add: s'_def)
qed

lemma own_inv_ext:
  assumes "direction s' = direction s" "buffers s' = buffers s" "n_buffers s' = n_buffers s"
    "dequeued s' = dequeued s" "queued s' = queued s" "io s' = io s"
  shows "own_inv s' peer = own_inv s peer"
  by (simp only: own_inv_def bufs_ok_def owners_def held_def io_ids_def assms)

lemma own_inv_triggers [simp]: "own_inv (s\<lparr>triggers := n\<rparr>) peer = own_inv s peer"
  by (rule own_inv_ext) simp_all

lemma queue_own:
  assumes inv: "own_inv s peer" and i: "i < unat (n_buffers s)"
  shows "own_inv (snd (pw_stream_queue_buffer s i)) peer"
proof (cases "dequeued_flag s i")
  case False
  thus ?thesis using inv by (simp add: pw_stream_queue_buffer_def)
next
  case True
  define s' where "s' = set_buf (set_buf s i clear_dequeued) i busy_dec"
  note r = released [OF inv i True, of busy_dec, folded s'_def, simplified] and sz = own_inv_sizes [OF inv]
  have q: "queue_ok (queued s')" using sz by (simp add: s'_def)
  obtain q where q: "queue_push s' (queued s') (buffers s' ! i) = Inr q" "queue_ok q"
    "qlist q = qlist (queued s') @ [i]"
    using queue_push_abs [OF q r(5) bid_less(1) [OF r(2,3)]] bid_less(2) [OF r(2,3)] by metis
  have "own_inv (s'\<lparr>queued := q\<rparr>) peer"
  proof (rule own_inv_cong [OF inv])
    show "owners (s'\<lparr>queued := q\<rparr>) peer = owners s peer"
      using r(1) q(3) by (intro owners_cong) (simp_all add: s'_def)
  qed (use sz r q in \<open>simp_all add: s'_def\<close>)
  thus ?thesis unfolding pw_stream_queue_buffer_def Let_def s'_def [symmetric]
    using True q(1) by simp
qed

lemma return_own:
  assumes inv: "own_inv s peer" and i: "i < unat (n_buffers s)"
  shows "own_inv (snd (pw_stream_return_buffer s i)) peer"
proof (cases "dequeued_flag s i")
  case False
  thus ?thesis using inv by (simp add: pw_stream_return_buffer_def)
next
  case True
  have out: "direction s = SPA_DIRECTION_OUTPUT" using inv by (simp add: own_inv_def)
  define s' where "s' = set_buf (set_buf s i clear_dequeued) i busy_dec"
  note r = released [OF inv i True, of busy_dec, folded s'_def, simplified] and sz = own_inv_sizes [OF inv]
  have q: "queue_ok (dequeued s')" using sz by (simp add: s'_def)
  obtain q where q: "queue_push_front (dequeued s') (buffers s' ! i) = (int (length (qlist (dequeued s'))), q)"
    "queue_ok q" "qlist q = i # qlist (dequeued s')"
    using queue_push_front_abs [OF q r(4)] bid_less(2) [OF r(2,3)] by metis
  have "own_inv (s'\<lparr>dequeued := q\<rparr>) peer"
  proof (rule own_inv_cong [OF inv])
    show "owners (s'\<lparr>dequeued := q\<rparr>) peer = owners s peer"
      using r(1) q(3) by (intro owners_cong) (simp_all add: s'_def)
  qed (use sz r q in \<open>simp_all add: s'_def\<close>)
  moreover have "(if direction (set_buf s i clear_dequeued) = SPA_DIRECTION_OUTPUT
      then set_buf (set_buf s i clear_dequeued) i busy_dec else set_buf s i clear_dequeued) = s'"
    using out by (simp add: s'_def)
  ultimately show ?thesis unfolding pw_stream_return_buffer_def Let_def
    using True q(1) by simp
qed

text \<open>
  The application between two calls of the loop: any sequence of calls on its buffers, setting
  the size of one, and \<^verbatim>\<open>pw_stream_flush\<close>.
\<close>

datatype app_op = AppDequeue | AppQueue nat | AppReturn nat | AppSize nat u64 | AppFlush | AppDrain

fun app_do :: "app_op \<Rightarrow> stream \<Rightarrow> stream" where
  "app_do AppDequeue s = snd (pw_stream_dequeue_buffer s)"
| "app_do (AppQueue i) s = (if i < unat (n_buffers s) then snd (pw_stream_queue_buffer s i) else s)"
| "app_do (AppReturn i) s = (if i < unat (n_buffers s) then snd (pw_stream_return_buffer s i) else s)"
| "app_do (AppSize i n) s = (if i < unat (n_buffers s) then set_buf s i (\<lambda>b. b\<lparr>bsize := n\<rparr>) else s)"
| "app_do AppFlush s = do_flush s"
| "app_do AppDrain s = do_drain s"

definition app_run :: "(stream \<Rightarrow> app_op list) \<Rightarrow> stream \<Rightarrow> stream" where
  "app_run script s = fold app_do (script s) s"

lemma set_buf_own:
  assumes "own_inv s peer" "\<And>b. bflags (f b) = bflags b" "\<And>b. bid (f b) = bid b"
  shows "own_inv (set_buf s i f) peer"
proof (rule own_inv_cong [OF assms(1)])
  show "owners (set_buf s i f) peer = owners s peer"
    using held_set_buf [of s f i] bufs_okD [OF own_inv_sizes(2) [OF assms(1)]] assms(2)
    by (intro owners_cong) simp_all
qed (use own_inv_sizes [OF assms(1)] assms(2,3) in simp_all)

lemma qlist_counts [simp]:
  "qlist (q\<lparr>incount := a, outcount := b\<rparr>) = qlist q" "queue_ok (q\<lparr>incount := a, outcount := b\<rparr>) = queue_ok q"
  by (simp_all add: qlist_def queue_ok_def)

lemma flush_own:
  assumes inv: "own_inv s peer" shows "own_inv (do_flush s) peer"
proof -
  note sz = own_inv_sizes [OF inv]
  have out: "direction s = SPA_DIRECTION_OUTPUT" using inv by (simp add: own_inv_def)
  have "\<forall>i\<in>set (qlist (queued s)). bufs_ok s \<and> i < unat (n_buffers s)"
    using own_invD(2) [OF inv] sz(2) by auto
  moreover have "length (qlist (queued s)) + length (qlist (dequeued s)) \<le> 64"
    using own_invD(3) [OF inv] sz(1) by linarith
  ultimately obtain f t where m: "flush_loop s (queued s) (dequeued s) = (f, t)" "queue_ok f" "queue_ok t"
    "qlist f = []" "qlist t = qlist (dequeued s) @ qlist (queued s)"
    using sq.move_all [OF sz(4,3)] by blast
  show ?thesis
  proof (rule own_inv_cong [OF inv])
    show "owners (do_flush s) peer = owners s peer"
      using m out by (intro owners_cong) (simp_all add: do_flush_def held_def)
  qed (use sz m out in \<open>simp_all add: do_flush_def bufs_ok_def\<close>)
qed

lemma drain_own: "own_inv s peer \<Longrightarrow> own_inv (do_drain s) peer"
  by (subst own_inv_ext [of _ s]) (simp_all add: do_drain_def)

lemma app_do_own: "own_inv s peer \<Longrightarrow> own_inv (app_do a s) peer"
  by (cases a) (simp_all add: dequeue_own queue_own return_own set_buf_own flush_own drain_own)

lemma app_run_own: "own_inv s peer \<Longrightarrow> own_inv (app_run script s) peer"
proof -
  have "own_inv s peer \<Longrightarrow> own_inv (fold app_do ops s) peer" for ops s
    by (induction ops arbitrary: s) (simp_all add: app_do_own)
  thus "own_inv s peer \<Longrightarrow> own_inv (app_run script s) peer" by (simp add: app_run_def)
qed

lemma call_process_own:
  assumes "own_inv s peer" shows "own_inv (call_process (app_run script) s) peer"
  using assms set_buf_own [OF assms]
  by (auto simp: call_process_def update_requested_def app_run_own split: prod.splits)

lemma copy_position_simps [simp]:
  "direction (copy_position s n) = direction s" "buffers (copy_position s n) = buffers s"
  "n_buffers (copy_position s n) = n_buffers s" "dequeued (copy_position s n) = dequeued s"
  "queued (copy_position s n) = queued s" "io (copy_position s n) = io s"
  "draining (copy_position s n) = draining s" "drained (copy_position s n) = drained s"
  "node_driving (copy_position s n) = node_driving s" "using_trigger (copy_position s n) = using_trigger s"
  by (simp_all add: copy_position_def Let_def split: option.split)

lemma copy_position_own [simp]: "own_inv (copy_position s n) peer = own_inv s peer"
  by (rule own_inv_ext) simp_all

lemma push_dequeued_eq: "snd (push_dequeued s i) = s\<lparr>dequeued := push_id s i (dequeued s)\<rparr>"
  by (simp add: push_dequeued_def push_id_def split: sum.split)

lemma invalid_id [simp]: "\<not> (SPA_ID_INVALID < n)" "get_buffer s SPA_ID_INVALID = None"
  using unat_lt_32 [of n] unat_lt_32 [of "n_buffers s"] by (simp_all add: word_less_unat get_buffer_def)

definition recycled :: "spa_io_buffers \<Rightarrow> stream \<Rightarrow> stream" where
  "recycled b s = (case get_buffer s (buffer_id b) of None \<Rightarrow> s | Some i \<Rightarrow> snd (push_dequeued s i))"

text \<open>Recycling the buffer of the io area moves it to the dequeued ring.\<close>

lemma recycled_own:
  assumes inv: "own_inv s peer" and b: "io s = Some b"
  shows "own_inv (recycled b s\<lparr>io := Some \<lparr>status = st, buffer_id = SPA_ID_INVALID\<rparr>\<rparr>) peer"
    and "queued (recycled b s) = queued s" "buffers (recycled b s) = buffers s"
    "n_buffers (recycled b s) = n_buffers s"
proof -
  note sz = own_inv_sizes [OF inv]
  show "queued (recycled b s) = queued s" "buffers (recycled b s) = buffers s"
    "n_buffers (recycled b s) = n_buffers s"
    by (auto simp: recycled_def push_dequeued_eq split: option.split)
  show "own_inv (recycled b s\<lparr>io := Some \<lparr>status = st, buffer_id = SPA_ID_INVALID\<rparr>\<rparr>) peer"
  proof (cases "buffer_id b < n_buffers s")
    case True
    let ?i = "unat (buffer_id b)"
    have i: "?i < unat (n_buffers s)" using True by (simp add: word_less_unat)
    have ids: "io_ids s = [?i]" using b True by (simp add: io_ids_def)
    have "length (qlist (dequeued s)) < 64" using own_invD(3) [OF inv] sz(1) ids by simp
    hence p: "queue_ok (push_id s ?i (dequeued s))" "qlist (push_id s ?i (dequeued s)) = qlist (dequeued s) @ [?i]"
      using push_id_abs [OF sz(3,2) i] by simp_all
    have r: "recycled b s = s\<lparr>dequeued := push_id s ?i (dequeued s)\<rparr>"
      using True by (simp add: recycled_def get_buffer_def push_dequeued_eq)
    show ?thesis
    proof (rule own_inv_cong [OF inv])
      show "owners (recycled b s\<lparr>io := Some \<lparr>status = st, buffer_id = SPA_ID_INVALID\<rparr>\<rparr>) peer = owners s peer"
        using p ids by (simp add: r owners_def held_def io_ids_def)
    qed (use sz p in \<open>simp_all add: r bufs_ok_def\<close>)
  next
    case False
    hence "recycled b s = s" "io_ids s = []" using b by (simp_all add: recycled_def get_buffer_def io_ids_def)
    thus ?thesis using inv by (simp add: own_inv_def owners_def held_def io_ids_def bufs_ok_def)
  qed
qed

lemma pop_to_io_own:
  assumes inv: "own_inv (s\<lparr>io := Some \<lparr>status = st, buffer_id = SPA_ID_INVALID\<rparr>\<rparr>) peer"
    and pop: "queue_pop s (queued s) = (Some i, q)"
  shows "own_inv (s\<lparr>queued := q, io := Some \<lparr>status = st', buffer_id = bid (buffers s ! i)\<rparr>\<rparr>) peer"
proof -
  let ?s = "s\<lparr>io := Some \<lparr>status = st, buffer_id = SPA_ID_INVALID\<rparr>\<rparr>"
  note sz = own_inv_sizes [OF inv, simplified]
  obtain js where js: "qlist (queued s) = i # js" "queue_ok q" "qlist q = js"
  proof (cases "qlist (queued s)")
    case Nil
    thus ?thesis using queue_pop_empty [OF sz(4)] pop by simp
  next
    case (Cons j js)
    then obtain q' where "queue_pop s (queued s) = (Some j, q')" "queue_ok q'" "qlist q' = js"
      using queue_pop_abs [OF sz(4) Cons] by blast
    thus ?thesis using that Cons pop by simp
  qed
  have i: "i < unat (n_buffers s)" using own_invD(2) [OF inv] js(1) by simp
  have ok: "bufs_ok s" using sz(2) by (simp add: bufs_ok_def)
  show ?thesis
  proof (rule own_inv_cong [OF inv])
    show "owners (s\<lparr>queued := q, io := Some \<lparr>status = st', buffer_id = bid (buffers s ! i)\<rparr>\<rparr>) peer =
        owners ?s peer"
      using js bid_less [OF ok i] by (simp add: owners_def held_def io_ids_def)
  qed (use sz js in \<open>simp_all add: bufs_ok_def\<close>)
qed

lemma own_inv_drain_flags [simp]:
  "own_inv (s\<lparr>drained := a, io := v\<rparr>) peer = own_inv (s\<lparr>io := v\<rparr>) peer"
  "own_inv (s\<lparr>queued := q, drained := a, io := v\<rparr>) peer = own_inv (s\<lparr>queued := q, io := v\<rparr>) peer"
  "own_inv (s\<lparr>draining := b, drained := a, io := v\<rparr>) peer = own_inv (s\<lparr>io := v\<rparr>) peer"
  by (rule own_inv_ext; simp)+

lemma exchange_cases:
  assumes "status b \<noteq> SPA_STATUS_HAVE_DATA"
  shows "snd (snd (process_output_exchange b driver_end s)) =
    (case (if driver_end then (None, queued s) else queue_pop (recycled b s) (queued s)) of
       (Some i, q) \<Rightarrow> recycled b s\<lparr>queued := q, drained := False,
          io := Some \<lparr>status = SPA_STATUS_HAVE_DATA, buffer_id = bid (buffers s ! i)\<rparr>\<rparr>
     | (None, q) \<Rightarrow>
         if draining s \<or> drained s then recycled b s\<lparr>queued := q, draining := True, drained := True,
             io := Some \<lparr>status = SPA_STATUS_DRAINED, buffer_id = SPA_ID_INVALID\<rparr>\<rparr>
         else recycled b s\<lparr>queued := q,
             io := Some \<lparr>status = SPA_STATUS_NEED_DATA, buffer_id = SPA_ID_INVALID\<rparr>\<rparr>)"
proof -
  define a where "a = (case get_buffer s (buffer_id b) of None \<Rightarrow> False | Some i \<Rightarrow> early_process s)"
  have r: "(case get_buffer s (buffer_id b) of None \<Rightarrow> (False, s)
      | Some i \<Rightarrow> (early_process s, snd (push_dequeued s i))) = (a, recycled b s)"
    by (simp add: a_def recycled_def split: option.split)
  have same: "queued (recycled b s) = queued s" "buffers (recycled b s) = buffers s"
    "draining (recycled b s) = draining s" "drained (recycled b s) = drained s"
    by (simp_all add: recycled_def push_dequeued_eq split: option.split)
  obtain x q where x: "(if driver_end then (None, queued s) else queue_pop (recycled b s) (queued s)) = (x, q)"
    by fastforce
  show ?thesis
    unfolding process_output_exchange_def r prod.case Let_def same x using assms
    by (cases x) (simp_all add: same)
qed

lemma queue_pop_None: "queue_pop s q = (None, q') \<Longrightarrow> q' = q"
  by (auto simp: queue_pop_def Let_def split: prod.splits if_splits)

lemma exchange_own:
  assumes inv: "own_inv s peer" and b: "io s = Some b"
  shows "own_inv (snd (snd (process_output_exchange b driver_end s))) peer"
proof (cases "status b = SPA_STATUS_HAVE_DATA")
  case True
  thus ?thesis using inv by (simp add: process_output_exchange_def)
next
  case False
  note r = recycled_own [OF inv b]
  have n: "own_inv (recycled b s\<lparr>queued := queued s, io := Some \<lparr>status = st, buffer_id = SPA_ID_INVALID\<rparr>\<rparr>) peer"
    for st
    by (subst own_inv_ext [of _ "recycled b s\<lparr>io := Some \<lparr>status = st, buffer_id = SPA_ID_INVALID\<rparr>\<rparr>"])
      (simp_all add: r)
  have d: "own_inv (recycled b s\<lparr>queued := queued s, draining := True, drained := True,
      io := Some \<lparr>status = st, buffer_id = SPA_ID_INVALID\<rparr>\<rparr>) peer" for st
    by (subst own_inv_ext [of _ "recycled b s\<lparr>io := Some \<lparr>status = st, buffer_id = SPA_ID_INVALID\<rparr>\<rparr>"])
      (simp_all add: r)
  have p: "own_inv (recycled b s\<lparr>queued := q, io := Some \<lparr>status = SPA_STATUS_HAVE_DATA,
      buffer_id = bid (buffers s ! i)\<rparr>\<rparr>) peer"
    if "queue_pop (recycled b s) (queued s) = (Some i, q)" for i q
    using pop_to_io_own [OF r(1), of i q SPA_STATUS_HAVE_DATA] that r(2,3) by simp
  show ?thesis
    unfolding exchange_cases [OF False]
    using p n d by (auto split: prod.split option.split dest: queue_pop_None)
qed

lemma process_output_own:
  "process_output_loop fuel (app_run script) s = Some (r, s') \<Longrightarrow> own_inv s peer \<Longrightarrow> own_inv s' peer"
proof (induction fuel arbitrary: s)
  case 0
  thus ?case by simp
next
  case (Suc fuel)
  obtain b where b: "io s = Some b" using Suc(2) by (cases "io s") simp_all
  obtain res ask s1 where ex: "process_output_exchange b (node_driving s \<and> in_trigger s = 0) s = (res, ask, s1)"
    by (metis prod_cases3)
  have own1: "own_inv s1 peer" using exchange_own [OF Suc(3) b] ex by (metis snd_conv)
  define s2 where "s2 = copy_position s1 (outcount (queued s1))"
  have own2: "own_inv s2 peer" using own1 by (simp add: s2_def)
  note own3 = call_process_own [OF own2]
  have td: "own_inv (call_trigger_done t) peer = own_inv t peer" for t
    by (rule own_inv_ext) (simp_all add: call_trigger_done_def)
  show ?case
    using Suc(2) Suc(1) [OF _ own2] Suc(1) [OF _ own3] own2 own3
    by (auto simp: b ex Let_def td simp flip: s2_def split: if_splits)
qed

section \<open>The process loop makes at most two passes\<close>

lemma dequeue_loop_keeps:
  "io (snd (dequeue_loop s)) = io s \<and> node_driving (snd (dequeue_loop s)) = node_driving s \<and>
   direction (snd (dequeue_loop s)) = direction s"
proof (induction s rule: dequeue_loop.induct)
  case (1 s)
  show ?case
    using 1 by (subst (1 2 3) dequeue_loop.simps) (auto simp: Let_def split: prod.split option.split)
qed

abbreviation keeps :: "stream \<Rightarrow> stream \<Rightarrow> bool" where
  "keeps s s' \<equiv> io s' = io s \<and> node_driving s' = node_driving s"

lemma dequeue_keeps: "keeps s (snd (pw_stream_dequeue_buffer s))"
proof -
  obtain r t where l: "dequeue_loop s = (r, t)" by fastforce
  hence k: "keeps s t" using dequeue_loop_keeps [of s] by simp
  have q: "keeps t (case x of Inl (_ :: errno) \<Rightarrow> set_buf (set_buf t i f) i g
      | Inr q \<Rightarrow> set_buf (set_buf t i f) i g\<lparr>dequeued := q\<rparr>)" for x i f g
    by (cases x) simp_all
  show ?thesis
    unfolding pw_stream_dequeue_buffer_def l prod.case Let_def
    using k q by (cases r) (simp_all only: option.case split: if_split, simp_all)
qed

lemma queue_keeps: "keeps s (snd (pw_stream_queue_buffer s i))"
  unfolding pw_stream_queue_buffer_def Let_def by (simp split: sum.split)

lemma return_keeps: "keeps s (snd (pw_stream_return_buffer s i))"
  unfolding pw_stream_return_buffer_def Let_def by (simp split: prod.split)

lemma flush_keeps: "keeps s (do_flush s)"
  unfolding do_flush_def Let_def by (simp split: prod.split)

lemma app_do_keeps: "keeps s (app_do a s)"
  by (cases a) (simp_all add: dequeue_keeps queue_keeps return_keeps flush_keeps do_drain_def)

lemma call_process_keeps:
  "io (call_process (app_run script) s) = io s \<and>
   node_driving (call_process (app_run script) s) = node_driving s"
proof -
  have "io (fold app_do ops t) = io t \<and> node_driving (fold app_do ops t) = node_driving t" for ops t
    by (induction ops arbitrary: t) (simp_all add: app_do_keeps)
  thus ?thesis
    by (auto simp: call_process_def app_run_def update_requested_def Let_def split: prod.split)
qed

lemma queue_pop_is_empty: "fst (queue_pop s q) = None \<longleftrightarrow> queue_is_empty q"
  by (simp add: queue_pop_def queue_is_empty_def Let_def split: prod.split)

text \<open>
  A pass that asks for more left either data or nothing in the io area; the next pass then keeps
  the data, finds a queued buffer, or finds the stream draining, and asks for nothing.
\<close>

lemma exchange_asks:
  assumes "process_output_exchange b False s = (res, True, s')" "\<not> draining s'"
  shows "\<exists>c. io s' = Some c \<and> (status c = SPA_STATUS_HAVE_DATA \<or>
    status c = SPA_STATUS_NEED_DATA \<and> buffer_id c = SPA_ID_INVALID)"
  using assms
  by (auto simp: process_output_exchange_def Let_def split: if_splits prod.splits option.splits)

lemma exchange_second:
  assumes "status c = SPA_STATUS_HAVE_DATA \<or> status c = SPA_STATUS_NEED_DATA \<and> buffer_id c = SPA_ID_INVALID"
    "draining s \<or> \<not> queue_is_empty (queued s)"
    "process_output_exchange c False s = (res, ask, s')"
  shows "\<not> (\<not> draining s' \<and> ask)"
  using assms queue_pop_is_empty [of s "queued s"]
  by (auto simp: process_output_exchange_def Let_def split: if_splits prod.splits option.splits)

lemma last_pass:
  assumes "io s = Some c" "\<not> node_driving s" "draining s \<or> \<not> queue_is_empty (queued s)"
    "status c = SPA_STATUS_HAVE_DATA \<or> status c = SPA_STATUS_NEED_DATA \<and> buffer_id c = SPA_ID_INVALID"
  shows "\<exists>r s'. process_output_loop (Suc n) process s = Some (r, s')"
proof -
  obtain res ask s1 where ex: "process_output_exchange c False s = (res, ask, s1)" by (metis prod_cases3)
  from exchange_second [OF assms(4,3) ex] show ?thesis by (auto simp: assms(1,2) ex Let_def)
qed

lemma process_output_pass:
  assumes "io s = Some b"
    "process_output_exchange b (node_driving s \<and> in_trigger s = 0) s = (res, ask, s1)"
  shows "process_output_loop (Suc n) process s =
    (let s2 = copy_position s1 (outcount (queued s1)); s3 = call_process process s2
     in if (\<not> draining s1 \<and> \<not> node_driving s1 \<and> ask) \<and> (draining s3 \<or> \<not> queue_is_empty (queued s3))
        then process_output_loop n process s3
        else let s4 = (if \<not> draining s1 \<and> \<not> node_driving s1 \<and> ask then s3 else s2)
             in Some (res, if (node_driving s \<and> in_trigger s = 0) \<and> using_trigger s4
                           then call_trigger_done s4 else s4))"
  by (simp add: assms Let_def)

lemma process_output_two:
  assumes "io s = Some b"
  shows "\<exists>r s'. process_output_loop 2 (app_run script) s = Some (r, s')"
proof -
  obtain res ask s1 where ex: "process_output_exchange b (node_driving s \<and> in_trigger s = 0) s = (res, ask, s1)"
    by (metis prod_cases3)
  define s2 where "s2 = copy_position s1 (outcount (queued s1))"
  define s3 where "s3 = call_process (app_run script) s2"
  note k = call_process_keeps [of script s2, folded s3_def]
  have nd: "node_driving s1 = node_driving s"
    using ex by (auto simp: process_output_exchange_def Let_def push_dequeued_eq
      split: if_splits prod.splits option.splits)
  have "\<exists>r s'. process_output_loop (Suc 0) (app_run script) s3 = Some (r, s')"
    if "\<not> draining s1" "\<not> node_driving s1" "ask" "draining s3 \<or> \<not> queue_is_empty (queued s3)"
  proof -
    from exchange_asks [of b s res s1] ex that nd obtain c where
      "io s1 = Some c" "status c = SPA_STATUS_HAVE_DATA \<or>
        status c = SPA_STATUS_NEED_DATA \<and> buffer_id c = SPA_ID_INVALID" by auto
    thus ?thesis using last_pass [of s3 c 0] k that by (simp add: s2_def)
  qed
  thus ?thesis
    unfolding numeral_2_eq_2 process_output_pass [OF assms ex] Let_def s2_def [symmetric] s3_def [symmetric]
    by (auto simp del: process_output_loop.simps)
qed

section \<open>Configured streams\<close>

lemma or_and_2: "(x OR 1) AND 2 = x AND (2 :: u32)" "(x OR 4) AND 2 = x AND (2 :: u32)"
  by (simp_all add: bit.conj_disj_distrib2)

lemma use_datas_flags:
  "use_datas map_data ds sz fl = (r, ds', sz', fl') \<Longrightarrow> fl' AND 2 = fl AND 2"
  by (induction ds arbitrary: sz fl r ds' sz' fl')
    (auto simp: Let_def or_and_2 split: if_splits sum.splits prod.splits)

lemma use_buffers_map_result:
  assumes "use_buffers_map map_data i s sbs sz = (Inr u, s', sbs')" "i + length sbs \<le> length (buffers s)"
  shows "length sbs' = length sbs \<and> (\<exists>bs. s' = s\<lparr>buffers := bs\<rparr> \<and> length bs = length (buffers s) \<and>
    (\<forall>j<i. bs ! j = buffers s ! j) \<and>
    (\<forall>j. i \<le> j \<and> j < i + length sbs \<longrightarrow> bid (bs ! j) = of_nat j \<and> bflags (bs ! j) AND 2 \<noteq> 2))"
  using assms
proof (induction sbs arbitrary: i s sz s' sbs')
  case Nil
  thus ?case by (auto intro: exI [of _ "buffers s"])
next
  case (Cons sb sbs)
  let ?s = "set_buf s i (\<lambda>b. b\<lparr>bflags := 0, bid := of_nat i\<rparr>)"
  obtain r ds bsz fl where d: "use_datas map_data (sb_datas sb) 0 0 = (r, ds, bsz, fl)"
    by (metis prod_cases4)
  have fl: "fl AND 2 = 0" using use_datas_flags [OF d] by simp
  define s1 where "s1 = (if map_buffers s then set_buf ?s i (\<lambda>b. b\<lparr>bflags := fl\<rparr>) else ?s)"
  obtain sz' sbs1 where rec: "use_buffers_map map_data (Suc i) s1 sbs sz' = (Inr u, s', sbs1)"
    and l: "length sbs' = Suc (length sbs1)"
    using Cons(2) d
    by (auto simp: Let_def s1_def set_buf_def split: if_splits sum.splits prod.splits)
  have b1: "length (buffers s1) = length (buffers s)" "bid (buffers s1 ! i) = of_nat i"
    "bflags (buffers s1 ! i) AND 2 \<noteq> 2" "\<forall>j. j \<noteq> i \<longrightarrow> buffers s1 ! j = buffers s ! j"
    using Cons(3) fl by (simp_all add: s1_def)
  have "Suc i + length sbs \<le> length (buffers s1)" using Cons(3) b1(1) by simp
  from Cons(1) [OF rec this] obtain bs where bs: "length sbs1 = length sbs" "s' = s1\<lparr>buffers := bs\<rparr>"
    "length bs = length (buffers s1)" "\<forall>j<Suc i. bs ! j = buffers s1 ! j"
    "\<forall>j. Suc i \<le> j \<and> j < Suc i + length sbs \<longrightarrow> bid (bs ! j) = of_nat j \<and> bflags (bs ! j) AND 2 \<noteq> 2"
    by blast
  have "s' = s\<lparr>buffers := bs\<rparr>" using bs(2) by (simp add: s1_def set_buf_def)
  moreover have "bid (bs ! j) = of_nat j \<and> bflags (bs ! j) AND 2 \<noteq> 2"
    if "i \<le> j \<and> j < i + length (sb # sbs)" for j
  proof (cases "j = i")
    case True
    thus ?thesis using bs(4) b1 by simp
  next
    case False
    hence "Suc i \<le> j \<and> j < Suc i + length sbs" using that by simp
    thus ?thesis using bs(5) by blast
  qed
  ultimately show ?case using bs(1,3,4) b1 l by (auto intro!: exI [of _ bs])
qed

lemma use_buffers_add_result:
  assumes "direction s = SPA_DIRECTION_OUTPUT" "bufs_ok s" "queue_ok (dequeued s)"
    "qlist (dequeued s) = [0..<i]" "i + length sbs \<le> unat (n_buffers s)"
  shows "let s' = use_buffers_add i s sbs in direction s' = direction s \<and> bufs_ok s' \<and>
    queue_ok (dequeued s') \<and> qlist (dequeued s') = [0..<i + length sbs] \<and> queued s' = queued s \<and>
    io s' = io s \<and> n_buffers s' = n_buffers s \<and> held s' = held s"
  using assms
proof (induction sbs arbitrary: i s)
  case Nil
  thus ?case by simp
next
  case (Cons sb sbs)
  define s1 where "s1 = set_buf s i (\<lambda>b. b\<lparr>bbuffer := sb, bbusy := sb_busy sb\<rparr>)"
  define s2 where "s2 = s1\<lparr>dequeued := push_id s1 i (dequeued s1)\<rparr>"
  define s3 where "s3 = set_buf s2 i (\<lambda>b. b\<lparr>bflags := bflags b OR BUFFER_FLAG_ADDED\<rparr>)"
  have run: "use_buffers_add i s (sb # sbs) = use_buffers_add (Suc i) s3 sbs"
    using Cons(2) by (simp add: Let_def s1_def s2_def s3_def push_dequeued_eq)
  have i: "i < unat (n_buffers s)" "i < 64" using Cons(3,6) by (auto simp: bufs_ok_def)
  have p: "queue_ok (push_id s1 i (dequeued s1)) \<and> qlist (push_id s1 i (dequeued s1)) = qlist (dequeued s1) @ [i]"
    by (rule push_id_abs) (use Cons(3,4,5) i in \<open>simp_all add: s1_def\<close>)
  have len: "unat (n_buffers s) \<le> length (buffers s)" by (rule bufs_okD [OF Cons(3)])
  have "held s3 = held s2"
  proof (rule held_cong)
    fix j assume "j < unat (n_buffers s2)"
    thus "dequeued_flag s3 j = dequeued_flag s2 j"
      using len by (cases "j = i") (simp_all add: s3_def s2_def s1_def or_and_2)
  qed (simp add: s3_def)
  moreover have "held s2 = held s" using held_set_buf [OF len] by (simp add: s2_def s1_def)
  ultimately have h: "held s3 = held s" by simp
  have "let s' = use_buffers_add (Suc i) s3 sbs in direction s' = direction s3 \<and> bufs_ok s' \<and>
    queue_ok (dequeued s') \<and> qlist (dequeued s') = [0..<Suc i + length sbs] \<and> queued s' = queued s3 \<and>
    io s' = io s3 \<and> n_buffers s' = n_buffers s3 \<and> held s' = held s3"
    by (rule Cons(1)) (use Cons(2-6) p in \<open>simp_all add: s3_def s2_def s1_def\<close>)
  thus ?case unfolding run h by (simp add: Let_def s3_def s2_def s1_def)
qed

text \<open>
  The io area names none of the first \<open>n\<close> ids, or it has data. \<^verbatim>\<open>clear_buffers\<close> resets the area only when it
  has data: any other area keeps the id that is in it.
\<close>

definition io_clean :: "nat \<Rightarrow> stream \<Rightarrow> bool" where
  "io_clean n s \<longleftrightarrow> (case io s of None \<Rightarrow> True
     | Some b \<Rightarrow> status b = SPA_STATUS_HAVE_DATA \<or> n \<le> unat (buffer_id b))"

lemma clear_queue_ok: "length (ids q) = 64 \<Longrightarrow> queue_ok (clear_queue q) \<and> qlist (clear_queue q) = []"
  by (simp add: clear_queue_def queue_ok_def qlist_def ring_fill_def spa_ringbuffer_init_def)

lemma clear_buffers_facts:
  assumes "own_inv s peer"
  shows "direction (clear_buffers s) = SPA_DIRECTION_OUTPUT" "length (buffers (clear_buffers s)) = 64"
    "n_buffers (clear_buffers s) = 0" "queue_ok (dequeued (clear_buffers s))" "qlist (dequeued (clear_buffers s)) = []"
    "queue_ok (queued (clear_buffers s))" "qlist (queued (clear_buffers s)) = []"
    "io (clear_buffers s) = (case io s of None \<Rightarrow> None | Some b \<Rightarrow>
      if status b = SPA_STATUS_HAVE_DATA then Some \<lparr>status = SPA_STATUS_OK, buffer_id = SPA_ID_INVALID\<rparr> else io s)"
  using assms clear_queue_ok [of "dequeued s"] clear_queue_ok [of "queued s"]
  by (auto simp: clear_buffers_def own_inv_def bufs_ok_def queue_ok_def [of "dequeued s"] queue_ok_def [of "queued s"] Let_def
      split: option.split)

text \<open>Without buffers nothing has an owner.\<close>

lemma own_inv_empty:
  assumes "direction s = SPA_DIRECTION_OUTPUT" "length (buffers s) = 64" "n_buffers s = 0"
    "queue_ok (dequeued s)" "qlist (dequeued s) = []" "queue_ok (queued s)" "qlist (queued s) = []"
  shows "own_inv s []"
  using assms by (simp add: own_inv_def bufs_ok_def owners_def held_def io_ids_def split: option.split)

lemma clear_own: "own_inv s peer \<Longrightarrow> own_inv (clear_buffers s) []"
  by (rule own_inv_empty) (simp_all add: clear_buffers_facts)

lemma use_buffers_map_frame:
  "use_buffers_map map_data i s sbs sz = (r, s', sbs') \<Longrightarrow> \<exists>bs. s' = s\<lparr>buffers := bs\<rparr> \<and> length bs = length (buffers s)"
proof (induction sbs arbitrary: i s sz r s' sbs')
  case Nil
  thus ?case by (auto intro: exI [of _ "buffers s"])
next
  case (Cons sb sbs)
  let ?s = "set_buf s i (\<lambda>b. b\<lparr>bflags := 0, bid := of_nat i\<rparr>)"
  obtain r1 ds bsz fl where d: "use_datas map_data (sb_datas sb) 0 0 = (r1, ds, bsz, fl)"
    by (metis prod_cases4)
  define s1 where "s1 = (if map_buffers s then set_buf ?s i (\<lambda>b. b\<lparr>bflags := fl\<rparr>) else ?s)"
  have l: "\<exists>bs. s1 = s\<lparr>buffers := bs\<rparr> \<and> length bs = length (buffers s)" by (auto simp: s1_def set_buf_def)
  have "s' = s1 \<or> (\<exists>sz' sbs1. use_buffers_map map_data (Suc i) s1 sbs sz' = (r, s', sbs1))"
    using Cons(2) d by (auto simp: Let_def s1_def set_buf_def split: if_splits sum.splits prod.splits)
  thus ?case using Cons(1) [of "Suc i" s1] l by fastforce
qed

text \<open>After a configuration all the buffers are in the ring of free buffers; the io area is the one \<^verbatim>\<open>clear_buffers\<close> left.\<close>

lemma use_buffers_result:
  assumes inv: "own_inv s peer" and use: "impl_port_use_buffers map_data s bufs = (Inr u, s', bufs')"
  shows "length bufs \<le> 64" "direction s' = SPA_DIRECTION_OUTPUT" "bufs_ok s'" "unat (n_buffers s') = length bufs"
    "queue_ok (dequeued s')" "qlist (dequeued s') = [0..<length bufs]" "queue_ok (queued s')" "qlist (queued s') = []"
    "held s' = []" "io s' = io (clear_buffers s)"
proof -
  let ?n = "length bufs"
  define c where "c = clear_buffers s"
  note c = clear_buffers_facts [OF inv, folded c_def]
  obtain s1 where len: "?n \<le> 64" and map: "use_buffers_map map_data 0 c bufs 0 = (Inr u, s1, bufs')"
    and s': "s' = use_buffers_add 0 (s1\<lparr>n_buffers := of_nat (length bufs')\<rparr>) bufs'"
    using use by (auto simp: impl_port_use_buffers_def Let_def c_def split: if_splits sum.splits prod.splits)
  have l0: "0 + length bufs \<le> length (buffers c)" using len c(2) by simp
  obtain bs where bs: "length bufs' = ?n" "s1 = c\<lparr>buffers := bs\<rparr>" "length bs = 64"
    "\<forall>j<?n. bid (bs ! j) = of_nat j \<and> bflags (bs ! j) AND 2 \<noteq> 2"
    using use_buffers_map_result [OF map l0] c(2) by auto
  define t where "t = s1\<lparr>n_buffers := of_nat ?n\<rparr>"
  have n: "unat (n_buffers t) = ?n" using len by (simp add: t_def unat_of_nat_32)
  have t: "direction t = SPA_DIRECTION_OUTPUT" "bufs_ok t" "queue_ok (dequeued t)"
    "qlist (dequeued t) = [0..<0]" "0 + length bufs' \<le> unat (n_buffers t)"
    using c bs len n by (simp_all add: t_def bufs_ok_def unat_of_nat_32)
  have h: "held t = []" using bs(4) n by (simp add: held_def filter_empty_conv t_def bs(2))
  have u: "use_buffers_add 0 t bufs' = s'" using s' bs(1) by (simp add: t_def)
  note r = use_buffers_add_result [OF t, unfolded u Let_def]
  have tc: "queued t = queued c" "io t = io c" by (simp_all add: t_def bs(2))
  show "length bufs \<le> 64" by (rule len)
  show "direction s' = SPA_DIRECTION_OUTPUT" "bufs_ok s'" "unat (n_buffers s') = length bufs"
    "queue_ok (dequeued s')" "qlist (dequeued s') = [0..<length bufs]" "queue_ok (queued s')" "qlist (queued s') = []"
    "held s' = []" "io s' = io (clear_buffers s)"
    using r c(6,7) bs(1) n t(1) h tc by (simp_all add: c_def)
qed

lemma use_buffers_own:
  assumes inv: "own_inv s peer" and clean: "io_clean (length bufs) s"
    and use: "impl_port_use_buffers map_data s bufs = (Inr u, s', bufs')"
  shows "own_inv s' []"
proof -
  note r = use_buffers_result [OF inv use]
  have "io_ids s' = []"
    using clean r(1,4) invalid_id(1) [of "n_buffers s'"]
    by (auto simp: io_ids_def r(10) clear_buffers_facts(8) [OF inv] io_clean_def word_less_unat split: option.splits if_splits)
  thus ?thesis using r by (simp add: own_inv_def owners_def)
qed

text \<open>A refused or failed configuration: refused while disconnecting, otherwise the stream is left without buffers.\<close>

lemma use_buffers_failed_own:
  assumes inv: "own_inv s peer" and use: "impl_port_use_buffers map_data s bufs = (Inl e, s', bufs')"
  shows "own_inv s' (if disconnecting s \<and> bufs \<noteq> [] then peer else [])"
proof (cases "disconnecting s \<and> bufs \<noteq> []")
  case True
  thus ?thesis using use inv by (auto simp: impl_port_use_buffers_def)
next
  case False
  note c = clear_buffers_facts [OF inv]
  obtain bs where bs: "s' = clear_buffers s\<lparr>buffers := bs\<rparr>" "length bs = 64"
  proof (cases "length bufs > 64")
    case True
    hence "s' = clear_buffers s\<lparr>buffers := buffers (clear_buffers s)\<rparr>"
      using use False by (auto simp: impl_port_use_buffers_def Let_def split: if_splits)
    thus ?thesis using that c(2) by blast
  next
    case long: False
    hence "use_buffers_map map_data 0 (clear_buffers s) bufs 0 = (Inl e, s', bufs')"
      using use False by (auto simp: impl_port_use_buffers_def Let_def split: if_splits sum.splits prod.splits)
    from use_buffers_map_frame [OF this] show ?thesis using that c(2) by auto
  qed
  have "own_inv s' []" by (rule own_inv_empty) (simp_all add: bs c)
  thus ?thesis using False by auto
qed

section \<open>An output stream, its application and its peers\<close>

text \<open>
  The peers of the port take the buffer of the io area and ask for more, giving back one of the
  buffers they hold or none, or give one back with \<^verbatim>\<open>port_reuse_buffer\<close>; they may change busy counts at any
  time. The graph may change the clock, the rate match area and whether the node drives, and may give
  the port another io area: the buffers named by the areas, and those of the peers, stay the same
  together. It may clear the format, and configure the stream again, with new buffers that no peer has yet.

  The graph is taken not to leave a stale id behind: the area that a configuration finds (\<open>io_clean\<close>),
  or that is set later, names no buffer of the new configuration that was never given to a peer. The code does not ensure
  this, see \<open>stale_io_duplicates\<close> below.
\<close>

inductive out_step :: "stream \<times> nat list \<Rightarrow> stream \<times> nat list \<Rightarrow> bool" where
  app: "out_step (s, peer) (app_do a s, peer)"
| process: "impl_node_process_output 2 (app_run script) s = Some (r, s') \<Longrightarrow> out_step (s, peer) (s', peer)"
| trigger: "do_trigger_deprecated 2 (app_run script) s = Some (r, s') \<Longrightarrow> out_step (s, peer) (s', peer)"
| driver: "do_trigger_driver 2 (app_run script) s = Some (r, s') \<Longrightarrow> out_step (s, peer) (s', peer)"
| stop_drain: "out_step (s, peer) (do_stop_drain s, peer)"
| consume: "io s = Some b \<Longrightarrow> status b = SPA_STATUS_HAVE_DATA \<Longrightarrow> buffer_id b < n_buffers s \<Longrightarrow>
    out_step (s, peer) (s\<lparr>io := Some \<lparr>status = SPA_STATUS_NEED_DATA, buffer_id = SPA_ID_INVALID\<rparr>\<rparr>,
      unat (buffer_id b) # peer)"
| recycle: "io s = Some b \<Longrightarrow> status b = SPA_STATUS_NEED_DATA \<Longrightarrow> buffer_id b = SPA_ID_INVALID \<Longrightarrow>
    i \<in> set peer \<Longrightarrow>
    out_step (s, peer) (s\<lparr>io := Some \<lparr>status = SPA_STATUS_NEED_DATA, buffer_id = of_nat i\<rparr>\<rparr>,
      remove1 i peer)"
| reuse: "i \<in> set peer \<Longrightarrow> out_step (s, peer) (snd (impl_port_reuse_buffer s (of_nat i)), remove1 i peer)"
| busy: "out_step (s, peer) (set_buf s i (\<lambda>b. b\<lparr>bbusy := map_option f (bbusy b)\<rparr>), peer)"
| graph: "out_step (s, peer) (s\<lparr>node_position := p, rate_match := m, node_driving := d, disconnecting := x\<rparr>, peer)"
| set_io: "mset (io_ids (impl_port_set_io s a)) + mset peer' = mset (io_ids s) + mset peer \<Longrightarrow>
    out_step (s, peer) (impl_port_set_io s a, peer')"
| clear: "out_step (s, peer) (clear_buffers s, [])"
| configure: "io_clean (length bufs) s \<Longrightarrow> impl_port_use_buffers map_data s bufs = (r, s', bufs') \<Longrightarrow>
    out_step (s, peer) (s', if disconnecting s \<and> bufs \<noteq> [] then peer else [])"

text \<open>A new output stream has no buffers and empty rings.\<close>

definition out_new :: "stream \<Rightarrow> bool" where
  "out_new s \<longleftrightarrow> direction s = SPA_DIRECTION_OUTPUT \<and> length (buffers s) = MAX_BUFFERS \<and> n_buffers s = 0 \<and>
     length (ids (dequeued s)) = MAX_BUFFERS \<and> ring_fill (ring (dequeued s)) = 0 \<and>
     length (ids (queued s)) = MAX_BUFFERS \<and> ring_fill (ring (queued s)) = 0"

inductive out_reachable :: "stream \<times> nat list \<Rightarrow> bool" where
  start: "out_new s \<Longrightarrow> out_reachable (s, [])"
| step: "out_reachable st \<Longrightarrow> out_step st st' \<Longrightarrow> out_reachable st'"

lemma process_node_own:
  "impl_node_process_output fuel (app_run script) s = Some (r, s') \<Longrightarrow> own_inv s peer \<Longrightarrow> own_inv s' peer"
  using process_output_own by (auto simp: impl_node_process_output_def split: if_splits)

lemma own_inv_in_trigger [simp]:
  "own_inv (s\<lparr>in_trigger := n\<rparr>) peer = own_inv s peer"
  "own_inv (s\<lparr>in_trigger := n, triggers := m\<rparr>) peer = own_inv s peer"
  by (rule own_inv_ext; simp)+

lemma consume_own:
  assumes "own_inv s peer" "io s = Some b" "buffer_id b < n_buffers s"
  shows "own_inv (s\<lparr>io := Some \<lparr>status = st, buffer_id = SPA_ID_INVALID\<rparr>\<rparr>) (unat (buffer_id b) # peer)"
  using assms by (simp add: own_inv_def bufs_ok_def owners_def held_def io_ids_def ac_simps)

lemma recycle_own:
  assumes inv: "own_inv s peer" and b: "io s = Some b" "buffer_id b = SPA_ID_INVALID" and i: "i \<in> set peer"
  shows "own_inv (s\<lparr>io := Some \<lparr>status = st, buffer_id = of_nat i\<rparr>\<rparr>) (remove1 i peer)"
proof -
  have "i \<in># owners s peer" using i by (simp add: owners_def)
  hence n: "i < unat (n_buffers s)" using inv by (simp add: own_inv_def)
  hence u: "unat (of_nat i :: u32) = i" using unat_lt_32 [of "n_buffers s"] by (simp add: unat_of_nat_32)
  have P: "mset peer = add_mset i (mset (remove1 i peer))" using i by simp
  let ?s = "s\<lparr>io := Some \<lparr>status = st, buffer_id = of_nat i\<rparr>\<rparr>"
  have "io_ids s = []" "io_ids ?s = [i]" "held ?s = held s"
    using b n u unat_lt_32 [of "n_buffers s"] by (simp_all add: io_ids_def held_def word_less_unat)
  hence o: "owners ?s (remove1 i peer) = owners s peer" unfolding owners_def P by (simp del: mset_remove1)
  show ?thesis
    by (rule own_inv_cong [OF inv]) (use own_inv_sizes [OF inv] o in \<open>simp_all add: bufs_ok_def\<close>)
qed

lemma stop_drain_own: "own_inv s peer \<Longrightarrow> own_inv (do_stop_drain s) peer"
proof -
  assume inv: "own_inv s peer"
  have "io_ids (do_stop_drain s) = io_ids s"
    by (auto simp: io_ids_def do_stop_drain_def split: option.split)
  thus ?thesis using inv
    by (auto simp: own_inv_def bufs_ok_def owners_def held_def do_stop_drain_def Let_def split: option.splits)
qed

lemma trigger_driver_own:
  assumes "do_trigger_driver fuel (app_run script) s = Some (r, s')" "own_inv s peer"
  shows "own_inv s' peer"
proof -
  let ?s = "call_process (app_run script) s"
  have "own_inv (?s\<lparr>in_trigger := in_trigger ?s + 1\<rparr>) peer" using call_process_own [OF assms(2)] by simp
  moreover have "direction s = SPA_DIRECTION_OUTPUT" using assms(2) by (simp add: own_inv_def)
  ultimately show ?thesis
    using assms(1) process_node_own by (fastforce simp: do_trigger_driver_def Let_def)
qed

lemma reuse_own:
  assumes inv: "own_inv s peer" and i: "i \<in> set peer"
  shows "own_inv (snd (impl_port_reuse_buffer s (of_nat i))) (remove1 i peer)"
proof -
  note sz = own_inv_sizes [OF inv]
  have "i \<in># owners s peer" using i by (simp add: owners_def)
  hence n: "i < unat (n_buffers s)" using inv by (simp add: own_inv_def)
  hence u: "unat (of_nat i :: u32) = i" using unat_lt_32 [of "n_buffers s"] by (simp add: unat_of_nat_32)
  have "1 \<le> length peer" using i by (cases peer) auto
  hence "length (qlist (queued s)) < 64" using own_invD(3) [OF inv] sz(1) by linarith
  hence p: "queue_ok (push_id s i (queued s))" "qlist (push_id s i (queued s)) = qlist (queued s) @ [i]"
    using push_id_abs [OF sz(4,2) n] by simp_all
  have e: "snd (impl_port_reuse_buffer s (of_nat i)) = s\<lparr>queued := push_id s i (queued s)\<rparr>"
    using n u by (simp add: impl_port_reuse_buffer_def push_queued_def push_id_def word_le_unat split: sum.split)
  have P: "mset peer = add_mset i (mset (remove1 i peer))" using i by simp
  have o: "owners (s\<lparr>queued := push_id s i (queued s)\<rparr>) (remove1 i peer) = owners s peer"
    unfolding owners_def P using p(2) by (simp add: io_ids_def del: mset_remove1 split: option.split)
  show ?thesis unfolding e by (rule own_inv_cong [OF inv]) (use sz p o in simp_all)
qed

lemma set_io_own:
  assumes inv: "own_inv s peer" and m: "mset (io_ids (impl_port_set_io s a)) + mset peer' = mset (io_ids s) + mset peer"
  shows "own_inv (impl_port_set_io s a) peer'"
proof (rule own_inv_cong [OF inv])
  have "held (impl_port_set_io s a) = held s" "dequeued (impl_port_set_io s a) = dequeued s"
    "queued (impl_port_set_io s a) = queued s" by (cases a; simp add: held_def)+
  thus "owners (impl_port_set_io s a) peer' = owners s peer"
    using m by (simp add: owners_def add.assoc)
qed (use own_inv_sizes [OF inv] in \<open>cases a; simp add: bufs_ok_def\<close>)+

lemma configure_own:
  assumes "own_inv s peer" "io_clean (length bufs) s" "impl_port_use_buffers map_data s bufs = (r, s', bufs')"
  shows "own_inv s' (if disconnecting s \<and> bufs \<noteq> [] then peer else [])"
proof (cases r)
  case (Inr u)
  hence "\<not> (disconnecting s \<and> bufs \<noteq> [])" using assms(3) by (auto simp: impl_port_use_buffers_def split: if_splits)
  thus ?thesis using use_buffers_own [OF assms(1,2)] assms(3) Inr by auto
qed (use use_buffers_failed_own [OF assms(1)] assms(3) in blast)

lemma out_step_own: "out_step st st' \<Longrightarrow> own_inv (fst st) (snd st) \<Longrightarrow> own_inv (fst st') (snd st')"
proof (induction rule: out_step.induct)
  case (driver script s r s' peer)
  thus ?case using trigger_driver_own by simp
next
  case (graph s peer p m d x)
  thus ?case by (subst own_inv_ext [of _ s]) simp_all
next
  case (configure bufs s map_data r s' bufs' peer)
  thus ?case using configure_own by simp
qed (auto simp: app_do_own stop_drain_own consume_own recycle_own set_buf_own do_trigger_deprecated_def reuse_own set_io_own clear_own
    intro: process_node_own dest: process_node_own)

lemma out_new_own: "out_new s \<Longrightarrow> own_inv s []"
  by (rule own_inv_empty) (simp_all add: out_new_def queue_ok_def qlist_def ring_slice_def)

lemma out_reachable_own: "out_reachable st \<Longrightarrow> own_inv (fst st) (snd st)"
  by (induction rule: out_reachable.induct) (auto dest: out_new_own out_step_own)

lemma dequeue_result:
  assumes "pw_stream_dequeue_buffer s = (Inr i, s')"
  shows "\<exists>t. dequeue_loop s = (Some i, t) \<and> (\<exists>g. s' = set_buf (set_buf t i g) i set_dequeued)"
proof -
  obtain r t where l: "dequeue_loop s = (r, t)" by fastforce
  have id: "set_buf t i (\<lambda>b. b) = t" for t i by (simp add: set_buf_def)
  show ?thesis
    using assms l
    by (auto simp: pw_stream_dequeue_buffer_def Let_def split: if_splits option.splits
        intro: exI [of _ busy_inc] exI [of _ "\<lambda>b. b"] simp: id)
qed

lemma dequeue_loop_flags:
  "n_buffers (snd (dequeue_loop s)) = n_buffers s \<and> length (buffers (snd (dequeue_loop s))) = length (buffers s) \<and>
   (\<forall>j<length (buffers s). bflags (buffers (snd (dequeue_loop s)) ! j) = bflags (buffers s ! j))"
proof (induction s rule: dequeue_loop.induct)
  case (1 s)
  have f: "bflags (buffers (set_buf s i busy_dec) ! j) = bflags (buffers s ! j)"
    if "j < length (buffers s)" for i j and s :: stream
    using that by (cases "j = i") simp_all
  show ?case
  proof (cases "queue_pop s (dequeued s)")
    case (Pair r q)
    show ?thesis
    proof (cases "\<exists>i. r = Some i \<and> dequeued_flag s i")
      case True
      then obtain i where i: "r = Some i" "dequeued_flag s i" by blast
      let ?t = "s\<lparr>dequeued := q\<rparr>"
      have "dequeue_loop s = dequeue_loop (if direction ?t = SPA_DIRECTION_INPUT then set_buf ?t i busy_dec else ?t)"
        using Pair i by (subst dequeue_loop.simps) (simp add: Let_def)
      thus ?thesis using 1 [OF Pair [symmetric] i(1) refl] i(2) f [of _ ?t] by simp
    next
      case False
      thus ?thesis using Pair by (subst (1 2 3) dequeue_loop.simps) (auto simp: Let_def split: option.split)
    qed
  qed
qed

section \<open>Properties\<close>

definition demo_queue :: queue where
  "demo_queue = \<lparr>ids = replicate 64 0, ring = \<lparr>readindex = 0, writeindex = 0\<rparr>, incount = 0, outcount = 0\<rparr>"

definition demo_buffer :: buffer where
  "demo_buffer = \<lparr>bid = 0, bflags = 0, bbusy = None, bsize = 0, brequested = 0, btime = 0,
     bbuffer = \<lparr>sb_busy = None, sb_datas = []\<rparr>\<rparr>"

definition demo_stream :: stream where
  "demo_stream = \<lparr>direction = SPA_DIRECTION_OUTPUT, map_buffers = False,
     io = Some \<lparr>status = SPA_STATUS_NEED_DATA, buffer_id = SPA_ID_INVALID\<rparr>, rate_match = None,
     rate_queued = 0, have_requested = 1, rate_size = 0, buffers = replicate 64 demo_buffer,
     n_buffers = 0, dequeued = demo_queue, queued = demo_queue, seq = 0,
     time = \<lparr>tnow = 0, trate = \<lparr>num = 1, denom = 48000\<rparr>, tticks = 0, tdelay = 0, tqueued = 0\<rparr>,
     base_pos = 0, clock_id = 0, quantum = 1024, rt_callbacks = True, disconnecting = False,
     draining = False, drained = False, using_trigger = False, early_process = False, in_trigger = 0,
     node_driving = False, node_reliable = False, node_position = None, triggers = 0, trigger_dones = 0\<rparr>"




text \<open>
  The condition on the configurations is needed. When the io area has no data but still names one of
  the new buffers, as after the peers gave a buffer back before the stream was configured again, the next pass
  recycles that buffer although it is free already: the ring then has it twice.
\<close>

lemma stale_io_duplicates:
  assumes reach: "out_reachable (s, peer)" and io: "io s = Some b" "status b \<noteq> SPA_STATUS_HAVE_DATA"
    and stale: "unat (buffer_id b) < length bufs" and room: "length bufs < 64"
    and use: "impl_port_use_buffers map_data s bufs = (Inr u, s', bufs')"
  shows "io s' = Some b \<and> qlist (dequeued (snd (snd (process_output_exchange b driver_end s')))) =
    [0..<length bufs] @ [unat (buffer_id b)]"
proof -
  have inv: "own_inv s peer" using out_reachable_own [OF reach] by simp
  note r = use_buffers_result [OF inv use]
  have i: "unat (buffer_id b) < unat (n_buffers s')" using stale r(4) by simp
  have p: "qlist (push_id s' (unat (buffer_id b)) (dequeued s')) = [0..<length bufs] @ [unat (buffer_id b)]"
    using push_id_abs [OF r(5) r(3) i] r(6) room by simp
  have d: "dequeued (snd (snd (process_output_exchange b driver_end s'))) = push_id s' (unat (buffer_id b)) (dequeued s')"
    using i unfolding exchange_cases [OF io(2)]
    by (auto simp: recycled_def get_buffer_def push_dequeued_eq word_less_unat split: option.splits prod.splits)
  show ?thesis using p r(10) io clear_buffers_facts(8) [OF inv] by (simp add: d)
qed





text \<open>
  Whatever the rings contain (a peer that delivers an id twice, a recovering graph), in either
  direction, \<^verbatim>\<open>pw_stream_dequeue_buffer\<close> never returns a buffer the application still holds.
\<close>

lemma dequeue_never_twice:
  assumes "pw_stream_dequeue_buffer s = (Inr i, s')" "i < length (buffers s)"
  shows "\<not> dequeued_flag s i \<and> dequeued_flag s' i"
proof -
  from dequeue_result [OF assms(1)] obtain t g where
    t: "dequeue_loop s = (Some i, t)" and s': "s' = set_buf (set_buf t i g) i set_dequeued" by blast
  have "\<not> dequeued_flag s i"
    using dequeue_loop_not_held [OF t] dequeue_loop_flags [of s] t assms(2) by simp
  thus ?thesis using dequeue_loop_flags [of s] t assms(2) by (simp add: s' flag_words)
qed

text \<open>
  C12: the output process function always returns, whatever the application does in its process
  callback: two passes of the \<^verbatim>\<open>goto again\<close> loop are enough from every state.
\<close>

theorem process_output_two_passes:
  "\<exists>r s'. impl_node_process_output 2 (app_run script) s = Some (r, s')"
  using process_output_two [of s _ script] by (cases "io s") (auto simp: impl_node_process_output_def)

section \<open>Observations\<close>

text \<open>
  A reliable output stream without an io area: the dequeue operation dereferences the null
  \<^verbatim>\<open>impl->io\<close> that the process functions check for.
\<close>

lemma dequeue_null_io:
  "direction s = SPA_DIRECTION_OUTPUT \<Longrightarrow> node_reliable s \<Longrightarrow> queue_is_empty (queued s) \<Longrightarrow> io s = None \<Longrightarrow>
     fst (pw_stream_dequeue_buffer s) = Inl EFAULT"
  by (simp add: pw_stream_dequeue_buffer_def)

text \<open>
  When \<^verbatim>\<open>impl_port_use_buffers\<close> fails on a later buffer, the memory it mapped for the earlier ones
  stays mapped while the stream has no buffers, so that no later \<^verbatim>\<open>clear_buffers\<close> unmaps it.
\<close>

lemma use_buffers_failure_keeps_mapping:
  "case impl_port_use_buffers (\<lambda>d p. Inr ()) (demo_stream\<lparr>map_buffers := True\<rparr>)
     [\<lparr>sb_busy = None, sb_datas = [\<lparr>dtype = 2, dflags = 8, ddata = False, dmapped = False, dmaxsize = 64\<rparr>]\<rparr>,
      \<lparr>sb_busy = None, sb_datas = [\<lparr>dtype = 1, dflags = 0, ddata = False, dmapped = False, dmaxsize = 64\<rparr>]\<rparr>]
   of (r, s, bufs) \<Rightarrow> r = Inl EINVAL \<and> n_buffers s = 0 \<and> dmapped (hd (sb_datas (hd bufs)))"
  by code_simp

end
