(* ===== verification/PW_Ndarray.thy ===== *)
theory PW_Ndarray
  imports PW_Prelude
begin

text \<open>
  Packed ndarray formats: \<^verbatim>\<open>spa/param/ndarray.h\<close>, the validation and counting half of
  \<^verbatim>\<open>spa/param/ndarray-utils.h\<close> and \<^verbatim>\<open>spa_element_type_size\<close> of \<^verbatim>\<open>spa/param/format.h\<close>.

  Element types and layouts come from the wire as 32-bit ids and stay ids here. \<^verbatim>\<open>size\<close> arguments
  are \<^verbatim>\<open>size_t\<close> words; the shape of a description is the list of the dimensions its storage holds.
  The lemmas relate the guarded 64-bit products of the code to the exact products.
\<close>

section \<open>Elements\<close>

abbreviation (input) SPA_NDARRAY_LAYOUT_ROW_MAJOR :: u32 where "SPA_NDARRAY_LAYOUT_ROW_MAJOR \<equiv> 1"
abbreviation (input) SPA_NDARRAY_LAYOUT_COLUMN_MAJOR :: u32 where "SPA_NDARRAY_LAYOUT_COLUMN_MAJOR \<equiv> 2"
abbreviation (input) SPA_CHOICE_None :: u32 where "SPA_CHOICE_None \<equiv> 0"
abbreviation (input) SPA_CHOICE_Range :: u32 where "SPA_CHOICE_Range \<equiv> 1"
abbreviation (input) SPA_CHOICE_Step :: u32 where "SPA_CHOICE_Step \<equiv> 2"
abbreviation (input) SPA_CHOICE_Enum :: u32 where "SPA_CHOICE_Enum \<equiv> 3"
abbreviation (input) SPA_CHOICE_Flags :: u32 where "SPA_CHOICE_Flags \<equiv> 4"
abbreviation (input) SIZE_MAX :: u64 where "SIZE_MAX \<equiv> 0xFFFFFFFFFFFFFFFF"
abbreviation (input) INT32_MAX :: u32 where "INT32_MAX \<equiv> 0x7FFFFFFF"

text \<open>
  \<^verbatim>\<open>BOOL8 I8 U8 F8_*\<close> are 1, 2, 3 and 12 to 15; \<^verbatim>\<open>I16 U16 F16 BF16\<close> 4, 5, 16, 17;
  \<^verbatim>\<open>I32 U32 F32 COMPLEX_F16 COMPLEX_BF16\<close> 6, 7, 18, 21, 22; \<^verbatim>\<open>I64 U64 F64 COMPLEX_F32\<close> 8, 9, 19, 23;
  \<^verbatim>\<open>I128 U128 F128 COMPLEX_F64\<close> 10, 11, 20, 24; \<^verbatim>\<open>COMPLEX_F128\<close> 25.
\<close>

definition spa_element_type_size :: "u32 \<Rightarrow> u32" where
  "spa_element_type_size t =
     (if t = 1 \<or> t = 2 \<or> t = 3 \<or> t = 12 \<or> t = 13 \<or> t = 14 \<or> t = 15 then 1
      else if t = 4 \<or> t = 5 \<or> t = 16 \<or> t = 17 then 2
      else if t = 6 \<or> t = 7 \<or> t = 18 \<or> t = 21 \<or> t = 22 then 4
      else if t = 8 \<or> t = 9 \<or> t = 19 \<or> t = 23 then 8
      else if t = 10 \<or> t = 11 \<or> t = 20 \<or> t = 24 then 16
      else if t = 25 then 32
      else 0)"

section \<open>Descriptions\<close>

record spa_ndarray_info =
  element_type :: u32
  layout :: u32
  rate :: spa_fraction
  n_dimensions :: u32
  shape :: "u32 list"

record spa_ndarray_choices =
  n_element_types :: u32
  element_types :: "u32 list option"
  n_layouts :: u32
  layouts :: "u32 list option"
  rate_choice :: u32
  n_rate_values :: u32
  rate_values :: "spa_fraction list option"

text \<open>The first \<open>n\<close> elements of an array that may be null.\<close>

definition arr :: "u32 \<Rightarrow> 'a list option \<Rightarrow> 'a list" where
  "arr n a = (case a of None \<Rightarrow> [] | Some xs \<Rightarrow> take (unat n) xs)"

text \<open>\<^verbatim>\<open>offsetof (struct spa_ndarray_info, shape)\<close> is 20, \<^verbatim>\<open>sizeof (struct spa_ndarray_info)\<close> is 276.\<close>

definition SPA_NDARRAY_INFO_VALID_SIZE :: "u64 \<Rightarrow> bool" where
  "SPA_NDARRAY_INFO_VALID_SIZE sz \<longleftrightarrow> sz \<ge> 20"

definition SPA_NDARRAY_INFO_MAX_DIMENSIONS :: "u64 \<Rightarrow> u64" where
  "SPA_NDARRAY_INFO_MAX_DIMENSIONS sz = (sz - 20) div 4"

fun count_elements :: "u32 list \<Rightarrow> u64 \<Rightarrow> u64 res" where
  "count_elements [] elements = Inr elements"
| "count_elements (dimension # ds) elements =
     (if dimension = 0 \<or> dimension > INT32_MAX then Inl EINVAL
      else if elements > SIZE_MAX div ucast dimension then Inl EOVERFLOW
      else count_elements ds (elements * ucast dimension))"

text \<open>The result pair is what the code stores through \<^verbatim>\<open>n_elements\<close> and \<^verbatim>\<open>n_bytes\<close>.\<close>

definition spa_ndarray_info_ext_counts :: "spa_ndarray_info option \<Rightarrow> u64 \<Rightarrow> (u64 \<times> u64) res" where
  "spa_ndarray_info_ext_counts info' sz = (case info' of None \<Rightarrow> Inl EINVAL | Some info \<Rightarrow>
     (if \<not> SPA_NDARRAY_INFO_VALID_SIZE sz then Inl EINVAL
      else let max_dimensions = ucast (SPA_NDARRAY_INFO_MAX_DIMENSIONS sz)
      in if n_dimensions info = 0 \<or> n_dimensions info > max_dimensions then Inl EINVAL
      else let element_size = spa_element_type_size (element_type info)
      in if element_size = 0 then Inl EINVAL
      else if layout info \<noteq> SPA_NDARRAY_LAYOUT_ROW_MAJOR \<and> layout info \<noteq> SPA_NDARRAY_LAYOUT_COLUMN_MAJOR
      then Inl EINVAL
      else if denom (rate info) = 0 \<and> num (rate info) \<noteq> 0 \<or> denom (rate info) \<noteq> 0 \<and> num (rate info) = 0
      then Inl EINVAL
      else case count_elements (take (unat (n_dimensions info)) (shape info)) 1 of
        Inl e \<Rightarrow> Inl e
      | Inr elements \<Rightarrow>
          if elements > SIZE_MAX div ucast element_size then Inl EOVERFLOW
          else Inr (elements, elements * ucast element_size)))"

definition spa_ndarray_info_ext_validate :: "spa_ndarray_info option \<Rightarrow> u64 \<Rightarrow> unit res" where
  "spa_ndarray_info_ext_validate info sz = map_sum id (\<lambda>_. ()) (spa_ndarray_info_ext_counts info sz)"

definition spa_ndarray_info_validate :: "spa_ndarray_info option \<Rightarrow> unit res" where
  "spa_ndarray_info_validate info = spa_ndarray_info_ext_validate info 276"

text \<open>The getters; \<open>False\<close> for a null result pointer.\<close>

definition spa_ndarray_info_ext_get_n_elements :: "spa_ndarray_info option \<Rightarrow> u64 \<Rightarrow> bool \<Rightarrow> u64 res" where
  "spa_ndarray_info_ext_get_n_elements info sz dst =
     (if \<not> dst then Inl EINVAL else map_sum id fst (spa_ndarray_info_ext_counts info sz))"

definition spa_ndarray_info_get_n_elements :: "spa_ndarray_info option \<Rightarrow> bool \<Rightarrow> u64 res" where
  "spa_ndarray_info_get_n_elements info dst = spa_ndarray_info_ext_get_n_elements info 276 dst"

definition spa_ndarray_info_ext_get_size :: "spa_ndarray_info option \<Rightarrow> u64 \<Rightarrow> bool \<Rightarrow> u64 res" where
  "spa_ndarray_info_ext_get_size info sz dst =
     (if \<not> dst then Inl EINVAL else map_sum id snd (spa_ndarray_info_ext_counts info sz))"

definition spa_ndarray_info_get_size :: "spa_ndarray_info option \<Rightarrow> bool \<Rightarrow> u64 res" where
  "spa_ndarray_info_get_size info dst = spa_ndarray_info_ext_get_size info 276 dst"

section \<open>Rates and choices\<close>

definition spa_ndarray_rate_compare :: "spa_fraction \<Rightarrow> spa_fraction \<Rightarrow> int" where
  "spa_ndarray_rate_compare a b =
     (let left = ucast (num a) * ucast (denom b) :: u64; right = ucast (num b) * ucast (denom a)
      in if left < right then -1 else if left > right then 1 else 0)"

definition spa_ndarray_rate_valid :: "spa_fraction \<Rightarrow> bool" where
  "spa_ndarray_rate_valid r \<longleftrightarrow> num r \<noteq> 0 \<and> denom r \<noteq> 0"

definition spa_ndarray_choices_validate ::
    "spa_ndarray_info option \<Rightarrow> u64 \<Rightarrow> spa_ndarray_choices option \<Rightarrow> unit res" where
  "spa_ndarray_choices_validate info' sz choices' =
     (case spa_ndarray_info_ext_validate info' sz of Inl e \<Rightarrow> Inl e | Inr _ \<Rightarrow>
     (case choices' of None \<Rightarrow> Inr () | Some choices \<Rightarrow>
     (let info = the info'; n = n_rate_values choices; rates = arr n (rate_values choices)
      in if n_element_types choices \<noteq> 0 \<and> element_types choices = None \<or>
          n_layouts choices \<noteq> 0 \<and> layouts choices = None \<or> n \<noteq> 0 \<and> rate_values choices = None
      then Inl EINVAL
      else if list_ex (\<lambda>t. spa_element_type_size t = 0) (arr (n_element_types choices) (element_types choices))
      then Inl EINVAL
      else if list_ex (\<lambda>l. l \<noteq> SPA_NDARRAY_LAYOUT_ROW_MAJOR \<and> l \<noteq> SPA_NDARRAY_LAYOUT_COLUMN_MAJOR)
          (arr (n_layouts choices) (layouts choices)) then Inl EINVAL
      else if denom (rate info) = 0 then
        (if rate_choice choices = SPA_CHOICE_None \<and> n = 0 then Inr () else Inl EINVAL)
      else if list_ex (\<lambda>r. \<not> spa_ndarray_rate_valid r) rates then Inl EINVAL
      else if rate_choice choices = SPA_CHOICE_None then (if n = 0 then Inr () else Inl EINVAL)
      else if rate_choice choices = SPA_CHOICE_Enum then (if n > 0 then Inr () else Inl EINVAL)
      else if rate_choice choices = SPA_CHOICE_Range \<and> n \<noteq> 2 then Inl EINVAL
      else if rate_choice choices = SPA_CHOICE_Step \<and> n \<noteq> 3 then Inl EINVAL
      else if rate_choice choices \<noteq> SPA_CHOICE_Range \<and> rate_choice choices \<noteq> SPA_CHOICE_Step then Inl EINVAL
      else if spa_ndarray_rate_compare (rates ! 0) (rate info) > 0 \<or>
          spa_ndarray_rate_compare (rate info) (rates ! 1) > 0 then Inl EINVAL
      else Inr ())))"

section \<open>Exact counts\<close>

definition dims_ok :: "u32 list \<Rightarrow> bool" where
  "dims_ok ds \<longleftrightarrow> (\<forall>d\<in>set ds. d \<noteq> 0 \<and> d \<le> INT32_MAX)"

definition exact_count :: "u32 list \<Rightarrow> nat" where
  "exact_count ds = prod_list (map unat ds)"

lemma mul_guard:
  fixes a b :: u64
  assumes "b \<noteq> 0"
  shows "a > SIZE_MAX div b \<longleftrightarrow> unat a * unat b \<ge> 2 ^ 64"
    and "\<not> a > SIZE_MAX div b \<Longrightarrow> unat (a * b) = unat a * unat b"
proof -
  have b: "0 < unat b" using assms by (simp add: unat_gt_0)
  have "a > SIZE_MAX div b \<longleftrightarrow> (2 ^ 64 - 1) div unat b < unat a"
    by (simp add: word_less_unat unat_div_distrib)
  also have "\<dots> \<longleftrightarrow> 2 ^ 64 - 1 < unat a * unat b" using b by (rule div_less_iff_less_mult)
  finally show *: "a > SIZE_MAX div b \<longleftrightarrow> unat a * unat b \<ge> 2 ^ 64" by auto
  assume "\<not> a > SIZE_MAX div b"
  hence "unat a * unat b < 2 ^ 64" using * by simp
  thus "unat (a * b) = unat a * unat b" by (simp add: unat_word_ariths(2))
qed

lemma count_elements_exact:
  "count_elements ds e = Inr n \<longleftrightarrow> dims_ok ds \<and> unat e * exact_count ds < 2 ^ 64 \<and>
     unat n = unat e * exact_count ds" if "e \<noteq> 0"
  using that
proof (induction ds arbitrary: e)
  case Nil
  show ?case using unat_lt_64 [of e] by (auto simp: dims_ok_def exact_count_def word_eq_unat)
next
  case (Cons d ds)
  show ?case
  proof (cases "d = 0 \<or> d > INT32_MAX")
    case True
    thus ?thesis by (auto simp: dims_ok_def)
  next
    case False
    have d0: "(ucast d :: u64) \<noteq> 0" using False by (simp add: word_eq_unat)
    have pos: "dims_ok ds \<Longrightarrow> 0 < exact_count ds"
      by (induction ds) (auto simp: dims_ok_def exact_count_def unat_gt_0)
    note g = mul_guard [OF d0, of e, simplified]
    show ?thesis
    proof (cases "e > SIZE_MAX div ucast d")
      case True
      hence "2 ^ 64 \<le> unat e * unat d" using g(1) by simp
      moreover have "unat e * unat d \<le> unat e * exact_count (d # ds)" if "dims_ok (d # ds)"
        using pos that by (simp add: dims_ok_def exact_count_def)
      ultimately have "\<not> (dims_ok (d # ds) \<and> unat e * exact_count (d # ds) < 2 ^ 64)"
        by linarith
      thus ?thesis using True False by auto
    next
      case F: False
      have m: "unat (e * ucast d) = unat e * unat d" using g(2) F by simp
      have "0 < unat e" "0 < unat d" using Cons(2) False by (simp_all add: unat_gt_0)
      hence "unat (e * ucast d) \<noteq> 0" unfolding m by simp
      hence "e * ucast d \<noteq> 0" by (metis unsigned_0)
      from Cons(1) [OF this] show ?thesis
        using F False m by (auto simp: dims_ok_def exact_count_def mult.assoc)
    qed
  qed
qed

text \<open>The reference: a description is admissible when its fields are and its exact size is a \<^verbatim>\<open>size_t\<close>.\<close>

definition info_fields_ok :: "spa_ndarray_info \<Rightarrow> u64 \<Rightarrow> bool" where
  "info_fields_ok info sz \<longleftrightarrow> 20 \<le> unat sz \<and> 0 < unat (n_dimensions info) \<and>
     unat (n_dimensions info) \<le> ((unat sz - 20) div 4) mod 2 ^ 32 \<and>
     spa_element_type_size (element_type info) \<noteq> 0 \<and>
     (layout info = SPA_NDARRAY_LAYOUT_ROW_MAJOR \<or> layout info = SPA_NDARRAY_LAYOUT_COLUMN_MAJOR) \<and>
     (denom (rate info) = 0 \<longleftrightarrow> num (rate info) = 0) \<and>
     dims_ok (take (unat (n_dimensions info)) (shape info))"

definition info_elements :: "spa_ndarray_info \<Rightarrow> nat" where
  "info_elements info = exact_count (take (unat (n_dimensions info)) (shape info))"

definition info_bytes :: "spa_ndarray_info \<Rightarrow> nat" where
  "info_bytes info = info_elements info * unat (spa_element_type_size (element_type info))"

lemma max_dimensions:
  "20 \<le> unat sz \<Longrightarrow>
     unat (ucast (SPA_NDARRAY_INFO_MAX_DIMENSIONS sz) :: u32) = ((unat sz - 20) div 4) mod 2 ^ 32"
proof -
  assume "20 \<le> unat sz"
  hence "unat (sz - 20) = unat sz - 20" by (simp add: unat_minus_no_wrap word_le_unat)
  hence "unat (SPA_NDARRAY_INFO_MAX_DIMENSIONS sz) = (unat sz - 20) div 4"
    by (simp add: SPA_NDARRAY_INFO_MAX_DIMENSIONS_def unat_div_distrib)
  thus ?thesis by (simp add: unsigned_ucast_eq take_bit_eq_mod)
qed

lemma counts_fields:
  "spa_ndarray_info_ext_counts (Some info) sz = Inr r \<Longrightarrow>
     20 \<le> unat sz \<and> 0 < unat (n_dimensions info) \<and>
     unat (n_dimensions info) \<le> ((unat sz - 20) div 4) mod 2 ^ 32 \<and>
     spa_element_type_size (element_type info) \<noteq> 0 \<and>
     (layout info = SPA_NDARRAY_LAYOUT_ROW_MAJOR \<or> layout info = SPA_NDARRAY_LAYOUT_COLUMN_MAJOR) \<and>
     (denom (rate info) = 0 \<longleftrightarrow> num (rate info) = 0)"
  using max_dimensions [of sz]
  by (auto simp: spa_ndarray_info_ext_counts_def Let_def SPA_NDARRAY_INFO_VALID_SIZE_def word_le_unat
      word_less_unat unat_gt_0 split: if_splits)

lemma counts_run:
  assumes "info_fields_ok info sz"
  shows "spa_ndarray_info_ext_counts (Some info) sz =
    (case count_elements (take (unat (n_dimensions info)) (shape info)) 1 of
       Inl e \<Rightarrow> Inl e
     | Inr n \<Rightarrow> if n > SIZE_MAX div ucast (spa_element_type_size (element_type info)) then Inl EOVERFLOW
               else Inr (n, n * ucast (spa_element_type_size (element_type info))))"
proof -
  have "SPA_NDARRAY_INFO_VALID_SIZE sz" "n_dimensions info \<noteq> 0"
    "\<not> n_dimensions info > ucast (SPA_NDARRAY_INFO_MAX_DIMENSIONS sz)"
    using assms max_dimensions [of sz]
    by (auto simp: info_fields_ok_def SPA_NDARRAY_INFO_VALID_SIZE_def word_le_unat word_less_unat)
  moreover have "spa_element_type_size (element_type info) \<noteq> 0"
    "layout info = SPA_NDARRAY_LAYOUT_ROW_MAJOR \<or> layout info = SPA_NDARRAY_LAYOUT_COLUMN_MAJOR"
    "\<not> (denom (rate info) = 0 \<and> num (rate info) \<noteq> 0 \<or> denom (rate info) \<noteq> 0 \<and> num (rate info) = 0)"
    using assms by (auto simp: info_fields_ok_def)
  ultimately show ?thesis by (auto simp: spa_ndarray_info_ext_counts_def Let_def)
qed

section \<open>Properties\<close>

text \<open>
  C13: the checked 64-bit computation of the number of elements and bytes of an ndarray succeeds
  exactly for admissible descriptions whose exact element count and exact size in bytes are below
  \<open>2 ^ 64\<close>, and then returns these exact values: no product wraps.
\<close>

theorem ndarray_counts_exact:
  "spa_ndarray_info_ext_counts (Some info) sz = Inr (n, b) \<longleftrightarrow>
     info_fields_ok info sz \<and> info_bytes info < 2 ^ 64 \<and> unat n = info_elements info \<and>
     unat b = info_bytes info"
proof -
  let ?es = "spa_element_type_size (element_type info)"
  let ?ds = "take (unat (n_dimensions info)) (shape info)"
  note ce = count_elements_exact [of 1 ?ds, simplified]
  have ok: "info_fields_ok info sz" if c: "spa_ndarray_info_ext_counts (Some info) sz = Inr r" for r
  proof -
    have "\<exists>n. count_elements ?ds 1 = Inr n"
      using c by (auto simp: spa_ndarray_info_ext_counts_def Let_def split: if_splits sum.splits)
    thus ?thesis using ce counts_fields [OF c] by (auto simp: info_fields_ok_def)
  qed
  show ?thesis
  proof (cases "info_fields_ok info sz")
    case False
    thus ?thesis using ok by blast
  next
    case True
    hence es: "(ucast ?es :: u64) \<noteq> 0" and es': "1 \<le> unat ?es" and d: "dims_ok ?ds"
      by (auto simp: info_fields_ok_def word_eq_unat Suc_le_eq)
    note g = mul_guard [OF es, of n, simplified]
    have le: "exact_count ?ds \<le> info_bytes info" using es' by (simp add: info_bytes_def info_elements_def)
    show ?thesis
    proof (cases "count_elements ?ds 1")
      case (Inl e)
      hence "\<not> info_bytes info < 2 ^ 64" using ce [of "of_nat (exact_count ?ds)"] d le
        by (auto simp: unat_of_nat_64)
      thus ?thesis using Inl counts_run [OF True] by simp
    next
      case (Inr m)
      hence m: "unat m = exact_count ?ds" using ce by simp
      note gm = mul_guard [OF es, of m, simplified]
      show ?thesis
        using counts_run [OF True] Inr True m gm
        by (auto simp: info_bytes_def info_elements_def word_eq_unat)
    qed
  qed
qed

text \<open>
  Rates are compared exactly: the sign returned is the sign of the difference of the cross
  products, which never wrap in 64 bits.
\<close>

lemma ndarray_rate_compare_exact:
  "spa_ndarray_rate_compare a b =
     sgn (int (unat (num a)) * int (unat (denom b)) - int (unat (num b)) * int (unat (denom a)))"
proof -
  have m: "unat (ucast x * ucast y :: u64) = unat x * unat y" for x y :: u32
  proof -
    have "unat x * unat y \<le> 4294967295 * 4294967295"
      using unat_lt_32 [of x] unat_lt_32 [of y] by (intro mult_le_mono) simp_all
    thus ?thesis by (simp add: unat_word_ariths(2))
  qed
  have i: "int (unat x) * int (unat y) = int (unat x * unat y)" for x y :: u32 by simp
  show ?thesis
    unfolding spa_ndarray_rate_compare_def Let_def word_less_unat m i
    by (auto simp: sgn_if simp del: of_nat_mult)
qed

lemma ndarray_rate_compare_le:
  "0 < spa_ndarray_rate_compare a b \<longleftrightarrow> \<not> unat (num a) * unat (denom b) \<le> unat (num b) * unat (denom a)"
  unfolding ndarray_rate_compare_exact sgn_greater of_nat_mult [symmetric] by linarith

text \<open>
  C14: a format whose rate is offered as a range or stepped range is accepted exactly when the format
  itself is, the listed element types and layouts are readable and known, there are two values (three
  with a step), all with positive numerator and denominator, and the default rate lies between the
  first two. The comparison of the fractions is the exact one: the cross products are numbers, which do not wrap.
\<close>

theorem ndarray_choice_range:
  assumes "denom (rate info) \<noteq> 0" "rate_choice c = SPA_CHOICE_Range \<or> rate_choice c = SPA_CHOICE_Step"
    "rates = arr (n_rate_values c) (rate_values c)"
  shows "spa_ndarray_choices_validate (Some info) sz (Some c) = Inr () \<longleftrightarrow>
    spa_ndarray_info_ext_validate (Some info) sz = Inr () \<and>
    (n_element_types c = 0 \<or> element_types c \<noteq> None) \<and> (n_layouts c = 0 \<or> layouts c \<noteq> None) \<and>
    (\<forall>t\<in>set (arr (n_element_types c) (element_types c)). spa_element_type_size t \<noteq> 0) \<and>
    set (arr (n_layouts c) (layouts c)) \<subseteq> {SPA_NDARRAY_LAYOUT_ROW_MAJOR, SPA_NDARRAY_LAYOUT_COLUMN_MAJOR} \<and>
    rate_values c \<noteq> None \<and> n_rate_values c = (if rate_choice c = SPA_CHOICE_Range then 2 else 3) \<and>
    (\<forall>r\<in>set rates. 0 < num r \<and> 0 < denom r) \<and>
    unat (num (rates ! 0)) * unat (denom (rate info)) \<le> unat (num (rate info)) * unat (denom (rates ! 0)) \<and>
    unat (num (rate info)) * unat (denom (rates ! 1)) \<le> unat (num (rates ! 1)) * unat (denom (rate info))"
proof (cases "spa_ndarray_info_ext_validate (Some info) sz")
  case (Inr u)
  have ex: "list_ex (\<lambda>t. spa_element_type_size t = 0) ts \<longleftrightarrow> \<not> (\<forall>t\<in>set ts. spa_element_type_size t \<noteq> 0)"
    "list_ex (\<lambda>l. l \<noteq> SPA_NDARRAY_LAYOUT_ROW_MAJOR \<and> l \<noteq> SPA_NDARRAY_LAYOUT_COLUMN_MAJOR) ls \<longleftrightarrow>
      \<not> set ls \<subseteq> {SPA_NDARRAY_LAYOUT_ROW_MAJOR, SPA_NDARRAY_LAYOUT_COLUMN_MAJOR}"
    "list_ex (\<lambda>r. \<not> spa_ndarray_rate_valid r) rs \<longleftrightarrow> \<not> (\<forall>r\<in>set rs. 0 < num r \<and> 0 < denom r)" for ts ls rs
    by (auto simp: list_ex_iff spa_ndarray_rate_valid_def word_gt_0)
  show ?thesis
    unfolding spa_ndarray_choices_validate_def Inr sum.case option.case Let_def option.sel ex assms(3)
      ndarray_rate_compare_le
    by (cases "rate_choice c = SPA_CHOICE_Range") (use assms(1,2) in simp_all)
qed (simp add: spa_ndarray_choices_validate_def)

definition demo_info :: spa_ndarray_info where
  "demo_info = \<lparr>element_type = 18, layout = SPA_NDARRAY_LAYOUT_ROW_MAJOR,
     rate = \<lparr>num = 1000, denom = 1\<rparr>, n_dimensions = 2, shape = [80, 80]\<rparr>"

definition demo_choices :: spa_ndarray_choices where
  "demo_choices = \<lparr>n_element_types = 0, element_types = None, n_layouts = 0, layouts = None,
     rate_choice = SPA_CHOICE_Range, n_rate_values = 2,
     rate_values = Some [\<lparr>num = 1, denom = 2\<rparr>, \<lparr>num = 2000, denom = 1\<rparr>]\<rparr>"

theorem ndarray_choice_range_witness:
  "spa_ndarray_choices_validate (Some demo_info) 276 (Some demo_choices) = Inr () \<and>
   unat (num (arr 2 (rate_values demo_choices) ! 0)) * unat (denom (rate demo_info)) \<le>
     unat (num (rate demo_info)) * unat (denom (arr 2 (rate_values demo_choices) ! 0))"
proof -
  have v: "spa_ndarray_choices_validate (Some demo_info) 276 (Some demo_choices) = Inr ()" by code_simp
  moreover have "denom (rate demo_info) \<noteq> 0" "rate_choice demo_choices = SPA_CHOICE_Range"
    by (simp_all add: demo_info_def demo_choices_def)
  moreover have "n_rate_values demo_choices = 2" by (simp add: demo_choices_def)
  ultimately show ?thesis
    using ndarray_choice_range [of demo_info demo_choices "arr 2 (rate_values demo_choices)" 276] by simp
qed

end
