(* ===== verification/PW_Dense.thy ===== *)
theory PW_Dense
  imports Complex_Main PW_Prelude "HOL-Library.Multiset"
begin

text \<open>
  The dense matrix-vector task of \<^verbatim>\<open>spa/plugins/filter-graph/ndarray-executor.c\<close>: its validation, the
  split of its rows over the lanes of a worker group, and the dot products.

  Addresses are 64-bit words. Elements are of an arbitrary type with the fused multiply-add and the
  addition of the code as parameters, so that order and grouping of the operations are those of the
  C code; the matrix, input and output arrays are functions of the element index (validation makes
  the output disjoint from the others). The vector kernels are written with lists of 8 and 4 lanes.
  The cache line has 64 bytes.
\<close>

section \<open>Tasks and their validation\<close>

abbreviation (input) SPA_CACHE_LINE_SIZE :: u64 where "SPA_CACHE_LINE_SIZE \<equiv> 64"
abbreviation (input) SPA_FGN_DENSE_F32_FLAG_ACCUMULATE :: u32 where
  "SPA_FGN_DENSE_F32_FLAG_ACCUMULATE \<equiv> 1"

record spa_fgn_dense_f32_task =
  struct_size :: u32
  tflags :: u32
  tmatrix :: u64
  tinput :: u64
  toutput :: u64
  n_rows :: u32
  matrix_row_stride :: u32
  first_column :: u32
  n_columns :: u32

definition region :: "u64 \<Rightarrow> u64 \<Rightarrow> (u64 \<times> u64) option" where
  "region pointer sz = (if sz > 0xFFFFFFFFFFFFFFFF - pointer then None else Some (pointer, pointer + sz))"

definition regions_overlap :: "u64 \<Rightarrow> u64 \<Rightarrow> u64 \<Rightarrow> u64 \<Rightarrow> bool" where
  "regions_overlap a_begin a_end b_begin b_end \<longleftrightarrow> a_begin < b_end \<and> b_begin < a_end"

definition dense_sizes :: "spa_fgn_dense_f32_task \<Rightarrow> (u64 \<times> u64 \<times> u64) option" where
  "dense_sizes task =
     Option.bind (spa_overflow_mul (ucast (n_rows task) - 1) (ucast (matrix_row_stride task))) (\<lambda>last_row.
     Option.bind (spa_overflow_add last_row (ucast (first_column task))) (\<lambda>matrix_elements.
     Option.bind (spa_overflow_add matrix_elements (ucast (n_columns task))) (\<lambda>matrix_elements.
     Option.bind (spa_overflow_mul matrix_elements 4) (\<lambda>matrix_bytes.
     Option.bind (spa_overflow_mul (ucast (n_columns task)) 4) (\<lambda>input_bytes.
     Option.bind (spa_overflow_mul (ucast (n_rows task)) 4) (\<lambda>output_bytes.
     Some (matrix_bytes, input_bytes, output_bytes)))))))"

definition validate_dense_task :: "spa_fgn_dense_f32_task option \<Rightarrow> unit res" where
  "validate_dense_task task' = (case task' of None \<Rightarrow> Inl EINVAL | Some task \<Rightarrow>
     (if struct_size task < 48 \<or> tflags task AND NOT SPA_FGN_DENSE_F32_FLAG_ACCUMULATE \<noteq> 0 \<or>
         tmatrix task = 0 \<or> tinput task = 0 \<or> toutput task = 0 \<or> n_rows task = 0 \<or> n_columns task = 0 \<or>
         matrix_row_stride task = 0 \<or> first_column task > matrix_row_stride task \<or>
         n_columns task > matrix_row_stride task - first_column task \<or>
         tmatrix task mod 4 \<noteq> 0 \<or> tinput task mod 4 \<noteq> 0 \<or> toutput task mod 4 \<noteq> 0
      then Inl EINVAL
      else case dense_sizes task of
        None \<Rightarrow> Inl EOVERFLOW
      | Some (matrix_bytes, input_bytes, output_bytes) \<Rightarrow>
          (case (region (tmatrix task) matrix_bytes, region (tinput task) input_bytes,
                 region (toutput task) output_bytes) of
             (Some (mb, me), Some (ib, ie), Some (ob, oe)) \<Rightarrow>
               if regions_overlap ob oe mb me \<or> regions_overlap ob oe ib ie then Inl EINVAL else Inr ()
           | _ \<Rightarrow> Inl EOVERFLOW)))"

section \<open>Lanes\<close>

definition proportional_row :: "u32 \<Rightarrow> u32 \<Rightarrow> u32 \<Rightarrow> u32" where
  "proportional_row rows lane n_lanes =
     (let quotient = rows div n_lanes; remainder = rows mod n_lanes
      in lane * quotient + (if lane < remainder then lane else remainder))"

definition cache_line_boundary :: "spa_fgn_dense_f32_task \<Rightarrow> u32 \<Rightarrow> u32 \<Rightarrow> u32" where
  "cache_line_boundary task lane n_lanes =
     (if lane = 0 then 0
      else if lane \<ge> n_lanes then n_rows task
      else let row = proportional_row (n_rows task) lane n_lanes;
               address = toutput task + ucast row * 4;
               misalignment = address AND (SPA_CACHE_LINE_SIZE - 1);
               adjustment = (if misalignment = 0 then 0 else SPA_CACHE_LINE_SIZE - misalignment);
               adjusted_row = ucast row + adjustment div 4
           in if adjusted_row < ucast (n_rows task) then ucast adjusted_row else n_rows task)"

section \<open>Dot products\<close>

text \<open>\<open>fma l r s\<close> is \<^verbatim>\<open>fmaf(l, r, s)\<close>; \<open>left\<close> and \<open>right\<close> are indexed from the pointers passed.\<close>

definition dense_dot_f32_scalar ::
    "('f \<Rightarrow> 'f \<Rightarrow> 'f \<Rightarrow> 'f) \<Rightarrow> ('f \<Rightarrow> 'f \<Rightarrow> 'f) \<Rightarrow> 'f \<Rightarrow> (nat \<Rightarrow> 'f) \<Rightarrow> (nat \<Rightarrow> 'f) \<Rightarrow> nat \<Rightarrow> 'f" where
  "dense_dot_f32_scalar fma add zero left right cnt =
     (let chunks = cnt div 4; remainder = cnt mod 4;
          (sum0, sum1, sum2, sum3) = fold (\<lambda>i (sum0, sum1, sum2, sum3). let base = i * 4 in
             (fma (left base) (right base) sum0, fma (left (base + 1)) (right (base + 1)) sum1,
              fma (left (base + 2)) (right (base + 2)) sum2, fma (left (base + 3)) (right (base + 3)) sum3))
             [0..<chunks] (zero, zero, zero, zero);
          sum0 = fold (\<lambda>i s. let index = chunks * 4 + i in fma (left index) (right index) s)
             [0..<remainder] sum0
      in add (add sum0 sum1) (add sum2 sum3))"

definition vec_fma :: "('f \<Rightarrow> 'f \<Rightarrow> 'f \<Rightarrow> 'f) \<Rightarrow> nat \<Rightarrow> (nat \<Rightarrow> 'f) \<Rightarrow> (nat \<Rightarrow> 'f) \<Rightarrow> nat \<Rightarrow> 'f list \<Rightarrow> 'f list" where
  "vec_fma fma w left right base s = map (\<lambda>l. fma (left (base + l)) (right (base + l)) (s ! l)) [0..<w]"

definition vec_add :: "('f \<Rightarrow> 'f \<Rightarrow> 'f) \<Rightarrow> 'f list \<Rightarrow> 'f list \<Rightarrow> 'f list" where
  "vec_add add a b = map2 add a b"

definition vec_loop :: "('f \<Rightarrow> 'f \<Rightarrow> 'f \<Rightarrow> 'f) \<Rightarrow> ('f \<Rightarrow> 'f \<Rightarrow> 'f) \<Rightarrow> 'f \<Rightarrow> nat \<Rightarrow> (nat \<Rightarrow> 'f) \<Rightarrow> (nat \<Rightarrow> 'f) \<Rightarrow>
    nat \<Rightarrow> 'f list" where
  "vec_loop fma add zero w left right chunks =
     (let z = replicate w zero;
          (sum0, sum1, sum2, sum3) = fold (\<lambda>i (sum0, sum1, sum2, sum3). let base = i * (4 * w) in
             (vec_fma fma w left right base sum0, vec_fma fma w left right (base + w) sum1,
              vec_fma fma w left right (base + 2 * w) sum2, vec_fma fma w left right (base + 3 * w) sum3))
             [0..<chunks] (z, z, z, z)
      in vec_add add (vec_add add sum0 sum1) (vec_add add sum2 sum3))"

definition dense_dot_f32_avx2 ::
    "('f \<Rightarrow> 'f \<Rightarrow> 'f \<Rightarrow> 'f) \<Rightarrow> ('f \<Rightarrow> 'f \<Rightarrow> 'f) \<Rightarrow> 'f \<Rightarrow> (nat \<Rightarrow> 'f) \<Rightarrow> (nat \<Rightarrow> 'f) \<Rightarrow> nat \<Rightarrow> 'f" where
  "dense_dot_f32_avx2 fma add zero left right cnt =
     (let chunks = cnt div 32; remainder = cnt mod 32;
          values = vec_loop fma add zero 8 left right chunks;
          sum = add (values ! 0) (values ! 1);
          sum = fold (\<lambda>i s. add s (values ! i)) [2..<8] sum
      in fold (\<lambda>i s. let index = chunks * 32 + i in fma (left index) (right index) s) [0..<remainder] sum)"

definition dense_dot_f32_neon ::
    "('f \<Rightarrow> 'f \<Rightarrow> 'f \<Rightarrow> 'f) \<Rightarrow> ('f \<Rightarrow> 'f \<Rightarrow> 'f) \<Rightarrow> 'f \<Rightarrow> (nat \<Rightarrow> 'f) \<Rightarrow> (nat \<Rightarrow> 'f) \<Rightarrow> nat \<Rightarrow> 'f" where
  "dense_dot_f32_neon fma add zero left right cnt =
     (let chunks = cnt div 16; remainder = cnt mod 16;
          v = vec_loop fma add zero 4 left right chunks;
          sum = add (add (v ! 0) (v ! 1)) (add (v ! 2) (v ! 3))
      in fold (\<lambda>i s. let index = chunks * 16 + i in fma (left index) (right index) s) [0..<remainder] sum)"

text \<open>
  The loop of \<^verbatim>\<open>dense_dot_f32_blocked\<close> over a 32-bit \<^verbatim>\<open>first\<close>, which may wrap; \<open>None\<close> is a loop
  that does not end.
\<close>

partial_function (option) blocked_loop ::
    "((nat \<Rightarrow> 'f) \<Rightarrow> (nat \<Rightarrow> 'f) \<Rightarrow> nat \<Rightarrow> 'f) \<Rightarrow> ('f \<Rightarrow> 'f \<Rightarrow> 'f) \<Rightarrow> (nat \<Rightarrow> 'f) \<Rightarrow> (nat \<Rightarrow> 'f) \<Rightarrow> u32 \<Rightarrow>
     u32 \<Rightarrow> 'f \<Rightarrow> 'f option" where
  "blocked_loop block add left right cnt first acc =
     (if first < cnt then
        (let remaining = cnt - first; sz = min remaining 2048
         in blocked_loop block add left right cnt (first + 2048)
              (add acc (block (\<lambda>i. left (unat first + i)) (\<lambda>i. right (unat first + i)) (unat sz))))
      else Some acc)"

definition dense_dot_f32_blocked ::
    "((nat \<Rightarrow> 'f) \<Rightarrow> (nat \<Rightarrow> 'f) \<Rightarrow> nat \<Rightarrow> 'f) \<Rightarrow> ('f \<Rightarrow> 'f \<Rightarrow> 'f) \<Rightarrow> 'f \<Rightarrow> (nat \<Rightarrow> 'f) \<Rightarrow> (nat \<Rightarrow> 'f) \<Rightarrow> u32 \<Rightarrow>
     'f option" where
  "dense_dot_f32_blocked block add zero left right cnt = blocked_loop block add left right cnt 0 zero"

text \<open>The three builds of \<^verbatim>\<open>select_dense_dot_f32\<close>; for x86-64 with what \<^verbatim>\<open>__builtin_cpu_supports\<close> says.\<close>

datatype platform = X86_64 bool | AARCH64 | OTHER

definition select_dense_dot_f32 ::
    "platform \<Rightarrow> ('f \<Rightarrow> 'f \<Rightarrow> 'f \<Rightarrow> 'f) \<Rightarrow> ('f \<Rightarrow> 'f \<Rightarrow> 'f) \<Rightarrow> 'f \<Rightarrow> (nat \<Rightarrow> 'f) \<Rightarrow> (nat \<Rightarrow> 'f) \<Rightarrow> u32 \<Rightarrow>
     'f option" where
  "select_dense_dot_f32 pf fma add zero left right cnt =
     (let scalar = Some (dense_dot_f32_scalar fma add zero left right (unat cnt))
      in if cnt < 32 then scalar
         else case pf of
           X86_64 avx2_fma \<Rightarrow>
             if avx2_fma then
               (if cnt < 8192 then Some (dense_dot_f32_avx2 fma add zero left right (unat cnt))
                else dense_dot_f32_blocked (dense_dot_f32_avx2 fma add zero) add zero left right cnt)
             else scalar
         | AARCH64 \<Rightarrow>
             if cnt < 8192 then Some (dense_dot_f32_neon fma add zero left right (unat cnt))
             else dense_dot_f32_blocked (dense_dot_f32_neon fma add zero) add zero left right cnt
         | OTHER \<Rightarrow> scalar)"

section \<open>The task of a lane\<close>

type_synonym 'f dot = "(nat \<Rightarrow> 'f) \<Rightarrow> (nat \<Rightarrow> 'f) \<Rightarrow> u32 \<Rightarrow> 'f option"

definition dense_row :: "'f dot \<Rightarrow> spa_fgn_dense_f32_task \<Rightarrow> (nat \<Rightarrow> 'f) \<Rightarrow> (nat \<Rightarrow> 'f) \<Rightarrow> nat \<Rightarrow> 'f option" where
  "dense_row dot task mat inp row =
     dot (\<lambda>i. mat (row * unat (matrix_row_stride task) + unat (first_column task) + i)) inp (n_columns task)"

fun dense_rows :: "'f dot \<Rightarrow> ('f \<Rightarrow> 'f \<Rightarrow> 'f) \<Rightarrow> spa_fgn_dense_f32_task \<Rightarrow> (nat \<Rightarrow> 'f) \<Rightarrow> (nat \<Rightarrow> 'f) \<Rightarrow>
    nat list \<Rightarrow> (nat \<Rightarrow> 'f) \<Rightarrow> (nat \<Rightarrow> 'f) option" where
  "dense_rows dot add task mat inp [] out = Some out"
| "dense_rows dot add task mat inp (row # rows) out =
     (let accumulate = (tflags task AND SPA_FGN_DENSE_F32_FLAG_ACCUMULATE \<noteq> 0)
      in Option.bind (dense_row dot task mat inp row) (\<lambda>sum.
         dense_rows dot add task mat inp rows
           (out(row := if accumulate then add (out row) sum else sum))))"

definition dense_task :: "'f dot \<Rightarrow> ('f \<Rightarrow> 'f \<Rightarrow> 'f) \<Rightarrow> spa_fgn_dense_f32_task \<Rightarrow> (nat \<Rightarrow> 'f) \<Rightarrow> (nat \<Rightarrow> 'f) \<Rightarrow>
    u32 \<Rightarrow> u32 \<Rightarrow> (nat \<Rightarrow> 'f) \<Rightarrow> (nat \<Rightarrow> 'f) option" where
  "dense_task dot add task mat inp lane n_lanes out =
     (let first = cache_line_boundary task lane n_lanes;
          last = cache_line_boundary task (lane + 1) n_lanes
      in dense_rows dot add task mat inp [unat first..<unat last] out)"

section \<open>Validated tasks\<close>

definition dense_ok :: "spa_fgn_dense_f32_task \<Rightarrow> bool" where
  "dense_ok task \<longleftrightarrow> 0 < unat (n_rows task) \<and> 0 < unat (n_columns task) \<and>
     unat (first_column task) + unat (n_columns task) \<le> unat (matrix_row_stride task) \<and>
     unat (tmatrix task) + 4 * ((unat (n_rows task) - 1) * unat (matrix_row_stride task) +
       unat (first_column task) + unat (n_columns task)) < 2 ^ 64 \<and>
     unat (tinput task) + 4 * unat (n_columns task) < 2 ^ 64 \<and>
     unat (toutput task) + 4 * unat (n_rows task) < 2 ^ 64 \<and> unat (toutput task) mod 4 = 0"

lemma region_Some:
  "region p n = Some (b, e) \<longleftrightarrow> unat p + unat n < 2 ^ 64 \<and> b = p \<and> e = p + n"
proof -
  have "p \<le> 0xFFFFFFFFFFFFFFFF" using unat_lt_64 [of p] by (simp add: word_le_unat)
  hence "unat (0xFFFFFFFFFFFFFFFF - p) = 2 ^ 64 - 1 - unat p" by (simp add: unat_minus_no_wrap)
  thus ?thesis using unat_lt_64 [of p] by (auto simp: region_def word_less_unat split: if_splits)
qed

lemma unat_mod_4: "unat (x mod 4 :: u64) = unat x mod 4"
  by (simp add: unat_mod_distrib)

lemma dense_sizes_exact:
  assumes "dense_sizes task = Some (mb, ib, ob)" "0 < unat (n_rows task)"
  shows "unat mb = 4 * ((unat (n_rows task) - 1) * unat (matrix_row_stride task) +
      unat (first_column task) + unat (n_columns task))"
    "unat ib = 4 * unat (n_columns task)" "unat ob = 4 * unat (n_rows task)"
proof -
  have "unat (ucast (n_rows task) - 1 :: u64) = unat (n_rows task) - 1"
    using assms(2) by (subst unat_minus_no_wrap) (simp_all add: word_le_unat)
  thus "unat mb = 4 * ((unat (n_rows task) - 1) * unat (matrix_row_stride task) +
      unat (first_column task) + unat (n_columns task))"
    "unat ib = 4 * unat (n_columns task)" "unat ob = 4 * unat (n_rows task)"
    using assms(1)
    by (auto simp: dense_sizes_def bind_eq_Some_conv dest!: spa_overflow_add_unat spa_overflow_mul_unat)
qed

lemma validate_dense_fields:
  assumes "validate_dense_task (Some task) = Inr ()"
  obtains mb ib ob where "dense_sizes task = Some (mb, ib, ob)" "n_rows task \<noteq> 0" "n_columns task \<noteq> 0"
    "\<not> first_column task > matrix_row_stride task"
    "\<not> n_columns task > matrix_row_stride task - first_column task" "toutput task mod 4 = 0"
    "unat (tmatrix task) + unat mb < 2 ^ 64" "unat (tinput task) + unat ib < 2 ^ 64"
    "unat (toutput task) + unat ob < 2 ^ 64"
    "\<not> regions_overlap (toutput task) (toutput task + ob) (tmatrix task) (tmatrix task + mb)"
    "\<not> regions_overlap (toutput task) (toutput task + ob) (tinput task) (tinput task + ib)"
  using assms
  by (auto simp: validate_dense_task_def region_Some split: if_splits option.splits prod.splits)

lemma validate_dense_ok:
  assumes "validate_dense_task (Some task) = Inr ()"
  shows "dense_ok task"
proof -
  from validate_dense_fields [OF assms] obtain mb ib ob where
    f: "dense_sizes task = Some (mb, ib, ob)" "n_rows task \<noteq> 0" "n_columns task \<noteq> 0"
    "\<not> first_column task > matrix_row_stride task"
    "\<not> n_columns task > matrix_row_stride task - first_column task" "toutput task mod 4 = 0"
    "unat (tmatrix task) + unat mb < 2 ^ 64" "unat (tinput task) + unat ib < 2 ^ 64"
    "unat (toutput task) + unat ob < 2 ^ 64" by metis
  have r: "0 < unat (n_rows task)" "0 < unat (n_columns task)" using f(2,3) by (simp_all add: unat_gt_0)
  have "first_column task \<le> matrix_row_stride task" using f(4) by simp
  hence "unat (matrix_row_stride task - first_column task) =
      unat (matrix_row_stride task) - unat (first_column task)" by (rule unat_minus_no_wrap)
  hence "unat (first_column task) + unat (n_columns task) \<le> unat (matrix_row_stride task)"
    using f(4,5) by (simp add: word_less_unat)
  moreover have "unat (toutput task) mod 4 = 0" using f(6) unat_mod_4 [of "toutput task"] by simp
  ultimately show ?thesis using r f(7-9) dense_sizes_exact [OF f(1) r(1)] by (simp add: dense_ok_def)
qed

section \<open>The split of the rows\<close>

definition row_of :: "nat \<Rightarrow> nat \<Rightarrow> nat \<Rightarrow> nat" where
  "row_of R n l = l * (R div n) + min l (R mod n)"

definition line_up :: "nat \<Rightarrow> nat" where
  "line_up a = (a + 63) div 64 * 64"

definition bound :: "nat \<Rightarrow> nat \<Rightarrow> nat \<Rightarrow> nat \<Rightarrow> nat" where
  "bound out R n l = (if l = 0 then 0 else if n \<le> l then R
     else min R ((line_up (out + 4 * row_of R n l) - out) div 4))"

lemma row_of_le:
  assumes "0 < n" "l \<le> n"
  shows "row_of R n l \<le> R"
proof -
  have "l * (R div n) + min l (R mod n) \<le> n * (R div n) + R mod n"
    using assms by (intro add_mono mult_le_mono1) auto
  thus ?thesis by (simp add: row_of_def)
qed

lemma row_of_mono: "l \<le> m \<Longrightarrow> row_of R n l \<le> row_of R n m"
  unfolding row_of_def by (intro add_mono mult_le_mono1) auto

lemma line_up_mono: "a \<le> b \<Longrightarrow> line_up a \<le> line_up b"
  unfolding line_up_def by (intro mult_le_mono1 div_le_mono) simp

lemma bound_mono:
  assumes "0 < n" "l \<le> m"
  shows "bound out R n l \<le> bound out R n m"
proof (cases "l = 0 \<or> n \<le> m")
  case True
  thus ?thesis using assms by (auto simp: bound_def)
next
  case False
  have "line_up (out + 4 * row_of R n l) \<le> line_up (out + 4 * row_of R n m)"
    using row_of_mono [OF assms(2)] by (intro line_up_mono) simp
  thus ?thesis using False assms(2) by (auto simp: bound_def intro!: min.mono div_le_mono diff_le_mono)
qed

lemma line_up_step: "line_up a = a + (if a mod 64 = 0 then 0 else 64 - a mod 64)"
proof -
  define q r where "q = a div 64" and "r = a mod 64"
  have a: "a = 64 * q + r" "r < 64" by (simp_all add: q_def r_def)
  have "(64 * q + (r + 63)) div 64 = (r + 63) div 64 + q" by simp
  moreover have "(r + 63) div 64 = (if r = 0 then 0 else 1)"
  proof (cases "r = 0")
    case False
    hence "(r - 1 + 64) div 64 = 1" using a(2) by (subst div_add_self2) simp_all
    thus ?thesis using False by simp
  qed simp
  ultimately have "line_up a = 64 * q + (if r = 0 then 0 else 64)"
    unfolding line_up_def a(1) add.assoc by simp
  thus ?thesis using a by (simp flip: r_def)
qed

lemma proportional_row_nat:
  assumes "0 < n" "l \<le> n" "n < 2 ^ 32"
  shows "unat (proportional_row R (of_nat l) (of_nat n)) = row_of (unat R) n l"
proof -
  have n: "unat (of_nat n :: u32) = n" "unat (of_nat l :: u32) = l" using assms by (simp_all add: unat_of_nat_32)
  have le: "l * (unat R div n) + min l (unat R mod n) < 2 ^ 32"
    using row_of_le [OF assms(1,2), of "unat R"] unat_lt_32 [of R] by (simp add: row_of_def)
  have m: "unat (of_nat l * (R div of_nat n)) = l * (unat R div n)"
    using le by (simp add: unat_word_ariths(2) unat_div_distrib n)
  have r: "unat (if of_nat l < R mod of_nat n then of_nat l else R mod of_nat n) = min l (unat R mod n)"
    by (simp add: word_less_unat unat_mod_distrib n min_def)
  have "unat (of_nat l * (R div of_nat n) + (if of_nat l < R mod of_nat n then of_nat l else R mod of_nat n)) =
      l * (unat R div n) + min l (unat R mod n)"
    using le m r by (simp add: unat_plus_32 [of "of_nat l * (R div of_nat n)"])
  thus ?thesis by (simp add: proportional_row_def row_of_def Let_def)
qed

lemma unat_and_63_64: "unat (x AND 63) = unat x mod 64" for x :: u64
  using unat_and_mask [of x 6] by (simp add: mask_eq_exp_minus_1)

lemma cache_line_boundary_nat:
  assumes ok: "dense_ok task" and n: "0 < n" "l \<le> n" "n < 2 ^ 32"
  shows "unat (cache_line_boundary task (of_nat l) (of_nat n)) =
    bound (unat (toutput task)) (unat (n_rows task)) n l"
proof -
  let ?R = "unat (n_rows task)" and ?o = "unat (toutput task)"
  have u: "unat (of_nat n :: u32) = n" "unat (of_nat l :: u32) = l" using n by (simp_all add: unat_of_nat_32)
  have z: "(of_nat l :: u32) = 0 \<longleftrightarrow> l = 0" "(of_nat n :: u32) \<le> of_nat l \<longleftrightarrow> n \<le> l"
    using u by (simp_all add: word_eq_unat word_le_unat)
  let ?row = "proportional_row (n_rows task) (of_nat l) (of_nat n)"
  let ?a = "toutput task + ucast ?row * 4"
  let ?adj = "(if ?a AND 63 = 0 then 0 else 64 - (?a AND 63))"
  define r where "r = row_of ?R n l"
  have row: "unat ?row = r" using proportional_row_nat [OF n] by (simp add: r_def)
  have rR: "r \<le> ?R" using row_of_le [OF n(1,2)] by (simp add: r_def)
  have o: "?o + 4 * ?R < 2 ^ 64" using ok by (simp add: dense_ok_def)
  have R: "?R < 2 ^ 32" using unat_lt_32 [of "n_rows task"] by simp
  have "unat (ucast ?row * 4 :: u64) = 4 * r" using row rR R by (simp add: unat_word_ariths(2))
  hence a: "unat ?a = ?o + 4 * r" using o rR by (simp add: unat_plus_64)
  have adj: "unat ?adj = line_up (?o + 4 * r) - (?o + 4 * r)"
  proof -
    have m: "unat (?a AND 63) = (?o + 4 * r) mod 64" by (simp add: unat_and_63_64 a)
    have "?a AND 63 \<le> 64" using m by (simp add: word_le_unat)
    hence "unat (64 - (?a AND 63)) = 64 - (?o + 4 * r) mod 64" using m by (simp add: unat_minus_no_wrap)
    thus ?thesis using m line_up_step [of "?o + 4 * r"] by (auto simp: word_eq_unat)
  qed
  have small: "line_up (?o + 4 * r) - (?o + 4 * r) < 64" using line_up_step [of "?o + 4 * r"] by (auto split: if_splits)
  have ar: "unat (ucast ?row + ?adj div 4) = (line_up (?o + 4 * r) - ?o) div 4"
  proof -
    have "unat (?adj div 4) = (line_up (?o + 4 * r) - (?o + 4 * r)) div 4"
      by (simp add: unat_div_distrib adj)
    moreover have "line_up (?o + 4 * r) - ?o = 4 * r + (line_up (?o + 4 * r) - (?o + 4 * r))"
      using line_up_step [of "?o + 4 * r"] by simp
    ultimately show ?thesis using row rR R small by (subst unat_plus_64) simp_all
  qed
  have "unat (ucast (ucast ?row + ?adj div 4) :: u32) = (line_up (?o + 4 * r) - ?o) div 4"
    if "(line_up (?o + 4 * r) - ?o) div 4 < ?R"
    using that R ar by (simp add: unsigned_ucast_eq take_bit_eq_mod)
  thus ?thesis using z ar row
    by (auto simp: cache_line_boundary_def bound_def Let_def word_less_unat r_def min_def)
qed

section \<open>Rows of the lanes\<close>

definition lane_rows :: "spa_fgn_dense_f32_task \<Rightarrow> nat \<Rightarrow> nat \<Rightarrow> nat list" where
  "lane_rows task n l = [unat (cache_line_boundary task (of_nat l) (of_nat n))..<
     unat (cache_line_boundary task (of_nat l + 1) (of_nat n))]"

lemma dense_task_rows:
  "dense_task dot add task mat inp (of_nat l) (of_nat n) out =
     dense_rows dot add task mat inp (lane_rows task n l) out"
  by (simp add: dense_task_def lane_rows_def)

lemma lane_rows_bound:
  assumes "dense_ok task" "0 < n" "l < n" "n < 2 ^ 32"
  shows "lane_rows task n l = [bound (unat (toutput task)) (unat (n_rows task)) n l..<
    bound (unat (toutput task)) (unat (n_rows task)) n (Suc l)]"
  using cache_line_boundary_nat [OF assms(1,2), of l] cache_line_boundary_nat [OF assms(1,2), of "Suc l"] assms(3,4)
  by (simp add: lane_rows_def add.commute)

lemma concat_intervals:
  "(\<And>l. l < n \<Longrightarrow> B l \<le> B (Suc l)) \<Longrightarrow>
     B 0 \<le> B n \<and> concat (map (\<lambda>l. [B l..<B (Suc l)]) [0..<n]) = [B 0..<B n]"
proof (induction n)
  case (Suc n)
  hence "B 0 \<le> B n" "B n \<le> B (Suc n)" "concat (map (\<lambda>l. [B l..<B (Suc l)]) [0..<n]) = [B 0..<B n]" by simp_all
  moreover from this have "[B 0..<B n] @ [B n..<B (Suc n)] = [B 0..<B (Suc n)]"
    using upt_add_eq_append [of "B 0" "B n" "B (Suc n) - B n"] by simp
  ultimately show ?case by simp
qed simp

lemma lanes_cover:
  assumes "dense_ok task" "0 < n" "n < 2 ^ 32"
  shows "concat (map (lane_rows task n) [0..<n]) = [0..<unat (n_rows task)]"
proof -
  let ?B = "bound (unat (toutput task)) (unat (n_rows task)) n"
  have "map (lane_rows task n) [0..<n] = map (\<lambda>l. [?B l..<?B (Suc l)]) [0..<n]"
    using lane_rows_bound [OF assms(1,2) _ assms(3)] by simp
  moreover have "concat (map (\<lambda>l. [?B l..<?B (Suc l)]) [0..<n]) = [?B 0..<?B n]"
    using concat_intervals [of n ?B] bound_mono [OF assms(2)] by simp
  moreover have "?B 0 = 0" "?B n = unat (n_rows task)" using assms(2) by (simp_all add: bound_def)
  ultimately show ?thesis by (simp only:)
qed

lemma boundary_aligned:
  assumes "out mod 4 = 0" "0 < l" "bound out R n l < R"
  shows "(out + 4 * bound out R n l) mod 64 = 0"
proof -
  let ?a = "out + 4 * row_of R n l"
  have "\<not> n \<le> l" using assms(2,3) by (auto simp: bound_def)
  hence b: "bound out R n l = (line_up ?a - out) div 4" using assms(2,3) by (auto simp: bound_def min_def split: if_splits)
  have ge: "out \<le> line_up ?a" by (simp add: line_up_step)
  have "4 dvd out" "4 dvd line_up ?a" using assms(1) by (auto simp: line_up_def)
  hence "4 dvd line_up ?a - out" by simp
  hence "out + 4 * bound out R n l = line_up ?a" using b ge by simp
  thus ?thesis by (simp add: line_up_def)
qed

lemma dense_rows_result:
  assumes "distinct rows"
  shows "dense_rows dot add task mat inp rows out =
    (if \<forall>r\<in>set rows. dense_row dot task mat inp r \<noteq> None
     then Some (\<lambda>r. if r \<in> set rows
       then (if tflags task AND SPA_FGN_DENSE_F32_FLAG_ACCUMULATE \<noteq> 0
             then add (out r) (the (dense_row dot task mat inp r)) else the (dense_row dot task mat inp r))
       else out r)
     else None)"
  using assms
proof (induction rows arbitrary: out)
  case (Cons r rows)
  show ?case
  proof (cases "dense_row dot task mat inp r")
    case (Some v)
    show ?thesis using Cons Some by (auto simp: Let_def fun_eq_iff)
  qed simp
qed simp

section \<open>Exact dot products\<close>

lemma fold_upt_sum:
  "fold (\<lambda>i s. f i + s) [0..<n] (a :: 'f :: comm_monoid_add) = (\<Sum>i<n. f i) + a"
  by (induction n) (simp_all add: ac_simps)

lemma sum_extend: "(\<Sum>i<a + w. f i) = (\<Sum>i<a. f i) + (\<Sum>j<w. f (a + j))"
  for f :: "nat \<Rightarrow> 'f :: comm_monoid_add"
  by (induction w) (simp_all add: ac_simps)

lemma sum_blocks: "(\<Sum>i<n. \<Sum>j<w. f (i * w + j)) = (\<Sum>i<n * w. f i)"
  for f :: "nat \<Rightarrow> 'f :: comm_monoid_add"
  by (induction n) (simp_all add: sum_extend [of f "_ * w" w] add.commute [of w])

abbreviation efma :: "'f :: comm_ring_1 \<Rightarrow> 'f \<Rightarrow> 'f \<Rightarrow> 'f" where
  "efma \<equiv> (\<lambda>l r s. l * r + s)"

lemma remainder_sum:
  "fold (\<lambda>i s. let index = k + i in efma (left index) (right index) s) [0..<n] a =
     (\<Sum>j<n. left (k + j) * right (k + j)) + (a :: 'f :: comm_ring_1)"
  unfolding Let_def by (rule fold_upt_sum)

lemma dot_scalar_exact:
  "dense_dot_f32_scalar efma (+) 0 left right n = (\<Sum>i<n. left i * right i :: 'f :: comm_ring_1)"
proof -
  let ?f = "\<lambda>i. left i * right i"
  have loop: "fold (\<lambda>i (sum0, sum1, sum2, sum3). let base = i * 4 in
      (efma (left base) (right base) sum0, efma (left (base + 1)) (right (base + 1)) sum1,
       efma (left (base + 2)) (right (base + 2)) sum2, efma (left (base + 3)) (right (base + 3)) sum3))
      [0..<k] (0, 0, 0, 0) =
    ((\<Sum>i<k. ?f (i * 4)), (\<Sum>i<k. ?f (i * 4 + 1)), (\<Sum>i<k. ?f (i * 4 + 2)), (\<Sum>i<k. ?f (i * 4 + 3)))" for k
    by (induction k) (simp_all add: Let_def add.commute)
  have "(\<Sum>i<k. ?f (i * 4)) + (\<Sum>i<k. ?f (i * 4 + 1)) + ((\<Sum>i<k. ?f (i * 4 + 2)) + (\<Sum>i<k. ?f (i * 4 + 3)))
      = (\<Sum>i<k * 4. ?f i)" for k
    unfolding sum_blocks [symmetric] by (simp add: sum.distrib numeral_eq_Suc add.assoc)
  moreover have "(\<Sum>i<n. ?f i) = (\<Sum>i<n div 4 * 4. ?f i) + (\<Sum>j<n mod 4. ?f (n div 4 * 4 + j))"
    using sum_extend [of ?f "n div 4 * 4" "n mod 4"] by simp
  ultimately show ?thesis
    unfolding dense_dot_f32_scalar_def Let_def [of "_ div _"] Let_def [of "_ mod _"] loop prod.case remainder_sum
    by (simp add: Let_def algebra_simps)
qed

lemma vec_loop_exact:
  fixes left right :: "nat \<Rightarrow> 'f :: comm_ring_1"
  assumes "w > 0"
  shows "length (vec_loop efma (+) 0 w left right k) = w"
    "(\<Sum>l<w. vec_loop efma (+) 0 w left right k ! l) = (\<Sum>i<k * (4 * w). left i * right i)"
proof -
  let ?f = "\<lambda>i. left i * right i"
  let ?acc = "\<lambda>k q. map (\<lambda>l. \<Sum>i<k. ?f (i * (4 * w) + q * w + l)) [0..<w]"
  let ?step = "\<lambda>i (sum0, sum1, sum2, sum3). let base = i * (4 * w) in
      (vec_fma efma w left right base sum0, vec_fma efma w left right (base + w) sum1,
       vec_fma efma w left right (base + 2 * w) sum2, vec_fma efma w left right (base + 3 * w) sum3)"
  let ?z = "replicate w (0 :: 'f)"
  have z: "?z = ?acc 0 q" for q by (simp add: map_replicate_const)
  have step: "vec_fma efma w left right (k * (4 * w) + q * w) (?acc k q) = ?acc (Suc k) q" for k q
    by (simp add: vec_fma_def add.commute)
  have loop: "fold ?step [0..<k] (?z, ?z, ?z, ?z) = (?acc k 0, ?acc k 1, ?acc k 2, ?acc k 3)" for k
  proof (induction k)
    case 0
    show ?case using z by simp
  next
    case (Suc k)
    have "fold ?step [0..<Suc k] (?z, ?z, ?z, ?z) = ?step k (fold ?step [0..<k] (?z, ?z, ?z, ?z))" by simp
    also have "\<dots> = (?acc (Suc k) 0, ?acc (Suc k) 1, ?acc (Suc k) 2, ?acc (Suc k) 3)"
      unfolding Suc.IH
      unfolding prod.case Let_def
      using step [of k 0] step [of k 1] step [of k 2] step [of k 3] by (simp only: mult_0 add_0_right mult_1)
    finally show ?case .
  qed
  have v: "vec_loop efma (+) 0 w left right k =
      vec_add (+) (vec_add (+) (?acc k 0) (?acc k 1)) (vec_add (+) (?acc k 2) (?acc k 3))"
    unfolding vec_loop_def Let_def [of "replicate w 0"] loop by (simp only: Let_def prod.case)
  show "length (vec_loop efma (+) 0 w left right k) = w" by (simp add: v vec_add_def)
  have "(\<Sum>l<w. vec_loop efma (+) 0 w left right k ! l) =
      (\<Sum>l<w. \<Sum>q<4. \<Sum>i<k. ?f (i * (4 * w) + q * w + l))"
    unfolding v by (intro sum.cong refl) (simp add: vec_add_def numeral_eq_Suc ac_simps)
  also have "\<dots> = (\<Sum>i<k. \<Sum>q<4. \<Sum>l<w. ?f (i * (4 * w) + q * w + l))"
    by (subst sum.swap, subst (2) sum.swap, subst sum.swap) (rule refl)
  also have "\<dots> = (\<Sum>i<k. \<Sum>j<4 * w. ?f (i * (4 * w) + j))"
  proof (rule sum.cong [OF refl])
    fix i
    show "(\<Sum>q<4. \<Sum>l<w. ?f (i * (4 * w) + q * w + l)) = (\<Sum>j<4 * w. ?f (i * (4 * w) + j))"
      using sum_blocks [of "\<lambda>j. ?f (i * (4 * w) + j)" w 4] by (simp only: add.assoc)
  qed
  also have "\<dots> = (\<Sum>i<k * (4 * w). ?f i)" by (rule sum_blocks)
  finally show "(\<Sum>l<w. vec_loop efma (+) 0 w left right k ! l) = (\<Sum>i<k * (4 * w). left i * right i)" .
qed

lemma sum_lanes_8:
  "fold (\<lambda>i s. s + g i) [2..<8] (g 0 + g 1) = (\<Sum>l<8. g l)" for g :: "nat \<Rightarrow> 'f :: comm_monoid_add"
  by (simp add: upt_rec numeral_eq_Suc ac_simps)

lemma sum_lanes_4:
  "g 0 + g 1 + (g 2 + g 3) = (\<Sum>l<4. g l)" for g :: "nat \<Rightarrow> 'f :: comm_monoid_add"
  by (simp add: numeral_eq_Suc ac_simps)

lemma dot_avx2_exact:
  "dense_dot_f32_avx2 efma (+) 0 left right n = (\<Sum>i<n. left i * right i :: 'f :: comm_ring_1)"
proof -
  let ?f = "\<lambda>i. left i * right i" and ?v = "vec_loop efma (+) 0 8 left right (n div 32)"
  have v: "fold (\<lambda>i s. s + ?v ! i) [2..<8] (?v ! 0 + ?v ! 1) = (\<Sum>i<n div 32 * 32. ?f i)"
    unfolding sum_lanes_8 using vec_loop_exact(2) [of 8 left right "n div 32"] by simp
  have "(\<Sum>i<n. ?f i) = (\<Sum>i<n div 32 * 32. ?f i) + (\<Sum>j<n mod 32. ?f (n div 32 * 32 + j))"
    using sum_extend [of ?f "n div 32 * 32" "n mod 32"] by simp
  thus ?thesis
    unfolding dense_dot_f32_avx2_def Let_def v fold_upt_sum by (simp add: add.commute)
qed

lemma dot_neon_exact:
  "dense_dot_f32_neon efma (+) 0 left right n = (\<Sum>i<n. left i * right i :: 'f :: comm_ring_1)"
proof -
  let ?f = "\<lambda>i. left i * right i" and ?v = "vec_loop efma (+) 0 4 left right (n div 16)"
  have v: "?v ! 0 + ?v ! 1 + (?v ! 2 + ?v ! 3) = (\<Sum>i<n div 16 * 16. ?f i)"
    unfolding sum_lanes_4 using vec_loop_exact(2) [of 4 left right "n div 16"] by simp
  have "(\<Sum>i<n. ?f i) = (\<Sum>i<n div 16 * 16. ?f i) + (\<Sum>j<n mod 16. ?f (n div 16 * 16 + j))"
    using sum_extend [of ?f "n div 16 * 16" "n mod 16"] by simp
  thus ?thesis
    unfolding dense_dot_f32_neon_def Let_def v fold_upt_sum by (simp add: add.commute)
qed

lemma blocked_loop_exact:
  fixes left right :: "nat \<Rightarrow> 'f :: comm_ring_1"
  assumes block: "\<And>l r n. block l r n = (\<Sum>i<n. l i * r i)"
    and small: "unat cnt \<le> 2 ^ 32 - 2048" and "unat first \<le> unat cnt"
  shows "blocked_loop block (+) left right cnt first s =
    Some (s + (\<Sum>i<unat cnt - unat first. left (unat first + i) * right (unat first + i)))"
  using assms(3)
proof (induction "unat cnt - unat first" arbitrary: first s rule: less_induct)
  case less
  let ?f = "\<lambda>i. left i * right i"
  show ?case
  proof (cases "first < cnt")
    case False
    thus ?thesis using less(2) by (subst blocked_loop.simps) (simp add: word_less_unat)
  next
    case True
    hence lt: "unat first < unat cnt" by (simp add: word_less_unat)
    hence rem: "unat (cnt - first) = unat cnt - unat first" by (simp add: unat_minus_no_wrap word_le_unat)
    define z where "z = min (unat cnt - unat first) 2048"
    have sz: "unat (min (cnt - first) 2048) = z" by (simp add: z_def min_def word_le_unat rem)
    have "z + (unat cnt - unat first - z) = unat cnt - unat first" by (simp add: z_def)
    hence split: "(\<Sum>i<unat cnt - unat first. ?f (unat first + i)) =
        (\<Sum>i<z. ?f (unat first + i)) + (\<Sum>i<unat cnt - unat first - z. ?f (unat first + z + i))"
      using sum_extend [of "\<lambda>i. ?f (unat first + i)" z "unat cnt - unat first - z"]
      by (simp only: add.assoc)
    have nxt: "unat (first + 2048) = unat first + 2048" using lt small by (simp add: unat_plus_32)
    show ?thesis
    proof (cases "unat first + 2048 \<le> unat cnt")
      case True
      have "blocked_loop block (+) left right cnt (first + 2048) t = Some (t +
          (\<Sum>i<unat cnt - unat (first + 2048). ?f (unat (first + 2048) + i)))" for t
        using less(1) [of "first + 2048"] lt nxt True by simp
      thus ?thesis using \<open>first < cnt\<close> True sz split nxt z_def
        by (subst blocked_loop.simps) (simp add: Let_def block add.assoc)
    next
      case False
      hence "\<not> first + 2048 < cnt" "z = unat cnt - unat first"
        using nxt lt by (simp_all add: word_less_unat z_def)
      thus ?thesis using \<open>first < cnt\<close> sz
        by (subst blocked_loop.simps, subst blocked_loop.simps) (simp add: Let_def block)
    qed
  qed
qed

text \<open>Every selected kernel computes the exact dot product, where the elements form a ring.\<close>

lemma select_dot_exact:
  assumes "unat cnt \<le> 2 ^ 32 - 2048"
  shows "select_dense_dot_f32 pf efma (+) 0 left right cnt =
    Some (\<Sum>i<unat cnt. left i * right i :: 'f :: comm_ring_1)"
proof -
  have "dense_dot_f32_blocked (dense_dot_f32_avx2 efma (+) 0) (+) 0 left right cnt =
      Some (\<Sum>i<unat cnt. left i * right i)"
    unfolding dense_dot_f32_blocked_def
    by (subst blocked_loop_exact [OF dot_avx2_exact assms]) simp_all
  moreover have "dense_dot_f32_blocked (dense_dot_f32_neon efma (+) 0) (+) 0 left right cnt =
      Some (\<Sum>i<unat cnt. left i * right i)"
    unfolding dense_dot_f32_blocked_def
    by (subst blocked_loop_exact [OF dot_neon_exact assms]) simp_all
  ultimately show ?thesis
    by (simp add: select_dense_dot_f32_def Let_def dot_scalar_exact dot_avx2_exact dot_neon_exact
        split: platform.split)
qed

text \<open>The loop over the blocks: it ends whenever the counter cannot wrap, and only then.\<close>

lemma blocked_loop_ends:
  assumes "unat cnt \<le> 2 ^ 32 - 2048"
  shows "\<exists>y. blocked_loop block add left right cnt first s = Some y"
proof (induction "unat cnt - unat first" arbitrary: first s rule: less_induct)
  case less
  show ?case
  proof (cases "first < cnt")
    case False
    thus ?thesis by (subst blocked_loop.simps) simp
  next
    case True
    hence "unat first < unat cnt" by (simp add: word_less_unat)
    hence "unat cnt - unat (first + 2048) < unat cnt - unat first"
      using assms by (simp add: unat_plus_32)
    from less [OF this] show ?thesis using True by (subst blocked_loop.simps) (simp add: Let_def)
  qed
qed

lemma block_start_low:
  fixes first cnt :: u32
  assumes "2048 dvd unat first" "2 ^ 32 - 2048 < unat cnt"
  shows "first < cnt \<and> 2048 dvd unat (first + 2048)"
proof -
  from assms(1) obtain k where k: "unat first = 2048 * k" by (rule dvdE)
  hence "k < 2097152" using unat_lt_32 [of first] by simp
  hence "unat first \<le> 2 ^ 32 - 2048" using k by simp
  moreover have "unat (first + 2048) mod 2048 = (unat first + 2048) mod 2048"
    by (simp add: unat_word_ariths mod_mod_cancel)
  ultimately show ?thesis using assms by (simp add: word_less_unat dvd_eq_mod_eq_0)
qed

lemma blocked_loop_wraps:
  assumes "blocked_loop block add left right cnt first s = Some y"
  shows "\<not> (2048 dvd unat first \<and> 2 ^ 32 - 2048 < unat cnt)"
proof (rule blocked_loop.raw_induct [where P =
      "\<lambda>block add left right cnt first s y. \<not> (2048 dvd unat first \<and> 2 ^ 32 - 2048 < unat cnt)", OF _ assms])
  fix loop block add left right and cnt first :: u32 and s y
  assume "\<And>block add left right (cnt :: u32) (first :: u32) s y.
      loop block add left right cnt first s = Some y \<Longrightarrow> \<not> (2048 dvd unat first \<and> 2 ^ 32 - 2048 < unat cnt)"
    and "(if first < cnt then let remaining = cnt - first; sz = min remaining 2048
       in loop block add left right cnt (first + 2048) (add s (block (\<lambda>i. left (unat first + i))
            (\<lambda>i. right (unat first + i)) (unat sz))) else Some s) = Some y"
  thus "\<not> (2048 dvd unat first \<and> 2 ^ 32 - 2048 < unat cnt)"
    using block_start_low [of first cnt] by (auto simp: Let_def split: if_splits)
qed

section \<open>Runs with checked loads\<close>

text \<open>
  An array of 4-byte elements of which only the first \<open>bytes\<close> bytes may be accessed: any other element
  is \<open>None\<close>, a fault, and an operation on a fault is a fault.
\<close>

definition checked :: "u64 \<Rightarrow> (nat \<Rightarrow> 'f) \<Rightarrow> nat \<Rightarrow> 'f option" where
  "checked bytes f i = (if 4 * i + 4 \<le> unat bytes then Some (f i) else None)"

definition strict2 :: "('f \<Rightarrow> 'f \<Rightarrow> 'f) \<Rightarrow> 'f option \<Rightarrow> 'f option \<Rightarrow> 'f option" where
  "strict2 add a b = Option.bind a (\<lambda>x. Option.bind b (\<lambda>y. Some (add x y)))"

definition strict3 :: "('f \<Rightarrow> 'f \<Rightarrow> 'f \<Rightarrow> 'f) \<Rightarrow> 'f option \<Rightarrow> 'f option \<Rightarrow> 'f option \<Rightarrow> 'f option" where
  "strict3 fma a b c = Option.bind a (\<lambda>x. Option.bind b (\<lambda>y. Option.bind c (\<lambda>z. Some (fma x y z))))"

lemma strict_simps [simp]:
  "strict2 add (Some x) (Some y) = Some (add x y)" "strict3 fma (Some x) (Some y) (Some z) = Some (fma x y z)"
  by (simp_all add: strict2_def strict3_def)

lemma fold_strict:
  assumes "\<And>i x. i \<in> set is \<Longrightarrow> P x \<Longrightarrow> f' i (h x) = h (f i x) \<and> P (f i x)" "P x"
  shows "fold f' is (h x) = h (fold f is x) \<and> P (fold f is x)"
  using assms by (induction "is" arbitrary: x) simp_all

lemma block_in: "i < n div w \<Longrightarrow> i * w + w \<le> n" for n :: nat
proof -
  assume "i < n div w"
  hence "Suc i * w \<le> n div w * w" by (intro mult_le_mono1) simp
  also have "\<dots> \<le> n" by simp
  finally show ?thesis by simp
qed

text \<open>The elements that a kernel may read, here and with checked loads.\<close>

definition readable :: "nat \<Rightarrow> (nat \<Rightarrow> 'f option) \<Rightarrow> (nat \<Rightarrow> 'f option) \<Rightarrow> (nat \<Rightarrow> 'f) \<Rightarrow> (nat \<Rightarrow> 'f) \<Rightarrow> bool" where
  "readable cnt left' right' left right \<longleftrightarrow> (\<forall>i<cnt. left' i = Some (left i) \<and> right' i = Some (right i))"

lemma remainder_strict:
  assumes "readable (k + n) left' right' left right"
  shows "fold (\<lambda>i s. let index = k + i in strict3 fma (left' index) (right' index) s) [0..<n] (Some a) =
    Some (fold (\<lambda>i s. let index = k + i in fma (left index) (right index) s) [0..<n] a)"
  using fold_strict [of "[0..<n]" "\<lambda>_. True" _ Some "\<lambda>i s. let index = k + i in fma (left index) (right index) s"] assms
  by (simp add: Let_def readable_def)

lemma dot_scalar_strict:
  assumes "readable cnt left' right' left right"
  shows "dense_dot_f32_scalar (strict3 fma) (strict2 add) (Some zero) left' right' cnt =
    Some (dense_dot_f32_scalar fma add zero left right cnt)"
proof -
  let ?step' = "\<lambda>i (sum0, sum1, sum2, sum3). let base = i * 4 in
     (strict3 fma (left' base) (right' base) sum0, strict3 fma (left' (base + 1)) (right' (base + 1)) sum1,
      strict3 fma (left' (base + 2)) (right' (base + 2)) sum2, strict3 fma (left' (base + 3)) (right' (base + 3)) sum3)"
  let ?step = "\<lambda>i (sum0, sum1, sum2, sum3). let base = i * 4 in
     (fma (left base) (right base) sum0, fma (left (base + 1)) (right (base + 1)) sum1,
      fma (left (base + 2)) (right (base + 2)) sum2, fma (left (base + 3)) (right (base + 3)) sum3)"
  let ?h = "\<lambda>(a, b, c, d). (Some a, Some b, Some c, Some d)"
  have "?step' i (?h x) = ?h (?step i x)" if "i < cnt div 4" for i x
    using block_in [OF that] assms by (cases x) (simp add: Let_def readable_def)
  hence loop: "fold ?step' [0..<cnt div 4] (Some zero, Some zero, Some zero, Some zero) =
      ?h (fold ?step [0..<cnt div 4] (zero, zero, zero, zero))"
    using fold_strict [of "[0..<cnt div 4]" "\<lambda>_. True" ?step' ?h ?step "(zero, zero, zero, zero)"] by simp
  obtain s0 s1 s2 s3 where s: "fold ?step [0..<cnt div 4] (zero, zero, zero, zero) = (s0, s1, s2, s3)"
    by (rule prod_cases4)
  have r: "readable (cnt div 4 * 4 + cnt mod 4) left' right' left right" using assms by simp
  show ?thesis
    unfolding dense_dot_f32_scalar_def Let_def [of "_ div _"] Let_def [of "_ mod _"] loop s prod.case
    using remainder_strict [OF r] by (simp add: Let_def)
qed

lemma vec_fma_strict:
  assumes "readable cnt left' right' left right" "base + w \<le> cnt" "length s = w"
  shows "vec_fma (strict3 fma) w left' right' base (map Some s) = map Some (vec_fma fma w left right base s) \<and>
    length (vec_fma fma w left right base s) = w"
  using assms by (simp add: vec_fma_def readable_def)

lemma vec_add_strict: "vec_add (strict2 add) (map Some a) (map Some b) = map Some (vec_add add a b)"
  by (simp add: vec_add_def zip_map_map comp_def case_prod_beta)

lemma vec_loop_strict:
  assumes "readable cnt left' right' left right" "chunks = cnt div (4 * w)"
  shows "vec_loop (strict3 fma) (strict2 add) (Some zero) w left' right' chunks =
      map Some (vec_loop fma add zero w left right chunks) \<and> length (vec_loop fma add zero w left right chunks) = w"
proof -
  let ?step' = "\<lambda>i (sum0, sum1, sum2, sum3). let base = i * (4 * w) in
     (vec_fma (strict3 fma) w left' right' base sum0, vec_fma (strict3 fma) w left' right' (base + w) sum1,
      vec_fma (strict3 fma) w left' right' (base + 2 * w) sum2, vec_fma (strict3 fma) w left' right' (base + 3 * w) sum3)"
  let ?step = "\<lambda>i (sum0, sum1, sum2, sum3). let base = i * (4 * w) in
     (vec_fma fma w left right base sum0, vec_fma fma w left right (base + w) sum1,
      vec_fma fma w left right (base + 2 * w) sum2, vec_fma fma w left right (base + 3 * w) sum3)"
  let ?h = "\<lambda>(a, b, c, d). (map Some a, map Some b, map Some c, map Some d)"
  let ?P = "\<lambda>(a, b, c, d). length a = w \<and> length b = w \<and> length c = w \<and> length d = w"
  let ?z = "replicate w zero"
  have st: "?step' i (?h x) = ?h (?step i x) \<and> ?P (?step i x)" if "i \<in> set [0..<chunks]" "?P x" for i x
  proof -
    have "i * (4 * w) + 4 * w \<le> cnt" using that(1) assms(2) by (intro block_in) simp
    hence "i * (4 * w) + w \<le> cnt" "i * (4 * w) + w + w \<le> cnt" "i * (4 * w) + 2 * w + w \<le> cnt" "i * (4 * w) + 3 * w + w \<le> cnt"
      by linarith+
    thus ?thesis using that(2) by (cases x) (simp add: Let_def vec_fma_strict [OF assms(1)])
  qed
  have loop: "fold ?step' [0..<chunks] (replicate w (Some zero), replicate w (Some zero), replicate w (Some zero),
        replicate w (Some zero)) = ?h (fold ?step [0..<chunks] (?z, ?z, ?z, ?z)) \<and> ?P (fold ?step [0..<chunks] (?z, ?z, ?z, ?z))"
    using fold_strict [of "[0..<chunks]" ?P ?step' ?h ?step "(?z, ?z, ?z, ?z)", OF st] by (simp add: map_replicate)
  obtain s0 s1 s2 s3 where s: "fold ?step [0..<chunks] (?z, ?z, ?z, ?z) = (s0, s1, s2, s3)"
    by (rule prod_cases4)
  note loop = loop [unfolded s prod.case]
  have v: "vec_loop fma add zero w left right chunks = vec_add add (vec_add add s0 s1) (vec_add add s2 s3)"
    unfolding vec_loop_def Let_def [of "replicate w zero"] s by simp
  have "vec_loop (strict3 fma) (strict2 add) (Some zero) w left' right' chunks =
      map Some (vec_add add (vec_add add s0 s1) (vec_add add s2 s3))"
    unfolding vec_loop_def Let_def [of "replicate w (Some zero)"] loop [THEN conjunct1] by (simp add: vec_add_strict)
  thus ?thesis using loop unfolding v by (simp add: vec_add_def)
qed

lemma dot_avx2_strict:
  assumes "readable cnt left' right' left right"
  shows "dense_dot_f32_avx2 (strict3 fma) (strict2 add) (Some zero) left' right' cnt =
    Some (dense_dot_f32_avx2 fma add zero left right cnt)"
proof -
  let ?v = "vec_loop fma add zero 8 left right (cnt div 32)"
  have v: "vec_loop (strict3 fma) (strict2 add) (Some zero) 8 left' right' (cnt div 32) = map Some ?v" "length ?v = 8"
    using vec_loop_strict [OF assms, of "cnt div 32" 8] by simp_all
  have "fold (\<lambda>i s. strict2 add s (map Some ?v ! i)) [2..<8] (Some x) = Some (fold (\<lambda>i s. add s (?v ! i)) [2..<8] x)" for x
    using fold_strict [of "[2..<8]" "\<lambda>_. True" "\<lambda>i s. strict2 add s (map Some ?v ! i)" Some "\<lambda>i s. add s (?v ! i)"] v(2)
    by simp
  moreover have r: "readable (cnt div 32 * 32 + cnt mod 32) left' right' left right" using assms by simp
  note remainder_strict [OF r, unfolded Let_def]
  ultimately show ?thesis using v(2) unfolding dense_dot_f32_avx2_def Let_def v(1) by simp
qed

lemma dot_neon_strict:
  assumes "readable cnt left' right' left right"
  shows "dense_dot_f32_neon (strict3 fma) (strict2 add) (Some zero) left' right' cnt =
    Some (dense_dot_f32_neon fma add zero left right cnt)"
proof -
  let ?v = "vec_loop fma add zero 4 left right (cnt div 16)"
  have v: "vec_loop (strict3 fma) (strict2 add) (Some zero) 4 left' right' (cnt div 16) = map Some ?v" "length ?v = 4"
    using vec_loop_strict [OF assms, of "cnt div 16" 4] by simp_all
  have r: "readable (cnt div 16 * 16 + cnt mod 16) left' right' left right" using assms by simp
  from remainder_strict [OF r, unfolded Let_def]
  show ?thesis using v(2) unfolding dense_dot_f32_neon_def Let_def v(1) by simp
qed

lemma blocked_loop_strict:
  assumes block: "\<And>n l' r' l r. readable n l' r' l r \<Longrightarrow> block' l' r' n = Some (block l r n)"
    and mem: "readable (unat cnt) left' right' left right" and small: "unat cnt \<le> 2 ^ 32 - 2048"
  shows "blocked_loop block' (strict2 add) left' right' cnt first (Some s) =
    map_option Some (blocked_loop block add left right cnt first s)"
proof (induction "unat cnt - unat first" arbitrary: first s rule: less_induct)
  case less
  show ?case
  proof (cases "first < cnt")
    case False
    thus ?thesis by (subst (1 2) blocked_loop.simps) simp
  next
    case True
    hence lt: "unat first < unat cnt" by (simp add: word_less_unat)
    hence rem: "unat (cnt - first) = unat cnt - unat first" by (simp add: unat_minus_no_wrap word_le_unat)
    define z where "z = unat (min (cnt - first) 2048)"
    have "z \<le> unat cnt - unat first" unfolding z_def rem [symmetric] by (simp add: min_def word_le_unat)
    hence "readable z (\<lambda>i. left' (unat first + i)) (\<lambda>i. right' (unat first + i)) (\<lambda>i. left (unat first + i))
        (\<lambda>i. right (unat first + i))" using mem lt by (simp add: readable_def)
    note b = block [OF this]
    have "unat cnt - unat (first + 2048) < unat cnt - unat first" using lt small by (simp add: unat_plus_32)
    note ih = less [OF this]
    show ?thesis using True
      by (subst (1 2) blocked_loop.simps) (simp add: Let_def b ih flip: z_def)
  qed
qed

lemma blocked_loop_never: "2 ^ 32 - 2048 < unat cnt \<Longrightarrow> blocked_loop block add left right cnt 0 s = None"
  using blocked_loop_wraps [of block add left right cnt 0 s] by (cases "blocked_loop block add left right cnt 0 s") auto

lemma dot_blocked_strict:
  assumes "\<And>n l' r' l r. readable n l' r' l r \<Longrightarrow> block' l' r' n = Some (block l r n)"
    "readable (unat cnt) left' right' left right"
  shows "dense_dot_f32_blocked block' (strict2 add) (Some zero) left' right' cnt =
    map_option Some (dense_dot_f32_blocked block add zero left right cnt)"
proof (cases "unat cnt \<le> 2 ^ 32 - 2048")
  case True
  thus ?thesis unfolding dense_dot_f32_blocked_def using blocked_loop_strict [of block' block] assms by blast
next
  case False
  thus ?thesis by (simp add: dense_dot_f32_blocked_def blocked_loop_never)
qed

lemma select_dot_strict:
  assumes "readable (unat cnt) left' right' left right"
  shows "select_dense_dot_f32 pf (strict3 fma) (strict2 add) (Some zero) left' right' cnt =
    map_option Some (select_dense_dot_f32 pf fma add zero left right cnt)"
  using dot_scalar_strict [OF assms] dot_avx2_strict [OF assms] dot_neon_strict [OF assms]
    dot_blocked_strict [OF dot_avx2_strict assms] dot_blocked_strict [OF dot_neon_strict assms]
  by (simp add: select_dense_dot_f32_def Let_def split: platform.split)

text \<open>Rows that may be accessed give the checked result.\<close>

lemma dense_rows_strict:
  assumes "\<And>row. row \<in> set rows \<Longrightarrow> 4 * row + 4 \<le> unat ob \<and>
      dense_row dot' task mat' inp' row = map_option Some (dense_row dot task mat inp row)"
  shows "dense_rows dot' (strict2 add) task mat' inp' rows (checked ob out) =
    map_option (checked ob) (dense_rows dot add task mat inp rows out)"
  using assms
proof (induction rows arbitrary: out)
  case (Cons row rows)
  note r = Cons(2) [of row, simplified]
  have c: "(checked ob out)(row := Some x) = checked ob (out(row := x))" for x
    using r by (auto simp: checked_def fun_eq_iff)
  have o: "checked ob out row = Some (out row)" using r by (simp add: checked_def)
  show ?case using r Cons(1) [OF Cons(2)] by (cases "dense_row dot task mat inp row") (simp_all add: Let_def o c)
qed simp

section \<open>Properties\<close>

definition demo_task :: spa_fgn_dense_f32_task where
  "demo_task = \<lparr>struct_size = 48, tflags = 0, tmatrix = 0x10000, tinput = 0x20000, toutput = 0x30010,
     n_rows = 100, matrix_row_stride = 8, first_column = 2, n_columns = 4\<rparr>"

lemma extent: "a \<le> b \<Longrightarrow> c < d \<Longrightarrow> 4 * (a + f + c) + 4 \<le> 4 * (b + f + d)" for a b c d f :: nat
  by presburger

lemma demo_task_valid: "validate_dense_task (Some demo_task) = Inr ()"
  by (simp add: validate_dense_task_def demo_task_def dense_sizes_def spa_overflow_add_def
      spa_overflow_mul_def region_def regions_overlap_def)

text \<open>
  C15: the lanes of a dense task cover every row exactly once, in order, and rows of different
  lanes never share a 64-byte cache line of the output.
\<close>

theorem dense_lanes_partition:
  assumes "validate_dense_task (Some task) = Inr ()" "0 < n" "n \<le> 64"
  shows "concat (map (lane_rows task n) [0..<n]) = [0..<unat (n_rows task)] \<and>
    (\<forall>l m r r'. l < m \<and> m < n \<and> r \<in> set (lane_rows task n l) \<and> r' \<in> set (lane_rows task n m) \<longrightarrow>
       (unat (toutput task) + 4 * r) div 64 < (unat (toutput task) + 4 * r') div 64)"
proof (intro conjI allI impI)
  note ok = validate_dense_ok [OF assms(1)]
  have n: "n < 2 ^ 32" using assms(3) by simp
  show "concat (map (lane_rows task n) [0..<n]) = [0..<unat (n_rows task)]"
    by (rule lanes_cover [OF ok assms(2) n])
  fix l m r r' assume a: "l < m \<and> m < n \<and> r \<in> set (lane_rows task n l) \<and> r' \<in> set (lane_rows task n m)"
  let ?o = "unat (toutput task)" and ?B = "bound (unat (toutput task)) (unat (n_rows task)) n"
  have "r < ?B (Suc l)" "?B m \<le> r'" "r' < ?B (Suc m)"
    using a lane_rows_bound [OF ok assms(2) _ n] by auto
  moreover have "?B (Suc l) \<le> ?B m" "?B (Suc m) \<le> ?B n"
    using a by (intro bound_mono [OF assms(2)]; simp)+
  moreover have "?B n = unat (n_rows task)" using assms(2) by (simp add: bound_def)
  ultimately have "r < ?B m" "?B m \<le> r'" "?B m < unat (n_rows task)" by linarith+
  moreover have "(?o + 4 * ?B m) mod 64 = 0"
    using ok a \<open>?B m < unat (n_rows task)\<close> by (intro boundary_aligned) (auto simp: dense_ok_def)
  then obtain k where "?o + 4 * ?B m = 64 * k" by (auto elim: dvdE simp: dvd_eq_mod_eq_0 [symmetric])
  ultimately have "?o + 4 * r < k * 64" "k * 64 \<le> ?o + 4 * r'" by linarith+
  hence "(?o + 4 * r) div 64 < k" "k \<le> (?o + 4 * r') div 64"
    by (simp_all add: div_less_iff_less_mult less_eq_div_iff_mult_less_eq)
  thus "(?o + 4 * r) div 64 < (?o + 4 * r') div 64" by (rule less_le_trans)
qed

theorem dense_lanes_partition_witness:
  "concat (map (lane_rows demo_task 3) [0..<3]) = [0..<100]"
  using dense_lanes_partition [OF demo_task_valid, of 3] by (simp add: demo_task_def)

text \<open>
  C16: the number of lanes and the interleaving of their rows do not change the result of a dense
  task: writing the rows of all lanes in any order leaves the output of the serial run, for every
  arithmetic of the elements and every dot product kernel.
\<close>

theorem dense_lanes_deterministic:
  assumes "validate_dense_task (Some task) = Inr ()" "0 < n" "n \<le> 64"
    "mset rows = mset (concat (map (lane_rows task n) [0..<n]))"
  shows "dense_rows dot add task mat inp rows out = dense_task dot add task mat inp 0 1 out"
proof -
  have n: "n < 2 ^ 32" using assms(3) by simp
  note ok = validate_dense_ok [OF assms(1)]
  have "mset rows = mset [0..<unat (n_rows task)]" using assms(4) lanes_cover [OF ok assms(2) n] by simp
  hence r: "set rows = set [0..<unat (n_rows task)]" "distinct rows"
    by (metis set_mset_mset, metis distinct_upt mset_eq_imp_distinct_iff)
  have "dense_task dot add task mat inp 0 1 out =
      dense_rows dot add task mat inp [0..<unat (n_rows task)] out"
    using dense_task_rows [of dot add task mat inp 0 1] lanes_cover [OF ok, of 1] by simp
  thus ?thesis by (simp only: dense_rows_result [OF r(2)] dense_rows_result [OF distinct_upt] r(1))
qed

theorem dense_lanes_deterministic_witness:
  "dense_rows (\<lambda>l r c. Some (l 0 * r 0)) (+) demo_task int (\<lambda>_. 1) (rev [0..<100]) (\<lambda>_. 0) =
     dense_task (\<lambda>l r c. Some (l 0 * r 0)) (+) demo_task int (\<lambda>_. 1) 0 1 (\<lambda>_. 0)"
proof -
  have "concat (map (lane_rows demo_task 3) [0..<3]) = [0..<100]"
    using lanes_cover [OF validate_dense_ok [OF demo_task_valid], of 3] by (simp add: demo_task_def)
  hence "mset (rev [0..<100]) = mset (concat (map (lane_rows demo_task 3) [0..<3]))" by simp
  from dense_lanes_deterministic [OF demo_task_valid _ _ this] show ?thesis by simp
qed

text \<open>
  C17: for an accepted dense task no lane leaves the regions that were checked. The three regions do
  not wrap around and the output is disjoint from both inputs; and when every load and store of the
  lane is confined to the validated sizes (an access outside is a fault that spreads to the result),
  the lane computes the same output without a fault and leaves everything outside the output region alone. This holds for every
  kernel the executor may select and every arithmetic of the elements.
\<close>

theorem dense_task_in_bounds:
  assumes "validate_dense_task (Some task) = Inr ()" "0 < n" "n < 2 ^ 32" "lane < n"
  shows "\<exists>mb ib ob. dense_sizes task = Some (mb, ib, ob) \<and>
    unat (tmatrix task) + unat mb < 2 ^ 64 \<and> unat (tinput task) + unat ib < 2 ^ 64 \<and>
    unat (toutput task) + unat ob < 2 ^ 64 \<and>
    {unat (toutput task)..<unat (toutput task) + unat ob} \<inter>
      ({unat (tmatrix task)..<unat (tmatrix task) + unat mb} \<union> {unat (tinput task)..<unat (tinput task) + unat ib}) = {} \<and>
    dense_task (select_dense_dot_f32 pf (strict3 fma) (strict2 add) (Some zero)) (strict2 add) task
        (checked mb mat) (checked ib inp) (of_nat lane) (of_nat n) (checked ob out) =
      map_option (checked ob)
        (dense_task (select_dense_dot_f32 pf fma add zero) add task mat inp (of_nat lane) (of_nat n) out)"
proof -
  from validate_dense_fields [OF assms(1)] obtain mb ib ob where
    f: "dense_sizes task = Some (mb, ib, ob)" "n_rows task \<noteq> 0"
    "unat (tmatrix task) + unat mb < 2 ^ 64" "unat (tinput task) + unat ib < 2 ^ 64"
    "unat (toutput task) + unat ob < 2 ^ 64"
    "\<not> regions_overlap (toutput task) (toutput task + ob) (tmatrix task) (tmatrix task + mb)"
    "\<not> regions_overlap (toutput task) (toutput task + ob) (tinput task) (tinput task + ib)" by metis
  note ok = validate_dense_ok [OF assms(1)]
  have r: "0 < unat (n_rows task)" using f(2) by (simp add: unat_gt_0)
  note sz = dense_sizes_exact [OF f(1) r]
  have "4 * row + 4 \<le> unat ob \<and>
      dense_row (select_dense_dot_f32 pf (strict3 fma) (strict2 add) (Some zero)) task (checked mb mat) (checked ib inp) row =
      map_option Some (dense_row (select_dense_dot_f32 pf fma add zero) task mat inp row)"
    if "row \<in> set (lane_rows task n lane)" for row
  proof -
    have "row \<in> set (concat (map (lane_rows task n) [0..<n]))" using that assms(4) by auto
    hence row: "row < unat (n_rows task)" using lanes_cover [OF ok assms(2,3)] by simp
    hence "row * unat (matrix_row_stride task) \<le> (unat (n_rows task) - 1) * unat (matrix_row_stride task)"
      by (intro mult_le_mono1) simp
    hence "4 * (row * unat (matrix_row_stride task) + unat (first_column task) + i) + 4 \<le> unat mb"
      if "i < unat (n_columns task)" for i using extent [OF _ that] unfolding sz(1) by blast
    hence "readable (unat (n_columns task)) (\<lambda>i. checked mb mat (row * unat (matrix_row_stride task) +
        unat (first_column task) + i)) (checked ib inp) (\<lambda>i. mat (row * unat (matrix_row_stride task) +
        unat (first_column task) + i)) inp" using sz(2) by (simp add: readable_def checked_def)
    from select_dot_strict [OF this] show ?thesis using row sz(3) by (simp add: dense_row_def)
  qed
  from dense_rows_strict [OF this] have "dense_task (select_dense_dot_f32 pf (strict3 fma) (strict2 add) (Some zero))
        (strict2 add) task (checked mb mat) (checked ib inp) (of_nat lane) (of_nat n) (checked ob out) =
      map_option (checked ob)
        (dense_task (select_dense_dot_f32 pf fma add zero) add task mat inp (of_nat lane) (of_nat n) out)"
    unfolding dense_task_rows .
  moreover have "{unat (toutput task)..<unat (toutput task) + unat ob} \<inter>
      ({unat (tmatrix task)..<unat (tmatrix task) + unat mb} \<union> {unat (tinput task)..<unat (tinput task) + unat ib}) = {}"
    using f(3-7) by (auto simp: regions_overlap_def word_less_unat unat_plus_64)
  ultimately show ?thesis using f(1,3-5) by auto
qed

theorem dense_task_in_bounds_witness:
  "\<exists>mb ib ob. dense_sizes demo_task = Some (mb, ib, ob) \<and>
    dense_task (select_dense_dot_f32 OTHER (strict3 (\<lambda>l r s. l * r + s)) (strict2 (+)) (Some (0 :: int))) (strict2 (+)) demo_task
        (checked mb int) (checked ib (\<lambda>_. 1)) 1 2 (checked ob (\<lambda>_. 0)) =
      map_option (checked ob)
        (dense_task (select_dense_dot_f32 OTHER (\<lambda>l r s. l * r + s) (+) 0) (+) demo_task int (\<lambda>_. 1) 1 2 (\<lambda>_. 0))"
  using dense_task_in_bounds [OF demo_task_valid, where n = 2 and lane = 1 and pf = OTHER and
      fma = "\<lambda>l r s. l * r + s" and add = "(+)" and zero = "0 :: int" and mat = int and inp = "\<lambda>_. 1" and out = "\<lambda>_. 0"]
  by auto

text \<open>
  C18: in exact arithmetic every kernel the executor may select (scalar, AVX2, NEON, blocked)
  returns the dot product, for all lengths up to \<open>2 ^ 32 - 2048\<close>.
\<close>

theorem dense_dot_exact:
  assumes "unat cnt \<le> 2 ^ 32 - 2048"
  shows "select_dense_dot_f32 pf (\<lambda>l r s. l * r + s) (+) 0 left right cnt =
    Some (\<Sum>i<unat cnt. left i * right i :: real)"
  using select_dot_exact [OF assms] .

theorem dense_dot_exact_witness:
  "select_dense_dot_f32 (X86_64 True) (\<lambda>l r s. l * r + s) (+) 0 (\<lambda>i. real i) (\<lambda>_. 2) 3 = Some 6"
proof -
  have "(\<Sum>i<(3::nat). real i * 2) = 6" by (simp add: numeral_3_eq_3)
  thus ?thesis using dense_dot_exact [of 3 "X86_64 True" real "\<lambda>_. 2"] by simp
qed

text \<open>
  C19: the blocked dot product returns exactly for the lengths at which its 32-bit index does not
  wrap around: for a longer one it never returns.
\<close>

theorem dense_dot_blocked_returns_iff:
  "(\<exists>y. dense_dot_f32_blocked block add zero left right cnt = Some y) \<longleftrightarrow> unat cnt \<le> 2 ^ 32 - 2048"
proof
  assume "\<exists>y. dense_dot_f32_blocked block add zero left right cnt = Some y"
  then obtain y where "blocked_loop block add left right cnt 0 zero = Some y"
    unfolding dense_dot_f32_blocked_def by blast
  from blocked_loop_wraps [OF this] show "unat cnt \<le> 2 ^ 32 - 2048" by simp
next
  assume "unat cnt \<le> 2 ^ 32 - 2048"
  thus "\<exists>y. dense_dot_f32_blocked block add zero left right cnt = Some y"
    unfolding dense_dot_f32_blocked_def by (rule blocked_loop_ends)
qed

end
