(* ===== verification/PW_Workers.thy ===== *)
theory PW_Workers
  imports PW_Dense
begin

text \<open>
  The worker group of \<^verbatim>\<open>spa/plugins/filter-graph/ndarray-executor.c\<close>: a coordinator, which is the thread
  that calls the functions of the group, and one polling helper thread per slot.

  Every thread has a program counter and each access to a shared field is one step, so a state is
  any interleaving of the coordinator and the helpers; atomic operations take effect at once and in
  order, which is what the release stores and acquire loads of the code give for the fields they
  publish. A loop that spins has no step while its condition does not hold. What the system decides
  (the status a task returns, the result of \<^verbatim>\<open>pthread_create\<close>, the allocations) is an argument.
  The field \<open>lane_calls\<close> is a history variable: the calls of the current task, by lane.
\<close>

section \<open>State\<close>

abbreviation (input) SPA_FGN_EXECUTOR_MAX_HELPERS :: u32 where "SPA_FGN_EXECUTOR_MAX_HELPERS \<equiv> 63"

record spa_fgn_lanes_task =
  lt_struct_size :: u32
  lt_flags :: u32
  lt_data :: u64
  lt_run :: u64
  lt_n_lanes :: u32
  lt_reserved :: u32

text \<open>The task functions \<^verbatim>\<open>dense_task\<close> and \<^verbatim>\<open>lanes_task\<close>, and what their data pointer refers to.\<close>

datatype fgn_worker_task_func_t = DENSE_TASK | LANES_TASK
datatype fgn_data = DNULL | DDense spa_fgn_dense_f32_task | DLanes spa_fgn_lanes_task

record fgn_worker_slot =
  command_generation :: u32
  command_task :: "fgn_worker_task_func_t option"
  command_data :: fgn_data
  command_n_lanes :: u32
  command_next_generation :: u32
  completion_generation :: u32
  completion_status :: int
  context_lane :: u32
  context_started :: bool

text \<open>One call of a task: function, data, lane, number of lanes and the status it returned.\<close>

type_synonym fgn_call = "fgn_worker_task_func_t \<times> fgn_data \<times> u32 \<times> u32 \<times> int"

text \<open>
  The status of a call of a task. A dense task returns 0 when it returns; \<open>None\<close> is a call that does
  not return. Whether it does depends on the kernel the processor gives, the number of columns and
  whether the lane has rows, and not on the elements, so it is run here on elements without a value. A
  lanes task returns what its \<^verbatim>\<open>run\<close> function returns.
\<close>

definition task_status :: "platform \<Rightarrow> fgn_worker_task_func_t \<Rightarrow> fgn_data \<Rightarrow> u32 \<Rightarrow> u32 \<Rightarrow> int \<Rightarrow> int option" where
  "task_status pf task data lane n_lanes run_status = (case task of
     DENSE_TASK \<Rightarrow> (case data of
         DDense t \<Rightarrow> map_option (\<lambda>_. 0) (dense_task (select_dense_dot_f32 pf (\<lambda>_ _ _. ()) (\<lambda>_ _. ()) ())
           (\<lambda>_ _. ()) t (\<lambda>_. ()) (\<lambda>_. ()) lane n_lanes (\<lambda>_. ()))
       | _ \<Rightarrow> None)
   | LANES_TASK \<Rightarrow> Some run_status)"

section \<open>The helper thread\<close>

datatype worker_pc =
    WOff
  | WBoot
  | WBooted u32
  | WPoll u32
  | WTask u32
  | WData u32 fgn_worker_task_func_t
  | WLanes u32 fgn_worker_task_func_t fgn_data
  | WRun u32 fgn_worker_task_func_t fgn_data u32
  | WStatus u32 int
  | WStore u32
  | WExit

fun worker_main :: "platform \<Rightarrow> int \<Rightarrow> fgn_worker_slot \<Rightarrow> worker_pc \<Rightarrow> (fgn_worker_slot \<times> worker_pc \<times> fgn_call list) option" where
  "worker_main pf run_status slot WBoot = Some (slot, WBooted (command_generation slot), [])"
| "worker_main pf run_status slot (WBooted observed) = Some (slot\<lparr>context_started := True\<rparr>, WPoll observed, [])"
| "worker_main pf run_status slot (WPoll observed) =
     (if command_generation slot = observed then None
      else Some (slot, WTask (command_generation slot), []))"
| "worker_main pf run_status slot (WTask generation) =
     (case command_task slot of
        None \<Rightarrow> Some (slot, WExit, [])
      | Some task \<Rightarrow> Some (slot, WData generation task, []))"
| "worker_main pf run_status slot (WData generation task) =
     Some (slot, WLanes generation task (command_data slot), [])"
| "worker_main pf run_status slot (WLanes generation task task_data) =
     Some (slot, WRun generation task task_data (command_n_lanes slot), [])"
| "worker_main pf run_status slot (WRun generation task task_data n_lanes) =
     (case task_status pf task task_data (context_lane slot) n_lanes run_status of
        None \<Rightarrow> None
      | Some status \<Rightarrow>
          Some (slot, WStatus generation status, [(task, task_data, context_lane slot, n_lanes, status)]))"
| "worker_main pf run_status slot (WStatus generation status) =
     Some (slot\<lparr>completion_status := status\<rparr>, WStore generation, [])"
| "worker_main pf run_status slot (WStore generation) =
     Some (slot\<lparr>completion_generation := generation\<rparr>, WPoll generation, [])"
| "worker_main pf run_status slot WOff = None"
| "worker_main pf run_status slot WExit = None"

section \<open>Publication of a command\<close>

datatype publish_pc = PNext | PRearm u32 | PTask u32 | PData u32 | PLanes u32 | PRelease u32

definition next_generation :: "fgn_worker_slot \<Rightarrow> fgn_worker_slot \<times> u32" where
  "next_generation slot =
     (slot\<lparr>command_next_generation := command_next_generation slot + 1\<rparr>, command_next_generation slot + 1)"

fun publish_command :: "fgn_worker_task_func_t option \<Rightarrow> fgn_data \<Rightarrow> u32 \<Rightarrow> publish_pc \<Rightarrow> fgn_worker_slot \<Rightarrow>
    fgn_worker_slot \<times> publish_pc option" where
  "publish_command task data n_lanes PNext slot =
     (let (slot, generation) = next_generation slot in (slot, Some (PRearm generation)))"
| "publish_command task data n_lanes (PRearm generation) slot =
     (slot\<lparr>completion_generation := generation - 1\<rparr>, Some (PTask generation))"
| "publish_command task data n_lanes (PTask generation) slot =
     (slot\<lparr>command_task := task\<rparr>, Some (PData generation))"
| "publish_command task data n_lanes (PData generation) slot =
     (slot\<lparr>command_data := data\<rparr>, Some (PLanes generation))"
| "publish_command task data n_lanes (PLanes generation) slot =
     (slot\<lparr>command_n_lanes := n_lanes\<rparr>, Some (PRelease generation))"
| "publish_command task data n_lanes (PRelease generation) slot =
     (slot\<lparr>command_generation := generation\<rparr>, None)"

section \<open>The coordinator\<close>

datatype stop_caller = StopFailed int | StopDeactivate | StopFree

datatype coordinator_pc =
    CIdle
  | CRunPublish fgn_worker_task_func_t fgn_data u32 nat publish_pc
  | CRunSelf fgn_worker_task_func_t fgn_data u32
  | CRunWait fgn_worker_task_func_t fgn_data u32 int nat
  | CRunStatus fgn_worker_task_func_t fgn_data u32 int nat
  | CRunReturn fgn_worker_task_func_t fgn_data u32 int
  | CActReset nat
  | CActCreate nat
  | CActAwait nat
  | CStopAwait stop_caller nat
  | CStopPublish stop_caller nat publish_pc
  | CStopJoin stop_caller nat int
  | CFreed

record spa_fgn_worker_group =
  n_helpers :: u32
  n_created :: nat
  active :: bool
  slots :: "nat \<Rightarrow> fgn_worker_slot"
  threads :: "nat \<Rightarrow> worker_pc"
  coordinator :: coordinator_pc
  ret :: int
  lane_calls :: "nat \<Rightarrow> fgn_call list"
  cpu :: platform

abbreviation (input) set_slot :: "nat \<Rightarrow> fgn_worker_slot \<Rightarrow> spa_fgn_worker_group \<Rightarrow> spa_fgn_worker_group" where
  "set_slot i slot grp \<equiv> grp\<lparr>slots := (slots grp)(i := slot)\<rparr>"

text \<open>The body of \<^verbatim>\<open>run_task\<close> after its guard.\<close>

fun run_task_step :: "int \<Rightarrow> spa_fgn_worker_group \<Rightarrow> spa_fgn_worker_group option" where
  "run_task_step run_status grp = (case coordinator grp of
     CRunPublish task data n_lanes i pc \<Rightarrow>
       (if i + 1 < unat n_lanes then
          (case publish_command (Some task) data n_lanes pc (slots grp i) of
             (slot, Some pc') \<Rightarrow>
               Some (set_slot i slot grp\<lparr>coordinator := CRunPublish task data n_lanes i pc'\<rparr>)
           | (slot, None) \<Rightarrow>
               Some (set_slot i slot grp\<lparr>coordinator := CRunPublish task data n_lanes (i + 1) PNext\<rparr>))
        else Some (grp\<lparr>coordinator := CRunSelf task data n_lanes\<rparr>))
   | CRunSelf task data n_lanes \<Rightarrow>
       (case task_status (cpu grp) task data 0 n_lanes run_status of
          None \<Rightarrow> None
        | Some result \<Rightarrow>
            Some (grp\<lparr>coordinator := CRunWait task data n_lanes result 0,
                    lane_calls := (lane_calls grp)(0 := lane_calls grp 0 @ [(task, data, 0, n_lanes, result)])\<rparr>))
   | CRunWait task data n_lanes result i \<Rightarrow>
       (if i + 1 < unat n_lanes then
          (let slot = slots grp i; expected = command_next_generation slot;
               observed = completion_generation slot
           in if observed \<noteq> expected then None
              else Some (grp\<lparr>coordinator := CRunStatus task data n_lanes result i\<rparr>))
        else Some (grp\<lparr>coordinator := CRunReturn task data n_lanes result\<rparr>))
   | CRunStatus task data n_lanes result i \<Rightarrow>
       (let status = completion_status (slots grp i);
            result = (if result = 0 \<and> status \<noteq> 0 then status else result)
        in Some (grp\<lparr>coordinator := CRunWait task data n_lanes result (i + 1)\<rparr>))
   | CRunReturn task data n_lanes result \<Rightarrow> Some (grp\<lparr>coordinator := CIdle, ret := result\<rparr>)
   | _ \<Rightarrow> None)"

text \<open>
  \<^verbatim>\<open>stop_created_workers\<close> and the return to its caller. Joining a thread waits for its end and
  returns 0; \<^verbatim>\<open>ESRCH\<close> is what joining no thread gives.
\<close>

abbreviation (input) ESRCH_code :: int where "ESRCH_code \<equiv> 3"

definition stop_return :: "stop_caller \<Rightarrow> int \<Rightarrow> spa_fgn_worker_group \<Rightarrow> spa_fgn_worker_group" where
  "stop_return caller result grp =
     (let grp = grp\<lparr>n_created := 0\<rparr>
      in case caller of
           StopFailed res \<Rightarrow> grp\<lparr>coordinator := CIdle, ret := if result < 0 then result else - res\<rparr>
         | StopDeactivate \<Rightarrow> grp\<lparr>coordinator := CIdle, ret := result\<rparr>
         | StopFree \<Rightarrow> grp\<lparr>coordinator := CFreed\<rparr>)"

fun stop_created_workers_step :: "spa_fgn_worker_group \<Rightarrow> spa_fgn_worker_group option" where
  "stop_created_workers_step grp = (case coordinator grp of
     CStopAwait caller i \<Rightarrow>
       (if i < n_created grp then
          (if \<not> context_started (slots grp i) then None
           else Some (grp\<lparr>coordinator := CStopAwait caller (i + 1)\<rparr>))
        else Some (grp\<lparr>coordinator := CStopPublish caller 0 PNext\<rparr>))
   | CStopPublish caller i pc \<Rightarrow>
       (if i < n_created grp then
          (case publish_command None DNULL 0 pc (slots grp i) of
             (slot, Some pc') \<Rightarrow> Some (set_slot i slot grp\<lparr>coordinator := CStopPublish caller i pc'\<rparr>)
           | (slot, None) \<Rightarrow> Some (set_slot i slot grp\<lparr>coordinator := CStopPublish caller (i + 1) PNext\<rparr>))
        else Some (grp\<lparr>coordinator := CStopJoin caller 0 0\<rparr>))
   | CStopJoin caller i result \<Rightarrow>
       (if i < n_created grp then
          (case threads grp i of
             WExit \<Rightarrow> Some (grp\<lparr>threads := (threads grp)(i := WOff),
                             coordinator := CStopJoin caller (i + 1) result\<rparr>)
           | WOff \<Rightarrow> Some (grp\<lparr>coordinator := CStopJoin caller (i + 1)
                             (if result = 0 then - ESRCH_code else result)\<rparr>)
           | _ \<Rightarrow> None)
        else Some (stop_return caller result grp))
   | _ \<Rightarrow> None)"

text \<open>The body of \<^verbatim>\<open>spa_fgn_worker_group_activate\<close>, with the result of \<^verbatim>\<open>pthread_create\<close>.\<close>

fun activate_step :: "int \<Rightarrow> spa_fgn_worker_group \<Rightarrow> spa_fgn_worker_group option" where
  "activate_step res grp = (case coordinator grp of
     CActReset i \<Rightarrow>
       (if i < unat (n_helpers grp) then
          Some (set_slot i ((slots grp i)\<lparr>context_started := False\<rparr>) grp\<lparr>coordinator := CActCreate i\<rparr>)
        else Some (grp\<lparr>coordinator := CActAwait 0\<rparr>))
   | CActCreate i \<Rightarrow>
       (if res \<noteq> 0 then Some (grp\<lparr>n_created := i, coordinator := CStopAwait (StopFailed res) 0\<rparr>)
        else Some (grp\<lparr>threads := (threads grp)(i := WBoot), n_created := i + 1,
                     coordinator := CActReset (i + 1)\<rparr>))
   | CActAwait i \<Rightarrow>
       (if i < unat (n_helpers grp) then
          (if \<not> context_started (slots grp i) then None
           else Some (grp\<lparr>coordinator := CActAwait (i + 1)\<rparr>))
        else Some (grp\<lparr>active := True, coordinator := CIdle, ret := 0\<rparr>))
   | _ \<Rightarrow> None)"

definition coordinator_step :: "int \<Rightarrow> spa_fgn_worker_group \<Rightarrow> spa_fgn_worker_group option" where
  "coordinator_step x grp = (case run_task_step x grp of
     Some grp' \<Rightarrow> Some grp'
   | None \<Rightarrow> (case stop_created_workers_step grp of
       Some grp' \<Rightarrow> Some grp'
     | None \<Rightarrow> activate_step x grp))"

definition helper_step :: "nat \<Rightarrow> int \<Rightarrow> spa_fgn_worker_group \<Rightarrow> spa_fgn_worker_group option" where
  "helper_step i x grp = (case worker_main (cpu grp) x (slots grp i) (threads grp i) of
     None \<Rightarrow> None
   | Some (slot, pc, calls) \<Rightarrow>
       Some (set_slot i slot grp\<lparr>threads := (threads grp)(i := pc),
               lane_calls := (lane_calls grp)(i + 1 := lane_calls grp (i + 1) @ calls)\<rparr>))"

section \<open>The functions of the group\<close>

text \<open>
  A function either fails, or returns 0 at once, or enters its body: then the coordinator runs the
  steps above until it returns. A group or a task that is \<^verbatim>\<open>NULL\<close> is \<open>None\<close>.
\<close>

datatype fgn_entry = Fail errno | Return0 | Enter spa_fgn_worker_group

definition run_task :: "spa_fgn_worker_group option \<Rightarrow> fgn_worker_task_func_t option \<Rightarrow> fgn_data \<Rightarrow> u32 \<Rightarrow> fgn_entry" where
  "run_task grp' task' data n_lanes = (case (grp', task') of
     (Some grp, Some task) \<Rightarrow>
       (if \<not> active grp \<or> n_lanes = 0 \<or> n_lanes > n_helpers grp + 1 then Fail EINVAL
        else Enter (grp\<lparr>coordinator := CRunPublish task data n_lanes 0 PNext, lane_calls := (\<lambda>_. [])\<rparr>))
   | _ \<Rightarrow> Fail EINVAL)"

definition spa_fgn_worker_group_run_dense_f32 ::
    "spa_fgn_worker_group option \<Rightarrow> spa_fgn_dense_f32_task option \<Rightarrow> fgn_entry" where
  "spa_fgn_worker_group_run_dense_f32 grp' task = (case grp' of
     None \<Rightarrow> Fail EINVAL
   | Some grp \<Rightarrow>
       (if \<not> active grp then Fail EINVAL
        else case validate_dense_task task of
          Inl res \<Rightarrow> Fail res
        | Inr _ \<Rightarrow> run_task grp' (Some DENSE_TASK) (case task of None \<Rightarrow> DNULL | Some t \<Rightarrow> DDense t)
                     (n_helpers grp + 1)))"

definition spa_fgn_worker_group_run_lanes ::
    "spa_fgn_worker_group option \<Rightarrow> spa_fgn_lanes_task option \<Rightarrow> fgn_entry" where
  "spa_fgn_worker_group_run_lanes grp' task' = (case (grp', task') of
     (Some grp, Some task) \<Rightarrow>
       (if \<not> active grp \<or> lt_struct_size task < 32 \<or> lt_flags task \<noteq> 0 \<or> lt_run task = 0 \<or>
           lt_n_lanes task = 0 \<or> lt_n_lanes task > n_helpers grp + 1 \<or> lt_reserved task \<noteq> 0
        then Fail EINVAL
        else run_task grp' (Some LANES_TASK) (DLanes task) (lt_n_lanes task))
   | _ \<Rightarrow> Fail EINVAL)"

definition spa_fgn_worker_group_activate :: "spa_fgn_worker_group option \<Rightarrow> fgn_entry" where
  "spa_fgn_worker_group_activate grp' = (case grp' of
     None \<Rightarrow> Fail EINVAL
   | Some grp \<Rightarrow> (if active grp then Return0 else Enter (grp\<lparr>coordinator := CActReset 0\<rparr>)))"

definition spa_fgn_worker_group_deactivate :: "spa_fgn_worker_group option \<Rightarrow> fgn_entry" where
  "spa_fgn_worker_group_deactivate grp' = (case grp' of
     None \<Rightarrow> Fail EINVAL
   | Some grp \<Rightarrow>
       (if \<not> active grp then Return0
        else Enter (grp\<lparr>active := False, coordinator := CStopAwait StopDeactivate 0\<rparr>)))"

text \<open>\<^verbatim>\<open>spa_fgn_worker_group_free\<close>: \<open>CFreed\<close> is the group after its memory is released.\<close>

definition spa_fgn_worker_group_free :: "spa_fgn_worker_group option \<Rightarrow> fgn_entry" where
  "spa_fgn_worker_group_free grp' = (case grp' of
     None \<Rightarrow> Return0
   | Some grp \<Rightarrow>
       (case spa_fgn_worker_group_deactivate grp' of
          Enter g \<Rightarrow> Enter (g\<lparr>coordinator := CStopAwait StopFree 0\<rparr>)
        | _ \<Rightarrow> Enter (grp\<lparr>coordinator := CFreed\<rparr>)))"

text \<open>
  \<^verbatim>\<open>spa_fgn_worker_group_new\<close>, with the outcome of its allocations (\<open>memalign\<close> is the error number)
  whether the atomics are lock free and the processor of the system; the slots are 192 and thread handles 8 bytes.
\<close>

definition new_slot :: "nat \<Rightarrow> fgn_worker_slot" where
  "new_slot i = \<lparr>command_generation = 0, command_task = None, command_data = DNULL, command_n_lanes = 0,
     command_next_generation = 0, completion_generation = 0, completion_status = 0,
     context_lane = of_nat i + 1, context_started = False\<rparr>"

record spa_fgn_executor =
  ex_struct_size :: u32
  ex_version :: u32
  ex_flags :: u32
  ex_n_lanes :: u32
  ex_cache_line_size :: u32

record alloc =
  group_ok :: bool
  memalign :: "errno option"
  threads_ok :: bool
  lock_free :: bool
  processor :: platform

definition spa_fgn_worker_group_new :: "alloc \<Rightarrow> u32 \<Rightarrow> (spa_fgn_worker_group \<times> spa_fgn_executor) res" where
  "spa_fgn_worker_group_new al n =
     (if n > SPA_FGN_EXECUTOR_MAX_HELPERS then Inl EINVAL
      else if \<not> group_ok al then Inl ENOMEM
      else let err = (if n = 0 then None
             else if spa_overflow_mul (ucast n :: u64) 192 = None \<or> spa_overflow_mul (ucast n :: u64) 8 = None
             then Some EOVERFLOW
             else case memalign al of
               Some res \<Rightarrow> Some res
             | None \<Rightarrow> if \<not> threads_ok al then Some ENOMEM
                       else if \<not> lock_free al then Some ENOTSUP else None)
      in case err of
           Some res \<Rightarrow> Inl res
         | None \<Rightarrow> Inr (\<lparr>n_helpers = n, n_created = 0, active = False, slots = new_slot, threads = (\<lambda>_. WOff),
             coordinator = CIdle, ret = 0, lane_calls = (\<lambda>_. []), cpu = processor al\<rparr>,
             \<lparr>ex_struct_size = 48, ex_version = 1, ex_flags = (if n = 0 then 0 else 1), ex_n_lanes = n + 1,
              ex_cache_line_size = 64\<rparr>))"

section \<open>Executions\<close>

inductive group_step :: "spa_fgn_worker_group \<Rightarrow> spa_fgn_worker_group \<Rightarrow> bool" where
  coordinator: "coordinator_step x grp = Some grp' \<Longrightarrow> group_step grp grp'"
| helper: "i < unat (n_helpers grp) \<Longrightarrow> helper_step i x grp = Some grp' \<Longrightarrow> group_step grp grp'"

text \<open>The owner of the group calls its functions one at a time.\<close>

inductive group_call :: "spa_fgn_worker_group \<Rightarrow> spa_fgn_worker_group \<Rightarrow> bool" where
  run_dense: "coordinator grp = CIdle \<Longrightarrow> spa_fgn_worker_group_run_dense_f32 (Some grp) t = Enter grp' \<Longrightarrow>
    group_call grp grp'"
| run_lanes: "coordinator grp = CIdle \<Longrightarrow> spa_fgn_worker_group_run_lanes (Some grp) lt = Enter grp' \<Longrightarrow>
    group_call grp grp'"
| activate: "coordinator grp = CIdle \<Longrightarrow> spa_fgn_worker_group_activate (Some grp) = Enter grp' \<Longrightarrow>
    group_call grp grp'"
| deactivate: "coordinator grp = CIdle \<Longrightarrow> spa_fgn_worker_group_deactivate (Some grp) = Enter grp' \<Longrightarrow>
    group_call grp grp'"
| free: "coordinator grp = CIdle \<Longrightarrow> spa_fgn_worker_group_free (Some grp) = Enter grp' \<Longrightarrow>
    group_call grp grp'"

inductive group_reachable :: "spa_fgn_worker_group \<Rightarrow> bool" where
  new: "spa_fgn_worker_group_new al n = Inr (grp, ex) \<Longrightarrow> group_reachable grp"
| step: "group_reachable grp \<Longrightarrow> group_step grp grp' \<Longrightarrow> group_reachable grp'"
| call: "group_reachable grp \<Longrightarrow> group_call grp grp' \<Longrightarrow> group_reachable grp'"

text \<open>\<open>P\<close> is reached in every execution from a state, whatever the schedule.\<close>

inductive inevitably :: "(spa_fgn_worker_group \<Rightarrow> bool) \<Rightarrow> spa_fgn_worker_group \<Rightarrow> bool" for P where
  now: "P grp \<Longrightarrow> inevitably P grp"
| later: "group_step grp grp0 \<Longrightarrow> (\<And>grp'. group_step grp grp' \<Longrightarrow> inevitably P grp') \<Longrightarrow> inevitably P grp"

section \<open>The protocol of a slot\<close>

text \<open>
  What the coordinator has done with a slot (\<open>phase\<close>) and what slot and helper then look like
  (\<open>slot_ok\<close>), where \<open>calls\<close> are the calls the helper made in the current task. In \<open>Out\<close> a command is
  published and not yet collected; the completion generation differs from the expected one until
  the helper has stored the status of its single call.
\<close>

datatype phase =
    Off
  | OffReset
  | Fresh
  | Quiet
  | Pub "fgn_worker_task_func_t option" fgn_data u32 publish_pc
  | Out fgn_worker_task_func_t fgn_data u32
  | Done fgn_worker_task_func_t fgn_data u32
  | Stopping

fun pub_ok :: "fgn_worker_task_func_t option \<Rightarrow> fgn_data \<Rightarrow> u32 \<Rightarrow> publish_pc \<Rightarrow> fgn_worker_slot \<Rightarrow> bool" where
  "pub_ok t d n PNext s \<longleftrightarrow> command_next_generation s = command_generation s"
| "pub_ok t d n (PRearm g) s \<longleftrightarrow> g = command_generation s + 1 \<and> command_next_generation s = g"
| "pub_ok t d n (PTask g) s \<longleftrightarrow> g = command_generation s + 1 \<and> command_next_generation s = g \<and>
     completion_generation s = g - 1"
| "pub_ok t d n (PData g) s \<longleftrightarrow> g = command_generation s + 1 \<and> command_next_generation s = g \<and>
     completion_generation s = g - 1 \<and> command_task s = t"
| "pub_ok t d n (PLanes g) s \<longleftrightarrow> g = command_generation s + 1 \<and> command_next_generation s = g \<and>
     completion_generation s = g - 1 \<and> command_task s = t \<and> command_data s = d"
| "pub_ok t d n (PRelease g) s \<longleftrightarrow> g = command_generation s + 1 \<and> command_next_generation s = g \<and>
     completion_generation s = g - 1 \<and> command_task s = t \<and> command_data s = d \<and> command_n_lanes s = n"

fun out_ok :: "fgn_worker_task_func_t \<Rightarrow> fgn_data \<Rightarrow> u32 \<Rightarrow> fgn_worker_slot \<Rightarrow> worker_pc \<Rightarrow> fgn_call list \<Rightarrow> bool" where
  "out_ok t d n s (WPoll g) calls \<longleftrightarrow>
     g = command_generation s - 1 \<and> completion_generation s = g \<and> calls = [] \<or>
     g = command_generation s \<and> completion_generation s = g \<and>
       calls = [(t, d, context_lane s, n, completion_status s)]"
| "out_ok t d n s (WTask g) calls \<longleftrightarrow> g = command_generation s \<and> completion_generation s = g - 1 \<and> calls = []"
| "out_ok t d n s (WData g t') calls \<longleftrightarrow> g = command_generation s \<and> completion_generation s = g - 1 \<and> calls = [] \<and>
     t' = t"
| "out_ok t d n s (WLanes g t' d') calls \<longleftrightarrow> g = command_generation s \<and> completion_generation s = g - 1 \<and>
     calls = [] \<and> t' = t \<and> d' = d"
| "out_ok t d n s (WRun g t' d' n') calls \<longleftrightarrow> g = command_generation s \<and> completion_generation s = g - 1 \<and>
     calls = [] \<and> t' = t \<and> d' = d \<and> n' = n"
| "out_ok t d n s (WStatus g st) calls \<longleftrightarrow> g = command_generation s \<and> completion_generation s = g - 1 \<and>
     calls = [(t, d, context_lane s, n, st)]"
| "out_ok t d n s (WStore g) calls \<longleftrightarrow> g = command_generation s \<and> completion_generation s = g - 1 \<and>
     calls = [(t, d, context_lane s, n, completion_status s)]"
| "out_ok t d n s _ calls \<longleftrightarrow> False"

fun slot_ok :: "phase \<Rightarrow> fgn_worker_slot \<Rightarrow> worker_pc \<Rightarrow> fgn_call list \<Rightarrow> bool" where
  "slot_ok Off s w calls \<longleftrightarrow> w = WOff \<and> command_next_generation s = command_generation s"
| "slot_ok OffReset s w calls \<longleftrightarrow> w = WOff \<and> command_next_generation s = command_generation s \<and> \<not> context_started s"
| "slot_ok Fresh s w calls \<longleftrightarrow> command_next_generation s = command_generation s \<and>
     (\<not> context_started s \<and> (w = WBoot \<or> w = WBooted (command_generation s)) \<or>
      context_started s \<and> w = WPoll (command_generation s))"
| "slot_ok Quiet s w calls \<longleftrightarrow> command_next_generation s = command_generation s \<and> context_started s \<and>
     w = WPoll (command_generation s)"
| "slot_ok (Pub t d n pc) s w calls \<longleftrightarrow> pub_ok t d n pc s \<and> context_started s \<and> w = WPoll (command_generation s)"
| "slot_ok (Out t d n) s w calls \<longleftrightarrow> command_next_generation s = command_generation s \<and> context_started s \<and>
     command_task s = Some t \<and> command_data s = d \<and> command_n_lanes s = n \<and> out_ok t d n s w calls"
| "slot_ok (Done t d n) s w calls \<longleftrightarrow> command_next_generation s = command_generation s \<and> context_started s \<and>
     w = WPoll (command_generation s) \<and> calls = [(t, d, context_lane s, n, completion_status s)]"
| "slot_ok Stopping s w calls \<longleftrightarrow> command_next_generation s = command_generation s \<and> context_started s \<and>
     command_task s = None \<and>
     (w = WPoll (command_generation s - 1) \<or> w = WTask (command_generation s) \<or> w = WExit)"

lemma word_pred_neq [simp]: "x - 1 \<noteq> x" "x \<noteq> x - 1" for x :: u32
proof -
  show "x - 1 \<noteq> x"
  proof
    assume "x - 1 = x"
    hence "x = x + 1" by (simp only: diff_eq_eq)
    hence "(1 :: u32) = 0" by (rule add_cancel_right_right [THEN iffD1])
    thus False by simp
  qed
  thus "x \<noteq> x - 1" by (rule not_sym)
qed

lemma worker_slot_ok:
  assumes "slot_ok ph s w calls" "worker_main p x s w = Some (s', w', c)"
  shows "slot_ok ph s' w' (calls @ c) \<and> context_lane s' = context_lane s"
proof (cases ph)
  case Off
  thus ?thesis using assms by simp
next
  case OffReset
  thus ?thesis using assms by simp
next
  case Fresh
  thus ?thesis using assms by auto
next
  case Quiet
  thus ?thesis using assms by auto
next
  case (Pub t d n pc)
  thus ?thesis using assms by auto
next
  case (Out t d n)
  thus ?thesis using assms by (cases w) (auto simp: Let_def split: if_splits option.splits)
next
  case (Done t d n)
  thus ?thesis using assms by auto
next
  case Stopping
  thus ?thesis using assms by (auto split: if_splits)
qed

lemma publish_slot_ok:
  assumes "slot_ok (Pub t d n pc) s w calls" "publish_command t d n pc s = (s', pc')"
  shows "context_lane s' = context_lane s \<and> (case pc' of
      Some q \<Rightarrow> slot_ok (Pub t d n q) s' w calls
    | None \<Rightarrow> (case t of Some tf \<Rightarrow> calls = [] \<longrightarrow> slot_ok (Out tf d n) s' w calls
        | None \<Rightarrow> slot_ok Stopping s' w calls))"
  using assms by (cases pc; auto simp: next_generation_def split: option.splits)

section \<open>The invariant of the group\<close>

fun phase_of :: "spa_fgn_worker_group \<Rightarrow> coordinator_pc \<Rightarrow> nat \<Rightarrow> phase" where
  "phase_of grp CIdle i = (if active grp then Quiet else Off)"
| "phase_of grp (CRunPublish t d n j pc) i =
     (if i < j then Out t d n else if i = j \<and> i + 1 < unat n then Pub (Some t) d n pc else Quiet)"
| "phase_of grp (CRunSelf t d n) i = (if i + 1 < unat n then Out t d n else Quiet)"
| "phase_of grp (CRunWait t d n r j) i = (if j \<le> i \<and> i + 1 < unat n then Out t d n else Quiet)"
| "phase_of grp (CRunStatus t d n r j) i =
     (if i = j then Done t d n else if j < i \<and> i + 1 < unat n then Out t d n else Quiet)"
| "phase_of grp (CRunReturn t d n r) i = Quiet"
| "phase_of grp (CActReset j) i = (if i < j then Fresh else Off)"
| "phase_of grp (CActCreate j) i = (if i < j then Fresh else if i = j then OffReset else Off)"
| "phase_of grp (CActAwait j) i = (if i < j then Quiet else Fresh)"
| "phase_of grp (CStopAwait c j) i =
     (if i < n_created grp then (if i < j then Quiet else Fresh) else Off)"
| "phase_of grp (CStopPublish c j pc) i =
     (if i < n_created grp then (if i < j then Stopping else if i = j then Pub None DNULL 0 pc else Quiet) else Off)"
| "phase_of grp (CStopJoin c j r) i = (if j \<le> i \<and> i < n_created grp then Stopping else Off)"
| "phase_of grp CFreed i = Off"

text \<open>The first status that is not 0 in the order of the lanes, as \<^verbatim>\<open>run_task\<close> returns it.\<close>

fun first_nonzero :: "int list \<Rightarrow> int" where
  "first_nonzero [] = 0"
| "first_nonzero (x # xs) = (if x \<noteq> 0 then x else first_nonzero xs)"

lemma first_nonzero_snoc: "first_nonzero (xs @ [x]) = (if first_nonzero xs = 0 \<and> x \<noteq> 0 then x else first_nonzero xs)"
  by (induction xs) auto

definition ran_status :: "spa_fgn_worker_group \<Rightarrow> nat \<Rightarrow> int" where
  "ran_status grp l = (case lane_calls grp l of [(t, d, lane, n, st)] \<Rightarrow> st | _ \<Rightarrow> 0)"

text \<open>The first \<open>j\<close> lanes have run once, with the task of the call, and gave \<open>r\<close>; others not at all.\<close>

definition lanes_ran :: "spa_fgn_worker_group \<Rightarrow> fgn_worker_task_func_t \<Rightarrow> fgn_data \<Rightarrow> u32 \<Rightarrow> int \<Rightarrow> nat \<Rightarrow> bool" where
  "lanes_ran grp t d n r j \<longleftrightarrow>
     (\<forall>l<j. lane_calls grp l = [(t, d, of_nat l, n, ran_status grp l)]) \<and>
     r = first_nonzero (map (ran_status grp) [0..<j])"

definition run_entry_ok :: "spa_fgn_worker_group \<Rightarrow> u32 \<Rightarrow> bool" where
  "run_entry_ok grp n \<longleftrightarrow> active grp \<and> 0 < unat n \<and> unat n \<le> unat (n_helpers grp) + 1 \<and>
     (\<forall>l. unat n \<le> l \<longrightarrow> lane_calls grp l = [])"

fun coordinator_ok :: "spa_fgn_worker_group \<Rightarrow> coordinator_pc \<Rightarrow> bool" where
  "coordinator_ok grp CIdle \<longleftrightarrow> n_created grp = (if active grp then unat (n_helpers grp) else 0)"
| "coordinator_ok grp (CRunPublish t d n j pc) \<longleftrightarrow> run_entry_ok grp n \<and> n_created grp = unat (n_helpers grp) \<and>
     j < unat n \<and> lane_calls grp 0 = [] \<and> (\<forall>i\<ge>j. lane_calls grp (i + 1) = [])"
| "coordinator_ok grp (CRunSelf t d n) \<longleftrightarrow> run_entry_ok grp n \<and> n_created grp = unat (n_helpers grp) \<and> lane_calls grp 0 = []"
| "coordinator_ok grp (CRunWait t d n r j) \<longleftrightarrow> run_entry_ok grp n \<and> n_created grp = unat (n_helpers grp) \<and>
     j < unat n \<and> lanes_ran grp t d n r (j + 1)"
| "coordinator_ok grp (CRunStatus t d n r j) \<longleftrightarrow> run_entry_ok grp n \<and> n_created grp = unat (n_helpers grp) \<and>
     j + 1 < unat n \<and> lanes_ran grp t d n r (j + 1)"
| "coordinator_ok grp (CRunReturn t d n r) \<longleftrightarrow> run_entry_ok grp n \<and> n_created grp = unat (n_helpers grp) \<and>
     lanes_ran grp t d n r (unat n)"
| "coordinator_ok grp (CActReset j) \<longleftrightarrow> \<not> active grp \<and> j \<le> unat (n_helpers grp) \<and> n_created grp = j"
| "coordinator_ok grp (CActCreate j) \<longleftrightarrow> \<not> active grp \<and> j < unat (n_helpers grp) \<and> n_created grp = j"
| "coordinator_ok grp (CActAwait j) \<longleftrightarrow> \<not> active grp \<and> j \<le> unat (n_helpers grp) \<and> n_created grp = unat (n_helpers grp)"
| "coordinator_ok grp (CStopAwait c j) \<longleftrightarrow> \<not> active grp \<and> j \<le> n_created grp \<and> n_created grp \<le> unat (n_helpers grp)"
| "coordinator_ok grp (CStopPublish c j pc) \<longleftrightarrow> \<not> active grp \<and> j \<le> n_created grp \<and> n_created grp \<le> unat (n_helpers grp)"
| "coordinator_ok grp (CStopJoin c j r) \<longleftrightarrow> \<not> active grp \<and> j \<le> n_created grp \<and> n_created grp \<le> unat (n_helpers grp) \<and> r = 0"
| "coordinator_ok grp CFreed \<longleftrightarrow> \<not> active grp"

definition group_inv :: "spa_fgn_worker_group \<Rightarrow> bool" where
  "group_inv grp \<longleftrightarrow> unat (n_helpers grp) \<le> 63 \<and> coordinator_ok grp (coordinator grp) \<and>
     (\<forall>i<unat (n_helpers grp). context_lane (slots grp i) = of_nat (i + 1) \<and>
        slot_ok (phase_of grp (coordinator grp) i) (slots grp i) (threads grp i) (lane_calls grp (i + 1)))"

lemma ran_status_cong: "lane_calls grp = lane_calls grp' \<Longrightarrow> ran_status grp = ran_status grp'"
  by (simp add: fun_eq_iff ran_status_def)

lemma lanes_ran_cong: "lane_calls grp = lane_calls grp' \<Longrightarrow> lanes_ran grp = lanes_ran grp'"
  by (simp add: fun_eq_iff lanes_ran_def ran_status_cong [of grp grp'])

lemma lanes_ran_ext [simp]:
  "lanes_ran (grp\<lparr>coordinator := c\<rparr>) = lanes_ran grp" "lanes_ran (grp\<lparr>slots := s\<rparr>) = lanes_ran grp"
  "lanes_ran (grp\<lparr>threads := w\<rparr>) = lanes_ran grp"
  by (rule lanes_ran_cong, simp)+

lemma run_entry_ok_ext [simp]:
  "run_entry_ok (grp\<lparr>coordinator := c\<rparr>) n = run_entry_ok grp n" "run_entry_ok (grp\<lparr>slots := s\<rparr>) n = run_entry_ok grp n"
  "run_entry_ok (grp\<lparr>threads := w\<rparr>) n = run_entry_ok grp n"
  by (simp_all add: run_entry_ok_def)

lemma group_inv_slot:
  assumes "group_inv grp" "i < unat (n_helpers grp)"
  shows "slot_ok (phase_of grp (coordinator grp) i) (slots grp i) (threads grp i) (lane_calls grp (Suc i))"
    "context_lane (slots grp i) = of_nat (i + 1)"
  using assms by (simp_all add: group_inv_def)

lemma group_inv_ok: "group_inv grp \<Longrightarrow> coordinator_ok grp (coordinator grp)"
  by (simp add: group_inv_def)

lemma group_inv_stepI:
  assumes "group_inv grp" "n_helpers grp' = n_helpers grp" "coordinator_ok grp' (coordinator grp')"
    and "\<And>i. i < unat (n_helpers grp) \<Longrightarrow> context_lane (slots grp' i) = context_lane (slots grp i)"
    and "\<And>i. i < unat (n_helpers grp) \<Longrightarrow>
      slot_ok (phase_of grp (coordinator grp) i) (slots grp i) (threads grp i) (lane_calls grp (Suc i)) \<Longrightarrow>
      slot_ok (phase_of grp' (coordinator grp') i) (slots grp' i) (threads grp' i) (lane_calls grp' (Suc i))"
  shows "group_inv grp'"
  using assms by (simp add: group_inv_def)

text \<open>How a slot passes from one phase to the next.\<close>

lemma slot_ok_phases:
  "slot_ok Quiet s w calls \<Longrightarrow> slot_ok Fresh s w calls"
  "slot_ok Quiet s w calls \<Longrightarrow> slot_ok (Pub t' d n PNext) s w calls"
  "slot_ok Fresh s w calls \<Longrightarrow> context_started s \<Longrightarrow> slot_ok Quiet s w calls"
  "slot_ok (Done t d n) s w calls \<Longrightarrow> slot_ok Quiet s w calls"
  "slot_ok Off s w calls \<Longrightarrow> slot_ok OffReset (s\<lparr>context_started := False\<rparr>) w calls"
  "slot_ok OffReset s w calls \<Longrightarrow> slot_ok Off s w calls"
  "slot_ok OffReset s w calls \<Longrightarrow> slot_ok Fresh s WBoot calls"
  "slot_ok Stopping s WExit calls \<Longrightarrow> slot_ok Off s WOff calls"
  "slot_ok (Out t d n) s w calls \<Longrightarrow> completion_generation s = command_next_generation s \<Longrightarrow>
     slot_ok (Done t d n) s w calls"
  by (auto elim!: out_ok.elims)

declare slot_ok.simps [simp del]

lemma run_publish_inv:
  assumes "group_inv grp" "coordinator grp = CRunPublish t d n j pc" "run_task_step x grp = Some grp'"
  shows "group_inv grp'"
proof (cases "j + 1 < unat n")
  case False
  hence "grp' = grp\<lparr>coordinator := CRunSelf t d n\<rparr>" using assms(2,3) by simp
  thus ?thesis using assms(2) False group_inv_ok [OF assms(1)]
    by (intro group_inv_stepI [OF assms(1)]) (auto split: if_splits)
next
  case True
  obtain s' pc' where p: "publish_command (Some t) d n pc (slots grp j) = (s', pc')" by fastforce
  have ok: "run_entry_ok grp n" "n_created grp = unat (n_helpers grp)" "lane_calls grp 0 = []"
    "\<forall>i\<ge>j. lane_calls grp (Suc i) = []" using group_inv_ok [OF assms(1)] assms(2) by auto
  hence j: "j < unat (n_helpers grp)" using True by (simp add: run_entry_ok_def)
  have "slot_ok (Pub (Some t) d n pc) (slots grp j) (threads grp j) (lane_calls grp (Suc j))"
    using group_inv_slot(1) [OF assms(1) j] assms(2) True by simp
  note s' = publish_slot_ok [OF this p]
  have g: "grp' = grp\<lparr>slots := (slots grp)(j := s'), coordinator := (case pc' of
      None \<Rightarrow> CRunPublish t d n (j + 1) PNext | Some q \<Rightarrow> CRunPublish t d n j q)\<rparr>"
    using assms(2,3) True p by (simp split: option.splits)
  show ?thesis
    using ok True s' assms(2)
    by (intro group_inv_stepI [OF assms(1)]; cases pc')
       (auto simp: g slot_ok_phases(2) split: if_splits)
qed

lemma lanes_ran_next:
  assumes "lanes_ran grp t d n r j" "lane_calls grp j = [(t, d, of_nat j, n, st)]"
  shows "lanes_ran grp t d n (if r = 0 \<and> st \<noteq> 0 then st else r) (j + 1)"
  using assms by (auto simp: lanes_ran_def ran_status_def less_Suc_eq first_nonzero_snoc)

lemma run_self_inv:
  assumes "group_inv grp" "coordinator grp = CRunSelf t d n" "run_task_step x grp = Some grp'"
  shows "group_inv grp'"
proof -
  obtain r where g: "grp' = grp\<lparr>coordinator := CRunWait t d n r 0,
      lane_calls := (lane_calls grp)(0 := lane_calls grp 0 @ [(t, d, 0, n, r)])\<rparr>"
    using assms(2,3) by (auto split: option.splits)
  have ok: "run_entry_ok grp n" "n_created grp = unat (n_helpers grp)" "lane_calls grp 0 = []"
    using group_inv_ok [OF assms(1)] assms(2) by auto
  hence "run_entry_ok grp' n" by (auto simp: g run_entry_ok_def)
  moreover have "lanes_ran grp' t d n r 1" using ok by (simp add: g lanes_ran_def ran_status_def)
  ultimately have "coordinator_ok grp' (coordinator grp')" using ok by (simp add: g run_entry_ok_def)
  thus ?thesis using assms(2) by (intro group_inv_stepI [OF assms(1)]) (simp_all add: g)
qed

lemma run_wait_inv:
  assumes "group_inv grp" "coordinator grp = CRunWait t d n r j" "run_task_step x grp = Some grp'"
  shows "group_inv grp'"
proof (cases "j + 1 < unat n")
  case False
  hence g: "grp' = grp\<lparr>coordinator := CRunReturn t d n r\<rparr>" using assms(2,3) by simp
  have "coordinator_ok grp (CRunWait t d n r j)" using group_inv_ok [OF assms(1)] assms(2) by simp
  moreover from this False have "unat n = Suc j" by simp
  ultimately show ?thesis using assms(2) False
    by (intro group_inv_stepI [OF assms(1)]) (auto simp: g split: if_splits)
next
  case True
  hence g: "grp' = grp\<lparr>coordinator := CRunStatus t d n r j\<rparr>"
    and c: "completion_generation (slots grp j) = command_next_generation (slots grp j)"
    using assms(2,3) by (auto simp: Let_def split: if_splits)
  show ?thesis using assms(2) True c group_inv_ok [OF assms(1)]
    by (intro group_inv_stepI [OF assms(1)]) (auto simp: g slot_ok_phases(9) split: if_splits)
qed

lemma run_status_inv:
  assumes "group_inv grp" "coordinator grp = CRunStatus t d n r j" "run_task_step x grp = Some grp'"
  shows "group_inv grp'"
proof -
  let ?st = "completion_status (slots grp j)"
  have g: "grp' = grp\<lparr>coordinator := CRunWait t d n (if r = 0 \<and> ?st \<noteq> 0 then ?st else r) (j + 1)\<rparr>"
    using assms(2,3) by (simp add: Let_def)
  have ok: "run_entry_ok grp n" "n_created grp = unat (n_helpers grp)" "j + 1 < unat n" "lanes_ran grp t d n r (j + 1)"
    using group_inv_ok [OF assms(1)] assms(2) by auto
  hence j: "j < unat (n_helpers grp)" by (simp add: run_entry_ok_def)
  have "lane_calls grp (j + 1) = [(t, d, of_nat (j + 1), n, ?st)]"
    using group_inv_slot [OF assms(1) j] assms(2) by (simp add: slot_ok.simps)
  from lanes_ran_next [OF ok(4) this] have "coordinator_ok grp' (coordinator grp')" using ok by (simp add: g)
  thus ?thesis using assms(2)
    by (intro group_inv_stepI [OF assms(1)]) (auto simp: g slot_ok_phases(4) split: if_splits)
qed

lemma run_return_inv:
  assumes "group_inv grp" "coordinator grp = CRunReturn t d n r" "run_task_step x grp = Some grp'"
  shows "group_inv grp'"
proof -
  have g: "grp' = grp\<lparr>coordinator := CIdle, ret := r\<rparr>" using assms(2,3) by simp
  show ?thesis using group_inv_ok [OF assms(1)] assms(2)
    by (intro group_inv_stepI [OF assms(1)]) (auto simp: g run_entry_ok_def)
qed

lemma run_task_inv:
  assumes "group_inv grp" "run_task_step x grp = Some grp'"
  shows "group_inv grp'"
proof (cases "coordinator grp")
  case (CRunPublish t d n j pc)
  from run_publish_inv [OF assms(1) this assms(2)] show ?thesis .
next
  case (CRunSelf t d n)
  from run_self_inv [OF assms(1) this assms(2)] show ?thesis .
next
  case (CRunWait t d n r j)
  from run_wait_inv [OF assms(1) this assms(2)] show ?thesis .
next
  case (CRunStatus t d n r j)
  from run_status_inv [OF assms(1) this assms(2)] show ?thesis .
next
  case (CRunReturn t d n r)
  from run_return_inv [OF assms(1) this assms(2)] show ?thesis .
qed (insert assms(2), simp_all)

lemma stop_publish_inv:
  assumes "group_inv grp" "coordinator grp = CStopPublish c j pc" "stop_created_workers_step grp = Some grp'"
  shows "group_inv grp'"
proof (cases "j < n_created grp")
  case False
  hence "grp' = grp\<lparr>coordinator := CStopJoin c 0 0\<rparr>" using assms(2,3) by simp
  thus ?thesis using assms(2) False group_inv_ok [OF assms(1)]
    by (intro group_inv_stepI [OF assms(1)]) (auto split: if_splits)
next
  case True
  obtain s' pc' where p: "publish_command None DNULL 0 pc (slots grp j) = (s', pc')" by fastforce
  have ok: "\<not> active grp" "n_created grp \<le> unat (n_helpers grp)"
    using group_inv_ok [OF assms(1)] assms(2) by auto
  have "slot_ok (Pub None DNULL 0 pc) (slots grp j) (threads grp j) (lane_calls grp (Suc j))"
    using group_inv_slot(1) [OF assms(1), of j] assms(2) True ok by simp
  note s' = publish_slot_ok [OF this p]
  have g: "grp' = grp\<lparr>slots := (slots grp)(j := s'), coordinator := (case pc' of
      None \<Rightarrow> CStopPublish c (j + 1) PNext | Some q \<Rightarrow> CStopPublish c j q)\<rparr>"
    using assms(2,3) True p by (simp split: option.splits)
  show ?thesis
    using ok True s' assms(2)
    by (intro group_inv_stepI [OF assms(1)]; cases pc')
       (auto simp: g slot_ok_phases(2) split: if_splits)
qed

lemma stop_await_inv:
  assumes "group_inv grp" "coordinator grp = CStopAwait c j" "stop_created_workers_step grp = Some grp'"
  shows "group_inv grp'"
proof (cases "j < n_created grp")
  case False
  hence "grp' = grp\<lparr>coordinator := CStopPublish c 0 PNext\<rparr>" using assms(2,3) by simp
  thus ?thesis using assms(2) False group_inv_ok [OF assms(1)]
    by (intro group_inv_stepI [OF assms(1)]) (auto simp: slot_ok_phases(2) split: if_splits)
next
  case True
  hence "grp' = grp\<lparr>coordinator := CStopAwait c (j + 1)\<rparr>" "context_started (slots grp j)"
    using assms(2,3) by (auto split: if_splits)
  thus ?thesis using assms(2) True group_inv_ok [OF assms(1)]
    by (intro group_inv_stepI [OF assms(1)]) (auto simp: slot_ok_phases(3) less_Suc_eq split: if_splits)
qed

lemma stop_join_inv:
  assumes "group_inv grp" "coordinator grp = CStopJoin c j r" "stop_created_workers_step grp = Some grp'"
  shows "group_inv grp' \<and> r = 0"
proof (cases "j < n_created grp")
  case False
  hence "grp' = stop_return c r grp" using assms(2,3) by simp
  thus ?thesis using assms(2) False group_inv_ok [OF assms(1)]
    by (intro conjI group_inv_stepI [OF assms(1)])
       (auto simp: stop_return_def Let_def split: if_splits stop_caller.splits)
next
  case True
  have ok: "\<not> active grp" "n_created grp \<le> unat (n_helpers grp)" "r = 0"
    using group_inv_ok [OF assms(1)] assms(2) by auto
  hence "slot_ok Stopping (slots grp j) (threads grp j) (lane_calls grp (Suc j))"
    using group_inv_slot(1) [OF assms(1), of j] assms(2) True by simp
  hence "threads grp j = WExit \<and>
      grp' = grp\<lparr>threads := (threads grp)(j := WOff), coordinator := CStopJoin c (j + 1) r\<rparr>"
    using assms(2,3) True by (auto simp: slot_ok.simps)
  thus ?thesis using assms(2) True ok
    by (intro conjI group_inv_stepI [OF assms(1)]) (auto simp: slot_ok_phases(8) Suc_le_eq le_eq_less_or_eq split: if_splits)
qed

lemma stop_inv:
  assumes "group_inv grp" "stop_created_workers_step grp = Some grp'"
  shows "group_inv grp'"
proof (cases "coordinator grp")
  case (CStopAwait c j)
  from stop_await_inv [OF assms(1) this assms(2)] show ?thesis .
next
  case (CStopPublish c j pc)
  from stop_publish_inv [OF assms(1) this assms(2)] show ?thesis .
next
  case (CStopJoin c j r)
  from stop_join_inv [OF assms(1) this assms(2)] show ?thesis by blast
qed (insert assms(2), simp_all)

lemma activate_inv:
  assumes "group_inv grp" "activate_step x grp = Some grp'"
  shows "group_inv grp'"
proof (cases "coordinator grp")
  case (CActReset j)
  thus ?thesis using assms(2) group_inv_ok [OF assms(1)]
    by (intro group_inv_stepI [OF assms(1)]) (auto simp: slot_ok_phases(5) split: if_splits)
next
  case (CActCreate j)
  thus ?thesis using assms(2) group_inv_ok [OF assms(1)]
    by (intro group_inv_stepI [OF assms(1)]) (auto simp: slot_ok_phases(6,7) less_Suc_eq split: if_splits)
next
  case (CActAwait j)
  thus ?thesis using assms(2) group_inv_ok [OF assms(1)]
    by (intro group_inv_stepI [OF assms(1)]) (auto simp: slot_ok_phases(3) less_Suc_eq split: if_splits)
qed (insert assms(2), simp_all)

lemma lanes_ran_upd:
  assumes "\<And>l. l < j \<Longrightarrow> lane_calls grp' l = lane_calls grp l"
  shows "lanes_ran grp' t d n r j = lanes_ran grp t d n r j"
proof -
  have s: "ran_status grp' l = ran_status grp l" if "l < j" for l using assms [OF that] by (simp add: ran_status_def)
  hence m: "map (ran_status grp') [0..<j] = map (ran_status grp) [0..<j]" by simp
  show ?thesis unfolding lanes_ran_def m using assms s by simp
qed

lemma worker_calls_out:
  assumes "slot_ok ph s w calls" "worker_main p x s w = Some (s', w', c)" "c \<noteq> []"
  shows "\<exists>t d n. ph = Out t d n"
  using assms by (cases ph; cases w) (auto simp: slot_ok.simps split: if_splits option.splits)

text \<open>Calls a helper makes while its command is out do not disturb what the coordinator knows.\<close>

lemma coordinator_ok_calls:
  assumes "coordinator_ok grp (coordinator grp)" "phase_of grp (coordinator grp) i = Out t d n"
    and g: "n_helpers grp' = n_helpers grp" "n_created grp' = n_created grp" "active grp' = active grp"
    and calls: "\<And>l. l \<noteq> Suc i \<Longrightarrow> lane_calls grp' l = lane_calls grp l"
  shows "coordinator_ok grp' (coordinator grp)"
proof -
  have e: "run_entry_ok grp' m" if "run_entry_ok grp m" "Suc i < unat m" for m
    using that g calls by (auto simp: run_entry_ok_def)
  have "lanes_ran grp' t d n r (Suc j) = lanes_ran grp t d n r (Suc j)" if "j \<le> i" for j t d n r
    using that calls by (intro lanes_ran_upd) auto
  thus ?thesis using assms(1,2) g calls e
    by (cases "coordinator grp") (auto split: if_splits)
qed

lemma helper_inv:
  assumes "group_inv grp" "i < unat (n_helpers grp)" "helper_step i x grp = Some grp'"
  shows "group_inv grp'"
proof -
  obtain s' w' c where w: "worker_main (cpu grp) x (slots grp i) (threads grp i) = Some (s', w', c)"
    and g: "grp' = grp\<lparr>slots := (slots grp)(i := s'), threads := (threads grp)(i := w'),
      lane_calls := (lane_calls grp)(Suc i := lane_calls grp (Suc i) @ c)\<rparr>"
    using assms(3) by (auto simp: helper_step_def split: option.splits)
  note so = group_inv_slot(1) [OF assms(1,2)]
  note s = worker_slot_ok [OF so w]
  have ph: "phase_of grp' (coordinator grp) k = phase_of grp (coordinator grp) k" for k
    by (cases "coordinator grp") (simp_all add: g)
  have "coordinator_ok grp' (coordinator grp)"
  proof (cases "c = []")
    case True
    hence lc: "lane_calls grp' = lane_calls grp" by (simp add: g)
    have "run_entry_ok grp' m = run_entry_ok grp m" for m
      unfolding run_entry_ok_def lc by (simp add: g)
    thus ?thesis using group_inv_ok [OF assms(1)] lc lanes_ran_cong [OF lc]
      by (cases "coordinator grp") (simp_all add: g)
  next
    case False
    from worker_calls_out [OF so w this] obtain t d n where "phase_of grp (coordinator grp) i = Out t d n" by blast
    from coordinator_ok_calls [OF group_inv_ok [OF assms(1)] this, of grp'] show ?thesis by (simp add: g)
  qed
  thus ?thesis using assms(2) s ph
    by (intro group_inv_stepI [OF assms(1)]) (auto simp: g)
qed

lemma coordinator_inv:
  assumes "group_inv grp" "coordinator_step x grp = Some grp'"
  shows "group_inv grp'"
  using assms(2) run_task_inv [OF assms(1)] stop_inv [OF assms(1)] activate_inv [OF assms(1)]
  by (auto simp: coordinator_step_def simp del: run_task_step.simps stop_created_workers_step.simps activate_step.simps
      split: option.splits)

lemma run_entry_unat:
  assumes "unat (n_helpers grp) \<le> 63" "\<not> n > n_helpers grp + 1" "n \<noteq> 0"
  shows "0 < unat n \<and> unat n \<le> unat (n_helpers grp) + 1"
proof -
  have "unat (n_helpers grp + 1) = unat (n_helpers grp) + 1" using assms(1) by (simp add: unat_plus_32)
  thus ?thesis using assms(2,3) by (simp add: word_less_unat unat_gt_0)
qed

lemma run_task_enter:
  assumes "group_inv grp" "coordinator grp = CIdle" "run_task (Some grp) t d n = Enter grp'"
  shows "group_inv grp'"
proof -
  obtain tf where g: "grp' = grp\<lparr>coordinator := CRunPublish tf d n 0 PNext, lane_calls := (\<lambda>_. [])\<rparr>"
    and a: "active grp" "n \<noteq> 0" "\<not> n > n_helpers grp + 1"
    using assms(3) by (auto simp: run_task_def split: option.splits if_splits)
  have h: "unat (n_helpers grp) \<le> 63" using assms(1) by (simp add: group_inv_def)
  note n = run_entry_unat [OF h a(3,2)]
  show ?thesis using group_inv_ok [OF assms(1)] assms(2) a n
    by (intro group_inv_stepI [OF assms(1)]) (auto simp: g slot_ok.simps run_entry_ok_def)
qed

lemma call_inv:
  assumes "group_inv grp" "group_call grp grp'"
  shows "group_inv grp'"
  using assms(2)
proof cases
  case (run_dense t)
  hence "\<exists>d. run_task (Some grp) (Some DENSE_TASK) d (n_helpers grp + 1) = Enter grp'"
    by (auto simp: spa_fgn_worker_group_run_dense_f32_def split: if_splits sum.splits)
  thus ?thesis using run_task_enter [OF assms(1) run_dense(1)] by blast
next
  case (run_lanes t)
  hence "\<exists>d n. run_task (Some grp) (Some LANES_TASK) d n = Enter grp'"
    by (auto simp: spa_fgn_worker_group_run_lanes_def split: if_splits option.splits)
  thus ?thesis using run_task_enter [OF assms(1) run_lanes(1)] by blast
next
  case activate
  thus ?thesis using group_inv_ok [OF assms(1)]
    by (intro group_inv_stepI [OF assms(1)]) (auto simp: spa_fgn_worker_group_activate_def split: if_splits)
next
  case deactivate
  thus ?thesis using group_inv_ok [OF assms(1)]
    by (intro group_inv_stepI [OF assms(1)])
       (auto simp: spa_fgn_worker_group_deactivate_def slot_ok_phases(1) split: if_splits)
next
  case free
  thus ?thesis using group_inv_ok [OF assms(1)]
    by (intro group_inv_stepI [OF assms(1)])
       (auto simp: spa_fgn_worker_group_free_def spa_fgn_worker_group_deactivate_def slot_ok_phases(1) split: if_splits)
qed

lemma new_inv:
  assumes "spa_fgn_worker_group_new al n = Inr (grp, ex)"
  shows "group_inv grp"
proof -
  have "unat n \<le> 63" using assms
    by (auto simp: spa_fgn_worker_group_new_def word_less_unat split: if_splits)
  moreover have "grp = \<lparr>n_helpers = n, n_created = 0, active = False, slots = new_slot, threads = (\<lambda>_. WOff),
      coordinator = CIdle, ret = 0, lane_calls = (\<lambda>_. []), cpu = processor al\<rparr>"
    using assms by (auto simp: spa_fgn_worker_group_new_def Let_def split: if_splits option.splits)
  ultimately show ?thesis by (simp add: group_inv_def slot_ok.simps new_slot_def)
qed

lemma reachable_inv: "group_reachable grp \<Longrightarrow> group_inv grp"
proof (induction rule: group_reachable.induct)
  case (new al n grp ex)
  thus ?case by (rule new_inv)
next
  case (step grp grp')
  from step(2) show ?case using coordinator_inv helper_inv step(3) by cases blast+
next
  case (call grp grp')
  thus ?case using call_inv by blast
qed

section \<open>Progress\<close>

text \<open>What is left to do: of the coordinator (lexicographically by stage, slot, store) and of the helpers.\<close>

fun stage :: "coordinator_pc \<Rightarrow> nat" where
  "stage (CActReset _) = 9"
| "stage (CActCreate _) = 9"
| "stage (CActAwait _) = 8"
| "stage (CStopAwait _ _) = 7"
| "stage (CStopPublish _ _ _) = 6"
| "stage (CStopJoin _ _ _) = 5"
| "stage (CRunPublish _ _ _ _ _) = 4"
| "stage (CRunSelf _ _ _) = 3"
| "stage (CRunWait _ _ _ _ _) = 2"
| "stage (CRunStatus _ _ _ _ _) = 2"
| "stage (CRunReturn _ _ _ _) = 1"
| "stage CIdle = 0"
| "stage CFreed = 0"

fun slots_left :: "coordinator_pc \<Rightarrow> nat" where
  "slots_left (CActReset i) = 64 - i"
| "slots_left (CActCreate i) = 64 - i"
| "slots_left (CActAwait i) = 64 - i"
| "slots_left (CStopAwait _ i) = 64 - i"
| "slots_left (CStopPublish _ i _) = 64 - i"
| "slots_left (CStopJoin _ i _) = 64 - i"
| "slots_left (CRunPublish _ _ _ i _) = 64 - i"
| "slots_left (CRunWait _ _ _ _ i) = 64 - i"
| "slots_left (CRunStatus _ _ _ _ i) = 64 - i"
| "slots_left _ = 0"

fun stores_left :: "publish_pc \<Rightarrow> nat" where
  "stores_left PNext = 6"
| "stores_left (PRearm _) = 5"
| "stores_left (PTask _) = 4"
| "stores_left (PData _) = 3"
| "stores_left (PLanes _) = 2"
| "stores_left (PRelease _) = 1"

fun substage :: "coordinator_pc \<Rightarrow> nat" where
  "substage (CActReset _) = 1"
| "substage (CRunWait _ _ _ _ _) = 1"
| "substage (CRunPublish _ _ _ _ pc) = stores_left pc"
| "substage (CStopPublish _ _ pc) = stores_left pc"
| "substage _ = 0"

fun helper_left :: "fgn_worker_slot \<Rightarrow> worker_pc \<Rightarrow> nat" where
  "helper_left s WBoot = 2"
| "helper_left s (WBooted _) = 1"
| "helper_left s (WPoll g) = (if g = command_generation s then 0 else 7)"
| "helper_left s (WTask _) = 6"
| "helper_left s (WData _ _) = 5"
| "helper_left s (WLanes _ _ _) = 4"
| "helper_left s (WRun _ _ _ _) = 3"
| "helper_left s (WStatus _ _) = 2"
| "helper_left s (WStore _) = 1"
| "helper_left s WOff = 0"
| "helper_left s WExit = 0"

definition work_left :: "(spa_fgn_worker_group \<times> spa_fgn_worker_group) set" where
  "work_left = measures [\<lambda>grp. stage (coordinator grp), \<lambda>grp. slots_left (coordinator grp),
     \<lambda>grp. substage (coordinator grp),
     \<lambda>grp. \<Sum>i<unat (n_helpers grp). helper_left (slots grp i) (threads grp i)]"

lemma work_left_coordinator:
  assumes "stage (coordinator grp') < stage (coordinator grp) \<or>
    stage (coordinator grp') = stage (coordinator grp) \<and>
      (slots_left (coordinator grp') < slots_left (coordinator grp) \<or>
       slots_left (coordinator grp') = slots_left (coordinator grp) \<and> substage (coordinator grp') < substage (coordinator grp))"
  shows "(grp', grp) \<in> work_left"
  using assms by (auto simp: work_left_def)

lemma publish_stores_left: "publish_command t d n pc s = (s', Some q) \<Longrightarrow> stores_left q < stores_left pc"
  by (cases pc) (auto simp: next_generation_def)

lemma worker_left:
  assumes "slot_ok ph s w calls" "worker_main p x s w = Some (s', w', c)"
  shows "helper_left s' w' < helper_left s w"
proof -
  have "w = WBooted g \<or> w = WStore g \<Longrightarrow> g = command_generation s" for g
    using assms(1) by (cases ph) (auto simp: slot_ok.simps)
  thus ?thesis using assms(2) by (cases w) (auto simp: Let_def split: if_splits option.splits)
qed

lemma helper_decreases:
  assumes "group_inv grp" "i < unat (n_helpers grp)" "helper_step i x grp = Some grp'"
  shows "(grp', grp) \<in> work_left"
proof -
  obtain s' w' c where w: "worker_main (cpu grp) x (slots grp i) (threads grp i) = Some (s', w', c)"
    and g: "grp' = grp\<lparr>slots := (slots grp)(i := s'), threads := (threads grp)(i := w'),
      lane_calls := (lane_calls grp)(Suc i := lane_calls grp (Suc i) @ c)\<rparr>"
    using assms(3) by (auto simp: helper_step_def split: option.splits)
  have "(\<Sum>k<unat (n_helpers grp). helper_left (slots grp' k) (threads grp' k)) <
      (\<Sum>k<unat (n_helpers grp). helper_left (slots grp k) (threads grp k))"
    using assms(2) worker_left [OF group_inv_slot(1) [OF assms(1,2)] w]
    by (intro sum_strict_mono_ex1) (auto simp: g intro!: bexI [of _ i])
  thus ?thesis by (simp add: work_left_def g)
qed

lemma run_decreases:
  assumes "group_inv grp" "run_task_step x grp = Some grp'"
  shows "(grp', grp) \<in> work_left"
proof -
  have h: "unat (n_helpers grp) \<le> 63" using assms(1) by (simp add: group_inv_def)
  show ?thesis
    using assms(2) group_inv_ok [OF assms(1)] h publish_stores_left
    by (intro work_left_coordinator; cases "coordinator grp")
       (auto simp: Let_def run_entry_ok_def split: if_splits prod.splits option.splits)
qed

lemma stop_decreases:
  assumes "group_inv grp" "stop_created_workers_step grp = Some grp'"
  shows "(grp', grp) \<in> work_left"
proof -
  have h: "unat (n_helpers grp) \<le> 63" using assms(1) by (simp add: group_inv_def)
  show ?thesis
    using assms(2) group_inv_ok [OF assms(1)] h publish_stores_left
    by (intro work_left_coordinator; cases "coordinator grp")
       (auto simp: stop_return_def Let_def split: if_splits prod.splits option.splits worker_pc.splits stop_caller.splits)
qed

lemma activate_decreases:
  assumes "group_inv grp" "activate_step x grp = Some grp'"
  shows "(grp', grp) \<in> work_left"
proof -
  have h: "unat (n_helpers grp) \<le> 63" using assms(1) by (simp add: group_inv_def)
  show ?thesis
    using assms(2) group_inv_ok [OF assms(1)] h
    by (intro work_left_coordinator; cases "coordinator grp") (auto split: if_splits)
qed

lemma step_decreases:
  assumes "group_inv grp" "group_step grp grp'"
  shows "(grp', grp) \<in> work_left"
  using assms(2)
proof cases
  case (coordinator x)
  thus ?thesis using run_decreases [OF assms(1)] stop_decreases [OF assms(1)] activate_decreases [OF assms(1)]
    by (auto simp: coordinator_step_def simp del: run_task_step.simps stop_created_workers_step.simps activate_step.simps
        split: option.splits)
next
  case (helper i x)
  thus ?thesis using helper_decreases [OF assms(1)] by blast
qed

fun run_of :: "coordinator_pc \<Rightarrow> (fgn_worker_task_func_t \<times> fgn_data \<times> u32) option" where
  "run_of (CRunPublish t d n i pc) = Some (t, d, n)"
| "run_of (CRunSelf t d n) = Some (t, d, n)"
| "run_of (CRunWait t d n r i) = Some (t, d, n)"
| "run_of (CRunStatus t d n r i) = Some (t, d, n)"
| "run_of (CRunReturn t d n r) = Some (t, d, n)"
| "run_of _ = None"

text \<open>Every lane of the task that is running, if any, returns.\<close>

definition task_returns :: "spa_fgn_worker_group \<Rightarrow> bool" where
  "task_returns grp \<longleftrightarrow> (\<forall>t d n lane. run_of (coordinator grp) = Some (t, d, n) \<longrightarrow>
     task_status (cpu grp) t d lane n 0 \<noteq> None)"

lemma lanes_task_returns: "run_of (coordinator grp) = Some (LANES_TASK, d, n) \<Longrightarrow> task_returns grp"
  by (simp add: task_returns_def task_status_def)

lemma select_dot_returns: "unat cnt \<le> 2 ^ 32 - 2048 \<Longrightarrow> \<exists>y. select_dense_dot_f32 pf fma add zero left right cnt = Some y"
  using blocked_loop_ends [of cnt]
  by (auto simp: select_dense_dot_f32_def Let_def dense_dot_f32_blocked_def split: platform.split)

lemma dense_task_returns:
  assumes "unat (n_columns t) \<le> 2 ^ 32 - 2048"
  shows "dense_task (select_dense_dot_f32 pf fma add zero) add t mat inp lane n out \<noteq> None"
proof -
  have "dense_row (select_dense_dot_f32 pf fma add zero) t mat inp row \<noteq> None" for row
    unfolding dense_row_def using select_dot_returns [OF assms] by (metis option.distinct(1))
  thus ?thesis by (simp add: dense_task_def dense_rows_result Let_def del: not_None_eq)
qed

lemma dense_status_returns:
  "unat (n_columns t) \<le> 2 ^ 32 - 2048 \<Longrightarrow> task_status pf DENSE_TASK (DDense t) lane n x \<noteq> None"
  using dense_task_returns [of t pf "\<lambda>_ _ _. ()" "\<lambda>_ _. ()" "()" "\<lambda>_. ()" "\<lambda>_. ()" lane n "\<lambda>_. ()"]
  by (simp add: task_status_def)

text \<open>A coordinator that waits for a helper waits for one that can move.\<close>

lemma helper_moves:
  assumes "i < unat (n_helpers grp)" "worker_main (cpu grp) 0 (slots grp i) (threads grp i) \<noteq> None"
  shows "\<exists>grp'. group_step grp grp'"
proof -
  from assms(2) have "\<exists>grp'. helper_step i 0 grp = Some grp'"
    by (auto simp: helper_step_def split: option.splits)
  thus ?thesis using assms(1) group_step.helper by blast
qed

lemma fresh_moves: "slot_ok Fresh s w calls \<Longrightarrow> \<not> context_started s \<Longrightarrow> worker_main p x s w \<noteq> None"
  by (auto simp: slot_ok.simps)

lemma out_moves:
  "slot_ok (Out t d n) s w calls \<Longrightarrow> completion_generation s \<noteq> command_next_generation s \<Longrightarrow>
   task_status p t d (context_lane s) n x \<noteq> None \<Longrightarrow> worker_main p x s w \<noteq> None"
  by (cases w) (auto simp: slot_ok.simps Let_def)

lemma stopping_moves: "slot_ok Stopping s w calls \<Longrightarrow> w \<noteq> WExit \<Longrightarrow> worker_main p x s w \<noteq> None"
  by (auto simp: slot_ok.simps)

lemma coordinator_moves:
  assumes "\<not> (run_task_step 0 grp = None \<and> stop_created_workers_step grp = None \<and> activate_step 0 grp = None)"
  shows "\<exists>grp'. group_step grp grp'"
proof -
  have "\<exists>grp'. coordinator_step 0 grp = Some grp'" using assms
    by (auto simp: coordinator_step_def simp del: run_task_step.simps stop_created_workers_step.simps activate_step.simps
        split: option.splits)
  thus ?thesis using group_step.coordinator by blast
qed

lemma not_stuck:
  assumes "group_inv grp" "coordinator grp \<noteq> CIdle" "coordinator grp \<noteq> CFreed" "task_returns grp"
  shows "\<exists>grp'. group_step grp grp'"
proof (cases "run_task_step 0 grp = None \<and> stop_created_workers_step grp = None \<and> activate_step 0 grp = None")
  case False
  thus ?thesis by (rule coordinator_moves)
next
  case True
  have "\<exists>i<unat (n_helpers grp). worker_main (cpu grp) 0 (slots grp i) (threads grp i) \<noteq> None"
  proof (cases "coordinator grp")
    case (CRunWait t d n r j)
    hence j: "j + 1 < unat n" "completion_generation (slots grp j) \<noteq> command_next_generation (slots grp j)"
      using True by (auto simp: Let_def split: if_splits)
    have "j < unat (n_helpers grp)" using group_inv_ok [OF assms(1)] CRunWait j by (simp add: run_entry_ok_def)
    moreover from group_inv_slot(1) [OF assms(1) this]
    have "slot_ok (Out t d n) (slots grp j) (threads grp j) (lane_calls grp (Suc j))" using CRunWait j by simp
    moreover have "task_status (cpu grp) t d l n 0 \<noteq> None" for l using assms(4) CRunWait by (simp add: task_returns_def)
    ultimately show ?thesis using out_moves j(2) by blast
  next
    case (CRunSelf t d n)
    hence "task_status (cpu grp) t d 0 n 0 \<noteq> None" using assms(4) by (simp add: task_returns_def)
    thus ?thesis using True CRunSelf by (simp split: option.splits)
  next
    case (CActAwait j)
    hence j: "j < unat (n_helpers grp)" "\<not> context_started (slots grp j)" using True by (auto split: if_splits)
    from group_inv_slot(1) [OF assms(1) j(1)]
    have "slot_ok Fresh (slots grp j) (threads grp j) (lane_calls grp (Suc j))" using CActAwait by simp
    thus ?thesis using fresh_moves j by blast
  next
    case (CStopAwait c j)
    hence j: "j < n_created grp" "\<not> context_started (slots grp j)" using True by (auto split: if_splits)
    have "j < unat (n_helpers grp)" using group_inv_ok [OF assms(1)] CStopAwait j by simp
    moreover from group_inv_slot(1) [OF assms(1) this]
    have "slot_ok Fresh (slots grp j) (threads grp j) (lane_calls grp (Suc j))" using CStopAwait j by simp
    ultimately show ?thesis using fresh_moves j(2) by blast
  next
    case (CStopJoin c j r)
    hence j: "j < n_created grp" "threads grp j \<noteq> WExit" using True by (auto split: if_splits)
    have "j < unat (n_helpers grp)" using group_inv_ok [OF assms(1)] CStopJoin j by simp
    moreover from group_inv_slot(1) [OF assms(1) this]
    have "slot_ok Stopping (slots grp j) (threads grp j) (lane_calls grp (Suc j))" using CStopJoin j by simp
    ultimately show ?thesis using stopping_moves j(2) by blast
  qed (insert True assms(2,3), auto simp: Let_def split: if_splits prod.splits option.splits)
  thus ?thesis using helper_moves by blast
qed

lemma step_inv: "group_inv grp \<Longrightarrow> group_step grp grp' \<Longrightarrow> group_inv grp'"
  by (erule group_step.cases) (auto intro: coordinator_inv helper_inv)

lemma wf_work_left: "wf work_left"
  by (simp add: work_left_def)

lemma inevitably_by_work:
  assumes "\<And>g. I g \<Longrightarrow> \<not> P g \<Longrightarrow> group_inv g \<and> coordinator g \<noteq> CIdle \<and> coordinator g \<noteq> CFreed \<and> task_returns g"
    and "\<And>g g'. I g \<Longrightarrow> \<not> P g \<Longrightarrow> group_step g g' \<Longrightarrow> I g'"
    and "I grp"
  shows "inevitably P grp"
  using wf_work_left assms(3)
proof (induction grp rule: wf_induct_rule)
  case (less g)
  show ?case
  proof (cases "P g")
    case True
    thus ?thesis by (rule inevitably.now)
  next
    case False
    note i = assms(1) [OF less(2) False]
    then obtain g0 where "group_step g g0" using not_stuck by blast
    thus ?thesis
    proof (rule inevitably.later)
      fix g' assume s: "group_step g g'"
      have "(g', g) \<in> work_left" using step_decreases s i by blast
      thus "inevitably P g'" using less(1) assms(2) [OF less(2) False s] by blast
    qed
  qed
qed

lemma inevitably_mono:
  assumes "inevitably P grp" "\<And>g. P g \<Longrightarrow> Q g"
  shows "inevitably Q grp"
  using assms(1) by (induction) (auto intro: inevitably.intros assms(2))

lemma run_of_step:
  assumes "run_of (coordinator grp) = Some c" "\<And>t d n r. coordinator grp \<noteq> CRunReturn t d n r" "group_step grp grp'"
  shows "run_of (coordinator grp') = Some c"
  using assms(3)
proof cases
  case (coordinator x)
  thus ?thesis using assms(1,2)
    by (cases "coordinator grp")
       (auto simp: coordinator_step_def Let_def split: if_splits prod.splits option.splits)
next
  case (helper i x)
  thus ?thesis using assms(1) by (auto simp: helper_step_def split: option.splits)
qed

lemma run_return_lanes:
  assumes "group_inv grp" "coordinator grp = CRunReturn t d n r"
  shows "\<forall>l<unat n. lane_calls grp l = [(t, d, of_nat l, n, ran_status grp l)]" "\<forall>l\<ge>unat n. lane_calls grp l = []"
    "r = first_nonzero (map (ran_status grp) [0..<unat n])"
    "\<forall>i<unat (n_helpers grp). \<exists>g. threads grp i = WPoll g"
  using group_inv_ok [OF assms(1)] group_inv_slot(1) [OF assms(1)] assms(2)
  by (auto simp: run_entry_ok_def lanes_ran_def slot_ok.simps)

text \<open>A dense task is called with the task that was validated; a helper or a later step does not change it.\<close>

definition dense_data :: "spa_fgn_worker_group \<Rightarrow> bool" where
  "dense_data grp \<longleftrightarrow> (\<forall>d n. run_of (coordinator grp) = Some (DENSE_TASK, d, n) \<longrightarrow> (\<exists>t. d = DDense t))"

lemma run_of_later:
  assumes "group_step grp grp'" "run_of (coordinator grp') = Some c"
  shows "run_of (coordinator grp) = Some c"
  using assms(1)
proof cases
  case (coordinator x)
  thus ?thesis using assms(2)
    by (cases "coordinator grp")
       (auto simp: coordinator_step_def stop_return_def Let_def
         split: if_splits prod.splits option.splits worker_pc.splits stop_caller.splits)
next
  case (helper i x)
  thus ?thesis using assms(2) by (auto simp: helper_step_def split: option.splits)
qed

lemma step_cpu: "group_step grp grp' \<Longrightarrow> cpu grp' = cpu grp"
proof (cases rule: group_step.cases)
  fix x assume "coordinator_step x grp = Some grp'"
  thus ?thesis
    by (cases "coordinator grp")
       (auto simp: coordinator_step_def stop_return_def Let_def
         split: if_splits prod.splits option.splits worker_pc.splits stop_caller.splits)
next
  fix i x assume "helper_step i x grp = Some grp'"
  thus ?thesis by (auto simp: helper_step_def split: option.splits)
qed

lemma call_dense_data: "group_call grp grp' \<Longrightarrow> dense_data grp'"
  by (erule group_call.cases)
     (auto simp: dense_data_def spa_fgn_worker_group_run_dense_f32_def spa_fgn_worker_group_run_lanes_def run_task_def
       spa_fgn_worker_group_activate_def spa_fgn_worker_group_deactivate_def spa_fgn_worker_group_free_def
       validate_dense_task_def split: if_splits option.splits sum.splits)

lemma reachable_dense_data: "group_reachable grp \<Longrightarrow> dense_data grp"
proof (induction rule: group_reachable.induct)
  case (new al n grp ex)
  thus ?case by (auto simp: dense_data_def spa_fgn_worker_group_new_def Let_def split: if_splits option.splits)
next
  case (step grp grp')
  thus ?case using run_of_later [OF step(2)] by (auto simp: dense_data_def)
qed (rule call_dense_data)

lemma task_returns_step: "task_returns grp \<Longrightarrow> group_step grp grp' \<Longrightarrow> task_returns grp'"
proof -
  assume r: "task_returns grp" and s: "group_step grp grp'"
  show ?thesis unfolding task_returns_def step_cpu [OF s]
    using r run_of_later [OF s] unfolding task_returns_def by blast
qed

section \<open>Properties\<close>

text \<open>A group with one helper, activated and then running a task on two lanes, under one schedule.\<close>

fun play :: "(nat option \<times> int) list \<Rightarrow> spa_fgn_worker_group \<Rightarrow> spa_fgn_worker_group option" where
  "play [] grp = Some grp"
| "play ((None, x) # rest) grp = Option.bind (coordinator_step x grp) (play rest)"
| "play ((Some i, x) # rest) grp =
     (if i < unat (n_helpers grp) then Option.bind (helper_step i x grp) (play rest) else None)"

lemma play_reachable: "group_reachable grp \<Longrightarrow> play sch grp = Some grp' \<Longrightarrow> group_reachable grp'"
proof (induction sch grp rule: play.induct)
  case (2 x rest grp)
  thus ?case by (auto simp: bind_eq_Some_conv dest: group_step.coordinator group_reachable.step)
next
  case (3 i x rest grp)
  thus ?case by (auto simp: bind_eq_Some_conv split: if_splits dest: group_step.helper group_reachable.step)
qed simp

definition demo_alloc :: alloc where
  "demo_alloc = \<lparr>group_ok = True, memalign = None, threads_ok = True, lock_free = True, processor = X86_64 True\<rparr>"

definition demo_lanes :: spa_fgn_lanes_task where
  "demo_lanes = \<lparr>lt_struct_size = 32, lt_flags = 0, lt_data = 0, lt_run = 0x1000, lt_n_lanes = 2, lt_reserved = 0\<rparr>"

definition entered :: "fgn_entry \<Rightarrow> spa_fgn_worker_group option" where
  "entered e = (case e of Enter grp \<Rightarrow> Some grp | _ \<Rightarrow> None)"

definition demo_new :: spa_fgn_worker_group where
  "demo_new = (case spa_fgn_worker_group_new demo_alloc 1 of Inr (grp, _) \<Rightarrow> grp)"

definition demo_active :: "spa_fgn_worker_group option" where
  "demo_active = Option.bind (entered (spa_fgn_worker_group_activate (Some demo_new)))
     (play [(None, 0), (None, 0), (None, 0), (Some 0, 0), (Some 0, 0), (None, 0), (None, 0)])"

definition demo_call :: "spa_fgn_worker_group option" where
  "demo_call = entered (spa_fgn_worker_group_run_lanes demo_active (Some demo_lanes))"

definition demo_returned :: "spa_fgn_worker_group option" where
  "demo_returned = Option.bind demo_call (play ([(None, 0), (None, 0), (None, 0), (None, 0), (None, 0), (None, 0)] @
     [(None, 0), (None, 0)] @ [(Some 0, 0), (Some 0, 0), (Some 0, 0), (Some 0, 0), (Some 0, - 5), (Some 0, 0), (Some 0, 0)] @
     [(None, 0), (None, 0), (None, 0)]))"

lemma demo_new: "demo_new = \<lparr>n_helpers = 1, n_created = 0, active = False, slots = new_slot, threads = (\<lambda>_. WOff),
      coordinator = CIdle, ret = 0, lane_calls = (\<lambda>_. []), cpu = X86_64 True\<rparr>" "group_reachable demo_new"
proof -
  have e: "\<exists>ex. spa_fgn_worker_group_new demo_alloc 1 = Inr (\<lparr>n_helpers = 1, n_created = 0, active = False,
      slots = new_slot, threads = (\<lambda>_. WOff), coordinator = CIdle, ret = 0, lane_calls = (\<lambda>_. []), cpu = X86_64 True\<rparr>, ex)"
    by (simp add: spa_fgn_worker_group_new_def demo_alloc_def Let_def spa_overflow_mul_def)
  thus n: "demo_new = \<lparr>n_helpers = 1, n_created = 0, active = False, slots = new_slot, threads = (\<lambda>_. WOff),
      coordinator = CIdle, ret = 0, lane_calls = (\<lambda>_. []), cpu = X86_64 True\<rparr>" by (auto simp: demo_new_def)
  show "group_reachable demo_new" unfolding n using e group_reachable.new by blast
qed

lemmas play_simps = coordinator_step_def helper_step_def Let_def next_generation_def task_status_def

definition demo_slot :: fgn_worker_slot where
  "demo_slot = \<lparr>command_generation = 0, command_task = None, command_data = DNULL, command_n_lanes = 0,
     command_next_generation = 0, completion_generation = 0, completion_status = 0,
     context_lane = 1, context_started = True\<rparr>"

lemma demo_active: "demo_active = Some \<lparr>n_helpers = 1, n_created = 1, active = True, slots = new_slot(0 := demo_slot),
    threads = (\<lambda>_. WOff)(0 := WPoll 0), coordinator = CIdle, ret = 0, lane_calls = (\<lambda>_. []), cpu = X86_64 True\<rparr>"
  by (simp add: demo_active_def entered_def demo_new spa_fgn_worker_group_activate_def play_simps fun_upd_def
      new_slot_def demo_slot_def cong: if_cong)

lemma demo_active_reachable: "demo_active = Some grp \<Longrightarrow> group_reachable grp"
proof -
  assume "demo_active = Some grp"
  then obtain g where "spa_fgn_worker_group_activate (Some demo_new) = Enter g" "play [(None, 0), (None, 0), (None, 0),
      (Some 0, 0), (Some 0, 0), (None, 0), (None, 0)] g = Some grp"
    by (auto simp: demo_active_def entered_def bind_eq_Some_conv split: fgn_entry.splits simp del: play.simps)
  moreover have "coordinator demo_new = CIdle" by (simp add: demo_new)
  ultimately show ?thesis
    using demo_new(2) group_reachable.call group_call.activate play_reachable by blast
qed

lemma demo_call_reachable: "demo_call = Some grp \<Longrightarrow> group_reachable grp"
proof -
  assume "demo_call = Some grp"
  hence "spa_fgn_worker_group_run_lanes (Some (the demo_active)) (Some demo_lanes) = Enter grp"
    by (simp add: demo_call_def entered_def demo_active split: fgn_entry.splits)
  moreover have "coordinator (the demo_active) = CIdle" by (simp add: demo_active)
  moreover have "group_reachable (the demo_active)" using demo_active_reachable by (simp add: demo_active)
  ultimately show ?thesis using group_reachable.call group_call.run_lanes by blast
qed

lemma demo_call: "demo_call = Some (the demo_active\<lparr>coordinator := CRunPublish LANES_TASK (DLanes demo_lanes) 2 0 PNext\<rparr>)"
  by (simp add: demo_call_def entered_def demo_active spa_fgn_worker_group_run_lanes_def run_task_def demo_lanes_def)

lemma demo_returned:
  "\<exists>grp. demo_returned = Some grp \<and> coordinator grp = CRunReturn LANES_TASK (DLanes demo_lanes) 2 (- 5)"
  by (simp add: demo_returned_def demo_call demo_active play_simps fun_upd_def demo_slot_def cong: if_cong)

lemma demo_returned_reachable: "demo_returned = Some grp \<Longrightarrow> group_reachable grp"
  using demo_call_reachable play_reachable unfolding demo_returned_def bind_eq_Some_conv by blast

text \<open>
  C20: when a task returns from the worker group, every lane of it ran exactly once, with the task
  and data of this call and its own lane number, no other lane ran, the result is the first status
  that is not 0 in lane order, and all helpers are back in their polling loop: none uses the
  borrowed task any more. This holds for every interleaving and across wrap-around of the
  generations.
\<close>

theorem run_returns_every_lane_once:
  assumes "group_reachable grp" "coordinator grp = CRunReturn task data n result"
  shows "(\<forall>l<unat n. lane_calls grp l = [(task, data, of_nat l, n, ran_status grp l)]) \<and>
    (\<forall>l\<ge>unat n. lane_calls grp l = []) \<and>
    result = first_nonzero (map (ran_status grp) [0..<unat n]) \<and>
    (\<forall>i<unat (n_helpers grp). \<exists>g. threads grp i = WPoll g)"
  using run_return_lanes [OF reachable_inv [OF assms(1)] assms(2)] by blast

theorem run_returns_every_lane_once_witness:
  "\<exists>grp st. group_reachable grp \<and> coordinator grp = CRunReturn LANES_TASK (DLanes demo_lanes) 2 (- 5) \<and>
     lane_calls grp 1 = [(LANES_TASK, DLanes demo_lanes, 1, 2, st)]"
proof -
  obtain grp where g: "demo_returned = Some grp" "coordinator grp = CRunReturn LANES_TASK (DLanes demo_lanes) 2 (- 5)"
    using demo_returned by blast
  from run_returns_every_lane_once [OF demo_returned_reachable [OF g(1)] g(2)]
  have "lane_calls grp 1 = [(LANES_TASK, DLanes demo_lanes, 1, 2, ran_status grp 1)]" by simp
  thus ?thesis using g demo_returned_reachable by blast
qed

text \<open>
  C21: a lanes task that is accepted returns under every schedule of coordinator and helpers, with
  each of its lanes executed once and the first status that is not 0.
\<close>

theorem run_lanes_inevitably_returns:
  assumes "group_reachable grp" "coordinator grp = CIdle"
    "spa_fgn_worker_group_run_lanes (Some grp) (Some task) = Enter grp'"
  shows "inevitably (\<lambda>g. coordinator g = CRunReturn LANES_TASK (DLanes task) (lt_n_lanes task)
           (first_nonzero (map (ran_status g) [0..<unat (lt_n_lanes task)])) \<and>
         (\<forall>l<unat (lt_n_lanes task).
            lane_calls g l = [(LANES_TASK, DLanes task, of_nat l, lt_n_lanes task, ran_status g l)])) grp'"
proof -
  let ?c = "(LANES_TASK, DLanes task, lt_n_lanes task)"
  let ?I = "\<lambda>g. group_inv g \<and> run_of (coordinator g) = Some ?c"
  let ?P = "\<lambda>g. coordinator g = CRunReturn LANES_TASK (DLanes task) (lt_n_lanes task)
      (first_nonzero (map (ran_status g) [0..<unat (lt_n_lanes task)])) \<and>
    (\<forall>l<unat (lt_n_lanes task).
       lane_calls g l = [(LANES_TASK, DLanes task, of_nat l, lt_n_lanes task, ran_status g l)])"
  have "group_inv grp'" using reachable_inv assms group_reachable.call group_call.run_lanes by blast
  moreover have "run_of (coordinator grp') = Some ?c"
    using assms(3) by (auto simp: spa_fgn_worker_group_run_lanes_def run_task_def split: if_splits)
  ultimately have I: "?I grp'" by blast
  have r: "?P g" if "?I g" "coordinator g = CRunReturn t d n r" for g t d n r
    using that run_return_lanes(1,3) [of g t d n r] by simp
  show ?thesis
  proof (rule inevitably_by_work [where I = ?I, OF _ _ I])
    fix g assume "?I g" "\<not> ?P g"
    thus "group_inv g \<and> coordinator g \<noteq> CIdle \<and> coordinator g \<noteq> CFreed \<and> task_returns g"
      using lanes_task_returns by auto
  next
    fix g g' assume a: "?I g" "\<not> ?P g" "group_step g g'"
    have "coordinator g \<noteq> CRunReturn t d n r" for t d n r using r [OF a(1)] a(2) by blast
    from run_of_step [OF conjunct2 [OF a(1)] this a(3)] step_inv [OF conjunct1 [OF a(1)] a(3)]
    show "?I g'" by blast
  qed
qed

theorem run_lanes_inevitably_returns_witness:
  "inevitably (\<lambda>g. coordinator g = CRunReturn LANES_TASK (DLanes demo_lanes) 2 (first_nonzero (map (ran_status g) [0..<2])))
     (the demo_call)"
proof -
  have "spa_fgn_worker_group_run_lanes (Some (the demo_active)) (Some demo_lanes) = Enter (the demo_call)"
    by (simp add: demo_call_def entered_def demo_active spa_fgn_worker_group_run_lanes_def run_task_def demo_lanes_def)
  moreover have "coordinator (the demo_active) = CIdle" "group_reachable (the demo_active)"
    using demo_active_reachable by (simp_all add: demo_active)
  moreover have "lt_n_lanes demo_lanes = 2" by (simp add: demo_lanes_def)
  ultimately show ?thesis
    using run_lanes_inevitably_returns [of "the demo_active" demo_lanes "the demo_call"] inevitably_mono by fastforce
qed

text \<open>
  C22: every function of the worker group returns, whatever the scheduling: from each reachable
  state the coordinator reaches its idle state (or the group is freed). When a dense task is
  running this needs that it has at most \<open>2 ^ 32 - 2048\<close> columns, as for a longer one a lane may
  never return; the \<^verbatim>\<open>run\<close> function of a lanes task is taken to return.
\<close>

theorem group_functions_return:
  assumes "group_reachable grp"
    "\<And>t n. run_of (coordinator grp) = Some (DENSE_TASK, DDense t, n) \<Longrightarrow> unat (n_columns t) \<le> 2 ^ 32 - 2048"
  shows "inevitably (\<lambda>g. coordinator g = CIdle \<or> coordinator g = CFreed) grp"
proof -
  have "task_status (cpu grp) t d lane n 0 \<noteq> None" if run: "run_of (coordinator grp) = Some (t, d, n)" for t d n lane
  proof (cases t)
    case DENSE_TASK
    then obtain dt where d: "d = DDense dt" using reachable_dense_data [OF assms(1)] run by (auto simp: dense_data_def)
    have "unat (n_columns dt) \<le> 2 ^ 32 - 2048" using assms(2) run DENSE_TASK d by blast
    from dense_status_returns [OF this] show ?thesis unfolding DENSE_TASK d .
  qed (simp add: task_status_def)
  hence "task_returns grp" by (simp only: task_returns_def) blast
  thus ?thesis
    by (intro inevitably_by_work [where I = "\<lambda>g. group_inv g \<and> task_returns g"])
       (auto intro: reachable_inv [OF assms(1)] step_inv task_returns_step)
qed

theorem group_functions_return_witness:
  "\<exists>grp. spa_fgn_worker_group_run_dense_f32 demo_active (Some demo_task) = Enter grp \<and>
     inevitably (\<lambda>g. coordinator g = CIdle \<or> coordinator g = CFreed) grp"
proof -
  let ?g = "the demo_active\<lparr>coordinator := CRunPublish DENSE_TASK (DDense demo_task) 2 0 PNext, lane_calls := (\<lambda>_. [])\<rparr>"
  have e: "spa_fgn_worker_group_run_dense_f32 demo_active (Some demo_task) = Enter ?g"
    by (simp add: spa_fgn_worker_group_run_dense_f32_def run_task_def demo_active demo_task_valid)
  have "coordinator (the demo_active) = CIdle" "group_reachable (the demo_active)" "demo_active = Some (the demo_active)"
    using demo_active_reachable by (simp_all add: demo_active)
  hence "group_reachable ?g" using e group_reachable.call group_call.run_dense by metis
  hence "inevitably (\<lambda>g. coordinator g = CIdle \<or> coordinator g = CFreed) ?g"
    by (rule group_functions_return) (simp add: demo_task_def)
  thus ?thesis using e by blast
qed

text \<open>
  C23: helpers run only while the group is active: when no function is in progress an inactive group
  has no thread and a freed group neither, an active one has all its helpers polling; a thread is
  joined only after it ended, and joining never fails.
\<close>

theorem no_thread_outlives_group:
  assumes "group_reachable grp"
  shows "(coordinator grp = CIdle \<and> \<not> active grp \<or> coordinator grp = CFreed \<longrightarrow>
            (\<forall>i<unat (n_helpers grp). threads grp i = WOff)) \<and>
    (coordinator grp = CIdle \<and> active grp \<longrightarrow> (\<forall>i<unat (n_helpers grp). \<exists>g. threads grp i = WPoll g)) \<and>
    (\<forall>caller i r. coordinator grp = CStopJoin caller i r \<longrightarrow> r = 0)"
  using group_inv_ok [OF reachable_inv [OF assms]] group_inv_slot(1) [OF reachable_inv [OF assms]]
  by (auto simp: slot_ok.simps)

theorem no_thread_outlives_group_witness:
  "active (the demo_active) \<and> threads (the demo_active) 0 = WPoll 0 \<and> (\<exists>g. threads (the demo_active) 0 = WPoll g)"
  using no_thread_outlives_group [OF demo_active_reachable, of "the demo_active"] by (simp add: demo_active)

end
