(* ===== verification/PW_Map.thy ===== *)
theory PW_Map
  imports PW_Prelude
begin

text \<open>
  Growing arrays (\<^verbatim>\<open>src/pipewire/array.h\<close>) and the maps from ids to pointers built on them
  (\<^verbatim>\<open>src/pipewire/map.h\<close>), with which the daemon numbers its objects.

  An array holds 8-byte cells, as all arrays of pointers and of map items do: \<open>arr_data\<close> is the cell at
  an index, the size and the allocation are in bytes. Whether \<^verbatim>\<open>realloc\<close> succeeds is an argument; it
  keeps the cells. A map item is a pointer, which is even, or the odd link to the next free id.
  \<open>table\<close> is the abstract map: the pointers by id, and the stack of free ids.
\<close>

section \<open>Arrays\<close>

record pw_array =
  arr_data :: "nat \<Rightarrow> u64"
  arr_size :: u64
  arr_alloc :: u64
  arr_extend :: u64

definition SPA_ROUND_UP :: "u64 \<Rightarrow> u64 \<Rightarrow> u64" where
  "SPA_ROUND_UP x v = ((x + v - 1) div v) * v"

definition pw_array_init :: "u64 \<Rightarrow> (nat \<Rightarrow> u64) \<Rightarrow> pw_array" where
  "pw_array_init ext d = \<lparr>arr_data = d, arr_size = 0, arr_alloc = 0, arr_extend = ext\<rparr>"

definition pw_array_clear :: "pw_array \<Rightarrow> pw_array" where
  "pw_array_clear arr = pw_array_init (arr_extend arr) (arr_data arr)"

definition pw_array_init_static :: "(nat \<Rightarrow> u64) \<Rightarrow> u64 \<Rightarrow> pw_array" where
  "pw_array_init_static data sz = \<lparr>arr_data = data, arr_size = 0, arr_alloc = sz, arr_extend = 0\<rparr>"

definition pw_array_reset :: "pw_array \<Rightarrow> pw_array" where
  "pw_array_reset arr = arr\<lparr>arr_size := 0\<rparr>"

definition pw_array_get_len :: "pw_array \<Rightarrow> u64" where
  "pw_array_get_len arr = arr_size arr div 8"

definition pw_array_ensure_size :: "bool \<Rightarrow> pw_array \<Rightarrow> u64 \<Rightarrow> pw_array res" where
  "pw_array_ensure_size realloc_ok arr sz = (case spa_overflow_add (arr_size arr) sz of
     None \<Rightarrow> Inl ENOMEM
   | Some need \<Rightarrow>
       (if arr_alloc arr < need then
          (if arr_extend arr = 0 then Inl ENOSPC
           else let alloc = SPA_ROUND_UP need (arr_extend arr)
                in if \<not> realloc_ok then Inl ENOMEM else Inr (arr\<lparr>arr_alloc := alloc\<rparr>))
        else Inr arr))"

text \<open>The result is the array and the byte offset of the added bytes.\<close>

definition pw_array_add :: "bool \<Rightarrow> pw_array \<Rightarrow> u64 \<Rightarrow> (pw_array \<times> u64) res" where
  "pw_array_add realloc_ok arr sz = (case pw_array_ensure_size realloc_ok arr sz of
     Inl e \<Rightarrow> Inl e
   | Inr arr \<Rightarrow> Inr (arr\<lparr>arr_size := arr_size arr + sz\<rparr>, arr_size arr))"

definition set_cell :: "pw_array \<Rightarrow> nat \<Rightarrow> u64 \<Rightarrow> pw_array" where
  "set_cell arr i v = arr\<lparr>arr_data := (arr_data arr)(i := v)\<rparr>"

definition pw_array_add_ptr :: "bool \<Rightarrow> pw_array \<Rightarrow> u64 \<Rightarrow> pw_array res" where
  "pw_array_add_ptr realloc_ok arr ptr = (case pw_array_add realloc_ok arr 8 of
     Inl e \<Rightarrow> Inl e
   | Inr (arr, p) \<Rightarrow> Inr (set_cell arr (unat (p div 8)) ptr))"

text \<open>\<^verbatim>\<open>pw_array_remove\<close> of the cell at index \<open>i\<close>: the cells behind it move down.\<close>

definition pw_array_remove :: "pw_array \<Rightarrow> nat \<Rightarrow> pw_array" where
  "pw_array_remove arr i = (let sz = arr_size arr - 8
     in arr\<lparr>arr_size := sz, arr_data := (\<lambda>k. if i \<le> k \<and> k < unat (sz div 8) then arr_data arr (k + 1) else arr_data arr k)\<rparr>)"

section \<open>Maps\<close>

abbreviation (input) SPA_ID_INVALID :: u32 where "SPA_ID_INVALID \<equiv> 0xFFFFFFFF"

record pw_map =
  items :: pw_array
  free_list :: u32

definition pw_map_get_size :: "pw_map \<Rightarrow> u64" where
  "pw_map_get_size m = pw_array_get_len (items m)"

definition pw_map_get_item :: "pw_map \<Rightarrow> u32 \<Rightarrow> u64" where
  "pw_map_get_item m id' = arr_data (items m) (unat id')"

definition pw_map_item_is_free :: "u64 \<Rightarrow> bool" where
  "pw_map_item_is_free item \<longleftrightarrow> item AND 1 \<noteq> 0"

definition pw_map_id_is_free :: "pw_map \<Rightarrow> u32 \<Rightarrow> bool" where
  "pw_map_id_is_free m id' \<longleftrightarrow> pw_map_item_is_free (pw_map_get_item m id')"

definition pw_map_check_id :: "pw_map \<Rightarrow> u32 \<Rightarrow> bool" where
  "pw_map_check_id m id' \<longleftrightarrow> ucast id' < pw_map_get_size m"

definition pw_map_has_item :: "pw_map \<Rightarrow> u32 \<Rightarrow> bool" where
  "pw_map_has_item m id' \<longleftrightarrow> pw_map_check_id m id' \<and> \<not> pw_map_id_is_free m id'"

definition pw_map_init :: "bool \<Rightarrow> u64 \<Rightarrow> u64 \<Rightarrow> (nat \<Rightarrow> u64) \<Rightarrow> pw_map" where
  "pw_map_init realloc_ok sz ext d =
     (let arr = pw_array_init (ext * 8) d
      in \<lparr>items = (case pw_array_ensure_size realloc_ok arr (sz * 8) of Inl _ \<Rightarrow> arr | Inr arr' \<Rightarrow> arr'),
          free_list = SPA_ID_INVALID\<rparr>)"

definition pw_map_clear :: "pw_map \<Rightarrow> pw_map" where
  "pw_map_clear m = m\<lparr>items := pw_array_clear (items m)\<rparr>"

definition pw_map_reset :: "pw_map \<Rightarrow> pw_map" where
  "pw_map_reset m = m\<lparr>items := pw_array_reset (items m), free_list := SPA_ID_INVALID\<rparr>"

definition set_item :: "pw_map \<Rightarrow> nat \<Rightarrow> u64 \<Rightarrow> pw_map" where
  "set_item m i v = m\<lparr>items := set_cell (items m) i v\<rparr>"

text \<open>The result \<open>SPA_ID_INVALID\<close> is a failed allocation.\<close>

definition pw_map_insert_new :: "bool \<Rightarrow> pw_map \<Rightarrow> u64 \<Rightarrow> pw_map \<times> u32" where
  "pw_map_insert_new realloc_ok m data =
     (if free_list m \<noteq> SPA_ID_INVALID then
        (let i = unat (drop_bit 1 (free_list m)); item = arr_data (items m) i
         in (set_item (m\<lparr>free_list := ucast item\<rparr>) i data, of_nat i))
      else case pw_array_add realloc_ok (items m) 8 of
        Inl _ \<Rightarrow> (m, SPA_ID_INVALID)
      | Inr (arr, p) \<Rightarrow> (set_item (m\<lparr>items := arr\<rparr>) (unat (p div 8)) data, ucast (p div 8)))"

definition pw_map_insert_at :: "bool \<Rightarrow> pw_map \<Rightarrow> u32 \<Rightarrow> u64 \<Rightarrow> pw_map res" where
  "pw_map_insert_at realloc_ok m id' data =
     (let sz = pw_map_get_size m
      in if ucast id' > sz then Inl ENOSPC
         else if ucast id' = sz then
           (case pw_array_add realloc_ok (items m) 8 of
              Inl e \<Rightarrow> Inl e
            | Inr (arr, p) \<Rightarrow> Inr (set_item (m\<lparr>items := arr\<rparr>) (unat (p div 8)) data))
         else if pw_map_item_is_free (pw_map_get_item m id') then Inl EINVAL
         else Inr (set_item m (unat id') data))"

definition pw_map_remove :: "pw_map \<Rightarrow> u32 \<Rightarrow> pw_map" where
  "pw_map_remove m id' =
     (if pw_map_id_is_free m id' then m
      else (set_item m (unat id') (ucast (free_list m)))\<lparr>free_list := push_bit 1 id' OR 1\<rparr>)"

definition pw_map_lookup :: "pw_map \<Rightarrow> u32 \<Rightarrow> u64" where
  "pw_map_lookup m id' =
     (if pw_map_check_id m id' then
        (let item = pw_map_get_item m id' in if \<not> pw_map_item_is_free item then item else 0)
      else 0)"

text \<open>\<open>func\<close> takes a pointer and a state, and returns the result and the new state.\<close>

fun for_each_items :: "(u64 \<Rightarrow> 's \<Rightarrow> int \<times> 's) \<Rightarrow> u64 list \<Rightarrow> 's \<Rightarrow> int \<times> 's" where
  "for_each_items func [] s = (0, s)"
| "for_each_items func (item # rest) s =
     (if \<not> pw_map_item_is_free item then
        (case func item s of (res, s') \<Rightarrow> if res \<noteq> 0 then (res, s') else for_each_items func rest s')
      else for_each_items func rest s)"

definition pw_map_for_each :: "pw_map \<Rightarrow> (u64 \<Rightarrow> 's \<Rightarrow> int \<times> 's) \<Rightarrow> 's \<Rightarrow> int \<times> 's" where
  "pw_map_for_each m func s = for_each_items func (map (arr_data (items m)) [0..<unat (pw_map_get_size m)]) s"

section \<open>The abstract table\<close>

record table =
  entries :: "nat \<rightharpoonup> u64"
  free_ids :: "nat list"
  n_ids :: nat

definition table_insert :: "table \<Rightarrow> u64 \<Rightarrow> table \<times> nat" where
  "table_insert t v = (case free_ids t of
     i # is \<Rightarrow> (t\<lparr>entries := (entries t)(i \<mapsto> v), free_ids := is\<rparr>, i)
   | [] \<Rightarrow> (t\<lparr>entries := (entries t)(n_ids t \<mapsto> v), n_ids := n_ids t + 1\<rparr>, n_ids t))"

definition table_remove :: "table \<Rightarrow> nat \<Rightarrow> table" where
  "table_remove t i = (if entries t i = None then t
     else t\<lparr>entries := (entries t)(i := None), free_ids := i # free_ids t\<rparr>)"

definition table_ok :: "table \<Rightarrow> bool" where
  "table_ok t \<longleftrightarrow> distinct (free_ids t) \<and> set (free_ids t) \<subseteq> {..<n_ids t} \<and>
     dom (entries t) = {..<n_ids t} - set (free_ids t) \<and> n_ids t < 2 ^ 31"

text \<open>The links of the free list.\<close>

fun chain :: "(nat \<Rightarrow> u64) \<Rightarrow> u32 \<Rightarrow> nat list \<Rightarrow> bool" where
  "chain d f [] \<longleftrightarrow> f = SPA_ID_INVALID"
| "chain d f (i # is) \<longleftrightarrow> f = push_bit 1 (of_nat i) OR 1 \<and> d i = ucast (ucast (d i) :: u32) \<and>
     odd (ucast (d i) :: u32) \<and> chain d (ucast (d i)) is"

definition map_rel :: "pw_map \<Rightarrow> table \<Rightarrow> bool" where
  "map_rel m t \<longleftrightarrow> table_ok t \<and> unat (arr_size (items m)) = 8 * n_ids t \<and>
     chain (arr_data (items m)) (free_list m) (free_ids t) \<and>
     (\<forall>i v. entries t i = Some v \<longrightarrow> arr_data (items m) i = v \<and> even v)"

section \<open>The free list\<close>

lemma ucast_back [simp]: "(ucast (ucast (x :: u32) :: u64) :: u32) = x"
  by (rule bit_word_eqI) (simp add: bit_simps)

lemma link_unat: "i < 2 ^ 31 \<Longrightarrow> unat (push_bit 1 (of_nat i) OR 1 :: u32) = 2 * i + 1"
proof -
  assume "i < 2 ^ 31"
  hence "unat (push_bit 1 (of_nat i) :: u32) = 2 * i" "unat (push_bit 1 (of_nat i) + 1 :: u32) = 2 * i + 1"
    by (simp_all add: push_bit_eq_mult unat_word_ariths unat_of_nat mult.commute)
  moreover have "even (push_bit 1 (of_nat i) :: u32)" by (simp add: push_bit_eq_mult)
  ultimately show ?thesis by (simp add: or_one_eq)
qed

lemma link_id: "i < 2 ^ 31 \<Longrightarrow> unat (drop_bit 1 (push_bit 1 (of_nat i) OR 1 :: u32)) = i"
  unfolding drop_bit_eq_div unat_div_distrib using link_unat [of i] by simp

lemma link_valid: "i < 2 ^ 31 - 1 \<Longrightarrow> push_bit 1 (of_nat i) OR 1 \<noteq> SPA_ID_INVALID"
proof
  assume "i < 2 ^ 31 - 1" "push_bit 1 (of_nat i) OR 1 = SPA_ID_INVALID"
  hence "2 * i + 1 = unat SPA_ID_INVALID" using link_unat [of i] by simp
  thus False using \<open>i < 2 ^ 31 - 1\<close> by simp
qed

lemma link_odd: "odd (push_bit 1 x OR 1 :: u32)"
  by (simp add: or_one_eq push_bit_eq_mult)

lemma item_free_odd: "pw_map_item_is_free x \<longleftrightarrow> odd x"
  by (simp add: pw_map_item_is_free_def and_one_eq odd_iff_mod_2_eq_one)

lemma odd_ucast: "odd (ucast (x :: u32) :: u64) \<longleftrightarrow> odd x"
  by (simp add: bit_simps flip: bit_0)

lemma chain_cong: "(\<And>i. i \<in> set is \<Longrightarrow> d i = d' i) \<Longrightarrow> chain d f is = chain d' f is"
  by (induction "is" arbitrary: f) auto

lemma chain_head: "chain d f (i # is) \<Longrightarrow> odd (d i)"
  by (metis chain.simps(2) odd_ucast)

lemma chain_odd: "chain d f is \<Longrightarrow> i \<in> set is \<Longrightarrow> odd (d i)"
proof (induction "is" arbitrary: f)
  case (Cons a "is")
  show ?case
  proof (cases "i = a")
    case True
    thus ?thesis using chain_head Cons.prems(1) by blast
  next
    case False
    thus ?thesis using Cons by auto
  qed
qed simp

lemma chain_link_odd: "chain d f is \<Longrightarrow> odd f"
  by (cases "is") (simp, metis chain.simps(2) link_odd)

lemma chain_valid: "chain d f (i # is) \<Longrightarrow> i < 2 ^ 31 - 1 \<Longrightarrow> f \<noteq> SPA_ID_INVALID \<and> unat (drop_bit 1 f) = i"
  using link_valid [of i] link_id [of i] by auto

section \<open>The operations refine the table\<close>

lemma map_rel_len: "map_rel m t \<Longrightarrow> unat (pw_map_get_size m) = n_ids t"
  by (simp add: map_rel_def pw_map_get_size_def pw_array_get_len_def unat_div_distrib)

lemma map_rel_check: "map_rel m t \<Longrightarrow> pw_map_check_id m id' \<longleftrightarrow> unat id' < n_ids t"
  by (simp add: pw_map_check_id_def word_less_unat map_rel_len unat_ucast_32_64)

lemma map_rel_free:
  assumes "map_rel m t" "i < n_ids t"
  shows "odd (arr_data (items m) i) \<longleftrightarrow> entries t i = None"
proof (cases "i \<in> set (free_ids t)")
  case True
  thus ?thesis using assms chain_odd by (fastforce simp: map_rel_def table_ok_def)
next
  case False
  hence "i \<in> dom (entries t)" using assms by (simp add: map_rel_def table_ok_def)
  then obtain v where "entries t i = Some v" by blast
  thus ?thesis using assms(1) by (auto simp: map_rel_def)
qed

lemma entries_None: "map_rel m t \<Longrightarrow> n_ids t \<le> i \<Longrightarrow> entries t i = None"
  by (metis (no_types, lifting) DiffD1 domIff lessThan_iff linorder_not_le map_rel_def table_ok_def)

lemma lookup_refines:
  assumes "map_rel m t"
  shows "pw_map_lookup m id' = (case entries t (unat id') of None \<Rightarrow> 0 | Some v \<Rightarrow> v)"
proof (cases "unat id' < n_ids t")
  case True
  thus ?thesis using map_rel_free [OF assms True] assms
    by (auto simp: pw_map_lookup_def map_rel_check [OF assms] pw_map_get_item_def item_free_odd map_rel_def Let_def
        split: option.splits)
next
  case False
  thus ?thesis using entries_None [OF assms] by (simp add: pw_map_lookup_def map_rel_check [OF assms])
qed

lemma remove_refines:
  assumes "map_rel m t" "unat id' < n_ids t"
  shows "map_rel (pw_map_remove m id') (table_remove t (unat id'))"
proof (cases "entries t (unat id')")
  case None
  hence "pw_map_id_is_free m id'"
    using map_rel_free [OF assms] by (simp add: pw_map_id_is_free_def item_free_odd pw_map_get_item_def)
  thus ?thesis using None assms(1) by (simp add: pw_map_remove_def table_remove_def)
next
  case (Some v)
  hence e: "\<not> pw_map_id_is_free m id'"
    using map_rel_free [OF assms] by (simp add: pw_map_id_is_free_def item_free_odd pw_map_get_item_def)
  have c: "chain (arr_data (items m)) (free_list m) (free_ids t)" and ok: "table_ok t"
    using assms(1) by (auto simp: map_rel_def)
  have n: "unat id' \<notin> set (free_ids t)" using ok Some by (auto simp: table_ok_def)
  have "chain ((arr_data (items m))(unat id' := ucast (free_list m))) (free_list m) (free_ids t)"
    using c n chain_cong [of "free_ids t" "arr_data (items m)" "(arr_data (items m))(unat id' := ucast (free_list m))"]
    by (metis fun_upd_other)
  moreover have "table_ok (table_remove t (unat id'))"
    using ok Some n by (auto simp: table_ok_def table_remove_def)
  ultimately show ?thesis using assms(1) Some e chain_link_odd [OF c]
    by (auto simp: map_rel_def pw_map_remove_def table_remove_def set_item_def set_cell_def)
qed

lemma array_add_8:
  assumes "pw_array_add ok arr 8 = Inr (arr', p)"
  shows "p = arr_size arr" "unat (arr_size arr') = unat (arr_size arr) + 8" "arr_data arr' = arr_data arr"
    "arr_extend arr' = arr_extend arr"
  using assms
  by (auto simp: pw_array_add_def pw_array_ensure_size_def spa_overflow_add_def Let_def unat_plus_64
      split: option.splits sum.splits if_splits)

lemma append_refines:
  assumes "map_rel m t" "even v" "n_ids t + 1 < 2 ^ 31" "pw_array_add ok (items m) 8 = Inr (arr, p)"
  shows "map_rel (set_item (m\<lparr>items := arr\<rparr>) (unat (p div 8)) v)
      (t\<lparr>entries := (entries t)(n_ids t \<mapsto> v), n_ids := n_ids t + 1\<rparr>)" "unat (p div 8) = n_ids t"
proof -
  have ok: "table_ok t" and c: "chain (arr_data (items m)) (free_list m) (free_ids t)" and
    s: "unat (arr_size (items m)) = 8 * n_ids t" using assms(1) by (auto simp: map_rel_def)
  note a = array_add_8 [OF assms(4)]
  show p: "unat (p div 8) = n_ids t" using s by (simp add: a(1) unat_div_distrib)
  have "n_ids t \<notin> set (free_ids t)" using ok by (auto simp: table_ok_def)
  hence "chain ((arr_data (items m))(n_ids t := v)) (free_list m) (free_ids t)"
    using c chain_cong [of "free_ids t" "arr_data (items m)" "(arr_data (items m))(n_ids t := v)"] by (metis fun_upd_other)
  moreover have "table_ok (t\<lparr>entries := (entries t)(n_ids t \<mapsto> v), n_ids := n_ids t + 1\<rparr>)"
    using ok assms(3) \<open>n_ids t \<notin> set (free_ids t)\<close> by (auto simp: table_ok_def)
  ultimately show "map_rel (set_item (m\<lparr>items := arr\<rparr>) (unat (p div 8)) v)
      (t\<lparr>entries := (entries t)(n_ids t \<mapsto> v), n_ids := n_ids t + 1\<rparr>)"
    using assms(1,2) p a s by (auto simp: map_rel_def set_item_def set_cell_def)
qed

lemma reuse_refines:
  assumes "map_rel m t" "even v" "free_ids t = i # is"
  shows "map_rel (set_item (m\<lparr>free_list := ucast (arr_data (items m) i)\<rparr>) i v)
      (t\<lparr>entries := (entries t)(i \<mapsto> v), free_ids := is\<rparr>)"
proof -
  have ok: "table_ok t" and c: "chain (arr_data (items m)) (free_list m) (i # is)"
    using assms(1,3) by (auto simp: map_rel_def)
  have "i \<notin> set is" "i < n_ids t" using ok assms(3) by (auto simp: table_ok_def)
  hence "chain ((arr_data (items m))(i := v)) (ucast (arr_data (items m) i)) is"
    using c chain_cong [of "is" "arr_data (items m)" "(arr_data (items m))(i := v)"]
    by (metis chain.simps(2) fun_upd_other)
  moreover have "table_ok (t\<lparr>entries := (entries t)(i \<mapsto> v), free_ids := is\<rparr>)"
    using ok assms(3) \<open>i \<notin> set is\<close> by (auto simp: table_ok_def)
  ultimately show ?thesis
    using assms by (auto simp: map_rel_def set_item_def set_cell_def)
qed

lemma ucast_offset: "unat (p div 8) < 2 ^ 32 \<Longrightarrow> unat (ucast (p div 8) :: u32) = unat (p div 8)" for p :: u64
  by (simp add: unsigned_ucast_eq take_bit_eq_mod)

lemma insert_refines:
  assumes "map_rel m t" "even v" "n_ids t + 1 < 2 ^ 31" "pw_map_insert_new ok m v = (m', id')"
  shows "if id' = SPA_ID_INVALID then m' = m \<and> free_ids t = []
    else map_rel m' (fst (table_insert t v)) \<and> unat id' = snd (table_insert t v)"
proof (cases "free_ids t")
  case (Cons i "is")
  have "i < 2 ^ 31 - 1" using assms(1,3) Cons by (auto simp: map_rel_def table_ok_def)
  moreover have "chain (arr_data (items m)) (free_list m) (i # is)" using assms(1) Cons by (simp add: map_rel_def)
  ultimately have f: "free_list m \<noteq> SPA_ID_INVALID \<and> unat (drop_bit 1 (free_list m)) = i" using chain_valid by blast
  hence m': "m' = set_item (m\<lparr>free_list := ucast (arr_data (items m) i)\<rparr>) i v" "id' = of_nat i"
    using assms(4) by (simp_all add: pw_map_insert_new_def Let_def)
  have u: "unat (of_nat i :: u32) = i" using \<open>i < 2 ^ 31 - 1\<close> by (simp add: unat_of_nat_32)
  hence "id' \<noteq> SPA_ID_INVALID" using \<open>i < 2 ^ 31 - 1\<close> m'(2) by auto
  thus ?thesis using reuse_refines [OF assms(1,2) Cons] Cons u by (simp add: m' table_insert_def)
next
  case Nil
  hence f: "free_list m = SPA_ID_INVALID" using assms(1) by (simp add: map_rel_def)
  show ?thesis
  proof (cases "pw_array_add ok (items m) 8")
    case (Inl e)
    thus ?thesis using assms(4) f Nil by (auto simp: pw_map_insert_new_def)
  next
    case (Inr r)
    obtain arr p where r: "r = (arr, p)" by fastforce
    have m': "m' = set_item (m\<lparr>items := arr\<rparr>) (unat (p div 8)) v" "id' = ucast (p div 8)"
      using assms(4) f Inr by (simp_all add: pw_map_insert_new_def r)
    note a = append_refines [OF assms(1-3) Inr [unfolded r]]
    have u: "unat id' = n_ids t" using a(2) assms(3) by (simp add: m' ucast_offset)
    hence "id' \<noteq> SPA_ID_INVALID" using assms(3) by auto
    thus ?thesis using a(1) Nil u by (simp add: m' table_insert_def)
  qed
qed

lemma insert_at_refines:
  assumes "map_rel m t" "even v" "n_ids t + 1 < 2 ^ 31"
  shows "case pw_map_insert_at ok m id' v of
      Inl e \<Rightarrow> n_ids t < unat id' \<and> e = ENOSPC \<or> n_ids t = unat id' \<or>
        unat id' < n_ids t \<and> entries t (unat id') = None \<and> e = EINVAL
    | Inr m' \<Rightarrow> unat id' = n_ids t \<and>
          map_rel m' (t\<lparr>entries := (entries t)(unat id' \<mapsto> v), n_ids := n_ids t + 1\<rparr>) \<or>
        entries t (unat id') \<noteq> None \<and> map_rel m' (t\<lparr>entries := (entries t)(unat id' \<mapsto> v)\<rparr>)"
proof -
  note len = map_rel_len [OF assms(1)]
  consider "unat id' > n_ids t" | "unat id' = n_ids t" | "unat id' < n_ids t" by linarith
  thus ?thesis
  proof cases
    case 1
    thus ?thesis by (simp add: pw_map_insert_at_def word_less_unat len)
  next
    case 2
    hence w: "ucast id' = pw_map_get_size m" by (simp add: word_eq_unat len)
    show ?thesis
    proof (cases "pw_array_add ok (items m) 8")
      case (Inl e)
      thus ?thesis using 2 w by (simp add: pw_map_insert_at_def)
    next
      case (Inr r)
      obtain arr p where r: "r = (arr, p)" by fastforce
      from append_refines [OF assms Inr [unfolded r]] show ?thesis
        using 2 w Inr by (simp add: pw_map_insert_at_def r)
    qed
  next
    case 3
    hence n: "\<not> ucast id' > pw_map_get_size m" "ucast id' \<noteq> pw_map_get_size m"
      by (simp_all add: word_less_unat word_eq_unat len)
    show ?thesis
    proof (cases "entries t (unat id')")
      case None
      thus ?thesis using 3 n map_rel_free [OF assms(1) 3]
        by (simp add: pw_map_insert_at_def item_free_odd pw_map_get_item_def)
    next
      case (Some u)
      have f: "unat id' \<notin> set (free_ids t)" using assms(1) Some by (auto simp: map_rel_def table_ok_def)
      have "chain ((arr_data (items m))(unat id' := v)) (free_list m) (free_ids t)"
        using assms(1) f chain_cong [of "free_ids t" "arr_data (items m)" "(arr_data (items m))(unat id' := v)"]
        by (metis fun_upd_other map_rel_def)
      hence "map_rel (set_item m (unat id') v) (t\<lparr>entries := (entries t)(unat id' \<mapsto> v)\<rparr>)"
        using assms(1,2) Some 3 f by (auto simp: map_rel_def table_ok_def set_item_def set_cell_def)
      thus ?thesis using Some n map_rel_free [OF assms(1) 3]
        by (simp add: pw_map_insert_at_def item_free_odd pw_map_get_item_def)
    qed
  qed
qed

text \<open>A visit of all pointers is a visit of the entries in the order of their ids.\<close>

lemma for_each_items_filter:
  "for_each_items func xs s = for_each_items func (filter even xs) s"
  by (induction xs arbitrary: s) (auto simp: item_free_odd split: prod.split)

lemma for_each_refines:
  assumes "map_rel m t"
  shows "pw_map_for_each m func s =
    for_each_items func (map (\<lambda>i. the (entries t i)) (filter (\<lambda>i. entries t i \<noteq> None) [0..<n_ids t])) s"
proof -
  have f: "filter even (map (arr_data (items m)) xs) =
      map (\<lambda>i. the (entries t i)) (filter (\<lambda>i. entries t i \<noteq> None) xs)" if "set xs \<subseteq> {..<n_ids t}" for xs
    using that
  proof (induction xs)
    case (Cons i xs)
    hence i: "i < n_ids t" by simp
    show ?case
    proof (cases "entries t i")
      case None
      thus ?thesis using Cons map_rel_free [OF assms i] by simp
    next
      case (Some v)
      hence "arr_data (items m) i = v \<and> even v" using assms by (simp add: map_rel_def)
      thus ?thesis using Cons Some by simp
    qed
  qed simp
  have e: "filter even (map (arr_data (items m)) [0..<n_ids t]) =
      map (\<lambda>i. the (entries t i)) (filter (\<lambda>i. entries t i \<noteq> None) [0..<n_ids t])" by (rule f) auto
  show ?thesis
    unfolding pw_map_for_each_def map_rel_len [OF assms] by (subst for_each_items_filter) (simp only: e)
qed

section \<open>The interface of id tables\<close>

locale id_table =
  fixes rel :: "'m \<Rightarrow> table \<Rightarrow> bool"
    and add :: "bool \<Rightarrow> 'm \<Rightarrow> u64 \<Rightarrow> 'm \<times> u32"
    and del :: "'m \<Rightarrow> u32 \<Rightarrow> 'm"
    and get :: "'m \<Rightarrow> u32 \<Rightarrow> u64"
  assumes rel_ok: "rel m t \<Longrightarrow> table_ok t"
    and add_law: "rel m t \<Longrightarrow> even v \<Longrightarrow> n_ids t + 1 < 2 ^ 31 \<Longrightarrow> add ok m v = (m', i) \<Longrightarrow>
      if i = SPA_ID_INVALID then m' = m \<and> free_ids t = []
      else rel m' (fst (table_insert t v)) \<and> unat i = snd (table_insert t v)"
    and del_law: "rel m t \<Longrightarrow> unat i < n_ids t \<Longrightarrow> rel (del m i) (table_remove t (unat i))"
    and get_law: "rel m t \<Longrightarrow> get m i = (case entries t (unat i) of None \<Rightarrow> 0 | Some v \<Rightarrow> v)"
begin

lemma table_insert_fresh: "rel m t \<Longrightarrow> table_insert t v = (t', i) \<Longrightarrow> entries t i = None \<and> entries t' = (entries t)(i \<mapsto> v)"
  using rel_ok [of m t] by (fastforce simp: table_ok_def table_insert_def split: list.splits)

lemma add_get:
  assumes "rel m t" "even v" "n_ids t + 1 < 2 ^ 31" "add ok m v = (m', i)" "i \<noteq> SPA_ID_INVALID"
  shows "entries t (unat i) = None" "get m' i = v" "j \<noteq> i \<Longrightarrow> get m' j = get m j"
proof -
  obtain t' k where k: "table_insert t v = (t', k)" by fastforce
  have r: "rel m' t'" "unat i = k" using add_law [OF assms(1-4)] assms(5) k by auto
  note f = table_insert_fresh [OF assms(1) k]
  show "entries t (unat i) = None" "get m' i = v" using f r get_law [OF r(1)] by simp_all
  show "get m' j = get m j" if "j \<noteq> i"
    using that f r get_law [OF r(1), of j] get_law [OF assms(1), of j] by (auto simp: word_eq_unat)
qed

lemma del_get:
  assumes "rel m t" "unat i < n_ids t"
  shows "get (del m i) i = 0" "j \<noteq> i \<Longrightarrow> get (del m i) j = get m j"
  using get_law [OF del_law [OF assms]] get_law [OF assms(1)]
  by (auto simp: table_remove_def word_eq_unat)

text \<open>The id that was freed last is the next one handed out.\<close>

lemma del_add_reuses:
  assumes "rel m t" "unat i < n_ids t" "entries t (unat i) \<noteq> None" "even v" "n_ids t + 1 < 2 ^ 31"
    "add ok (del m i) v = (m', j)"
  shows "j = i"
proof -
  let ?t = "table_remove t (unat i)"
  have "free_ids ?t = unat i # free_ids t" "n_ids ?t = n_ids t" using assms(3) by (simp_all add: table_remove_def)
  thus ?thesis using add_law [OF del_law [OF assms(1,2)] assms(4) _ assms(6)] assms(5)
    by (auto simp: table_insert_def word_eq_unat split: if_splits)
qed

end

interpretation pm: id_table map_rel pw_map_insert_new pw_map_remove pw_map_lookup
proof unfold_locales
  fix m t assume "map_rel m t"
  thus "table_ok t" by (simp add: map_rel_def)
qed (fact insert_refines remove_refines lookup_refines)+

section \<open>Properties\<close>

definition cells :: "pw_array \<Rightarrow> u64 list" where
  "cells arr = map (arr_data arr) [0..<unat (pw_array_get_len arr)]"

lemma round_up_unat:
  assumes "0 < unat v" "unat x + unat v \<le> 2 ^ 64"
  shows "unat (SPA_ROUND_UP x v) = ((unat x + unat v - 1) div unat v) * unat v"
proof -
  have "unat (x + v - 1) = unat x + unat v - 1"
  proof (cases "unat x + unat v = 2 ^ 64")
    case True
    hence "x + v = 0" by (simp add: word_eq_unat unat_word_ariths)
    thus ?thesis using True by (simp add: unsigned_minus_1_eq_mask mask_eq_exp_minus_1)
  next
    case False
    hence "unat (x + v) = unat x + unat v" using assms by (simp add: unat_plus_64)
    moreover have "1 \<le> x + v" using calculation assms(1) by (simp add: word_le_unat)
    ultimately show ?thesis by (simp add: unat_minus_no_wrap)
  qed
  moreover have "((unat x + unat v - 1) div unat v) * unat v < 2 ^ 64"
    using assms div_times_less_eq_dividend [of "unat x + unat v - 1" "unat v"] by linarith
  ultimately show ?thesis by (simp add: SPA_ROUND_UP_def unat_word_ariths unat_div_distrib mod_mult_left_eq)
qed

lemma round_up_bounds: "0 < v \<Longrightarrow> x \<le> ((x + v - 1) div v) * v" for x v :: nat
  using div_mod_decomp [of "x + v - 1" v] mod_less_divisor [of v "x + v - 1"] by linarith

lemma round_up_wraps:
  assumes "2 ^ 64 < unat x + unat v"
  shows "SPA_ROUND_UP x v = 0"
proof -
  have "unat (x + v) = unat x + unat v - 2 ^ 64"
    using assms unat_lt_64 [of x] unat_lt_64 [of v] by (simp add: unat_word_ariths mod_if)
  moreover have "1 \<le> x + v" using calculation assms by (simp add: word_le_unat)
  ultimately have "unat (x + v - 1) < unat v" using unat_lt_64 [of x] assms by (simp add: unat_minus_no_wrap)
  hence "(x + v - 1) div v = 0" by (simp add: word_eq_unat unat_div_distrib)
  thus ?thesis by (simp add: SPA_ROUND_UP_def)
qed

text \<open>
  C24: the operations of a map implement the abstract table: insertion of a pointer gives it the id
  freed last, or the next new one, or fails without effect; removal frees the id of an entry;
  lookup returns the entry, and \<^verbatim>\<open>NULL\<close> for every other id, in range or not; insertion at an id
  replaces an entry or appends, and is refused for a free id or one beyond the end; a traversal
  visits the entries in the order of their ids.
\<close>

theorem pw_map_refines_table:
  assumes "map_rel m t" "even v" "n_ids t + 1 < 2 ^ 31"
  shows "(case pw_map_insert_new ok m v of (m', i) \<Rightarrow>
        if i = SPA_ID_INVALID then m' = m \<and> free_ids t = []
        else map_rel m' (fst (table_insert t v)) \<and> unat i = snd (table_insert t v)) \<and>
    (unat k < n_ids t \<longrightarrow> map_rel (pw_map_remove m k) (table_remove t (unat k))) \<and>
    pw_map_lookup m k = (case entries t (unat k) of None \<Rightarrow> 0 | Some u \<Rightarrow> u) \<and>
    (case pw_map_insert_at ok m k v of
        Inl e \<Rightarrow> n_ids t < unat k \<and> e = ENOSPC \<or> n_ids t = unat k \<or>
          unat k < n_ids t \<and> entries t (unat k) = None \<and> e = EINVAL
      | Inr m' \<Rightarrow> unat k = n_ids t \<and>
            map_rel m' (t\<lparr>entries := (entries t)(unat k \<mapsto> v), n_ids := n_ids t + 1\<rparr>) \<or>
          entries t (unat k) \<noteq> None \<and> map_rel m' (t\<lparr>entries := (entries t)(unat k \<mapsto> v)\<rparr>)) \<and>
    pw_map_for_each m func s =
      for_each_items func (map (\<lambda>i. the (entries t i)) (filter (\<lambda>i. entries t i \<noteq> None) [0..<n_ids t])) s"
  using insert_refines [OF assms] remove_refines [OF assms(1), of k] lookup_refines [OF assms(1), of k]
    insert_at_refines [OF assms, where ok = ok and id' = k] for_each_refines [OF assms(1), of func s]
  by (auto split: prod.split)

definition demo_map :: pw_map where
  "demo_map = fst (pw_map_insert_new True (pw_map_init True 4 4 (\<lambda>_. 7)) 0x1000)"

definition demo_table :: table where
  "demo_table = \<lparr>entries = [0 \<mapsto> 0x1000], free_ids = [], n_ids = 1\<rparr>"

lemma demo_map_rel: "map_rel demo_map demo_table"
  by (auto simp: map_rel_def demo_map_def demo_table_def table_ok_def pw_map_insert_new_def pw_map_init_def
      pw_array_init_def pw_array_ensure_size_def pw_array_add_def spa_overflow_add_def SPA_ROUND_UP_def Let_def
      set_item_def set_cell_def split: if_splits)

theorem pw_map_refines_table_witness:
  "map_rel (pw_map_remove demo_map 0) \<lparr>entries = Map.empty, free_ids = [0], n_ids = 1\<rparr>"
  using pw_map_refines_table [OF demo_map_rel, of 0 True 0 "\<lambda>_ s. (0, s)" "()"]
  by (simp add: demo_table_def table_remove_def)

text \<open>
  C25: what the clients of a map rely on: an inserted pointer is found under its id, that id was not
  in use, the other ids keep their pointers; a removed id is not found any more.
\<close>

theorem pw_map_insert_remove_lookup:
  assumes "map_rel m t" "even v" "n_ids t + 1 < 2 ^ 31" "pw_map_insert_new ok m v = (m', i)" "i \<noteq> SPA_ID_INVALID"
    "unat k < n_ids t"
  shows "entries t (unat i) = None \<and> pw_map_lookup m' i = v \<and> (\<forall>j. j \<noteq> i \<longrightarrow> pw_map_lookup m' j = pw_map_lookup m j) \<and>
    pw_map_lookup (pw_map_remove m k) k = 0 \<and> (\<forall>j. j \<noteq> k \<longrightarrow> pw_map_lookup (pw_map_remove m k) j = pw_map_lookup m j)"
  using pm.add_get [OF assms(1-5)] pm.del_get [OF assms(1,6)] by blast

theorem pw_map_insert_remove_lookup_witness:
  "pw_map_lookup (fst (pw_map_insert_new True demo_map 0x2000)) 1 = 0x2000 \<and>
   pw_map_lookup (fst (pw_map_insert_new True demo_map 0x2000)) 0 = pw_map_lookup demo_map 0"
proof -
  have "snd (pw_map_insert_new True demo_map 0x2000) = 1"
    by (simp add: demo_map_def pw_map_insert_new_def pw_map_init_def
      pw_array_init_def pw_array_ensure_size_def pw_array_add_def spa_overflow_add_def SPA_ROUND_UP_def Let_def
      set_item_def set_cell_def)
  hence "pw_map_insert_new True demo_map 0x2000 = (fst (pw_map_insert_new True demo_map 0x2000), 1)"
    by (metis prod.collapse)
  from pw_map_insert_remove_lookup [OF demo_map_rel _ _ this, of 0] show ?thesis by (simp add: demo_table_def)
qed

text \<open>
  C26: growing an array: when the request and one extension step fit in the address space the
  allocation covers the request and is a multiple of the step, and cells and size are kept; a
  request so large that rounding it up wraps around gives an allocation of 0 bytes.
\<close>

theorem array_ensure_size_exact:
  assumes "pw_array_ensure_size ok arr sz = Inr arr'"
  shows "arr_size arr' = arr_size arr \<and> arr_data arr' = arr_data arr \<and>
    (if unat (arr_size arr) + unat sz + unat (arr_extend arr) \<le> 2 ^ 64
     then unat (arr_size arr) + unat sz \<le> unat (arr_alloc arr') \<and>
       (arr_alloc arr' = arr_alloc arr \<or> unat (arr_extend arr) dvd unat (arr_alloc arr'))
     else unat (arr_size arr) + unat sz \<le> unat (arr_alloc arr) \<and> arr_alloc arr' = arr_alloc arr \<or> arr_alloc arr' = 0)"
proof -
  obtain need where n: "spa_overflow_add (arr_size arr) sz = Some need"
    using assms by (auto simp: pw_array_ensure_size_def split: option.splits)
  have u: "unat need = unat (arr_size arr) + unat sz" by (rule spa_overflow_add_unat [OF n])
  show ?thesis
  proof (cases "arr_alloc arr < need")
    case False
    thus ?thesis using assms n u by (auto simp: pw_array_ensure_size_def word_less_unat)
  next
    case True
    hence a: "arr' = arr\<lparr>arr_alloc := SPA_ROUND_UP need (arr_extend arr)\<rparr>" "arr_extend arr \<noteq> 0"
      using assms n by (auto simp: pw_array_ensure_size_def Let_def split: if_splits)
    hence v: "0 < unat (arr_extend arr)" by (simp add: unat_gt_0)
    show ?thesis
    proof (cases "unat need + unat (arr_extend arr) \<le> 2 ^ 64")
      case True
      note r = round_up_unat [OF v True]
      show ?thesis using round_up_bounds [OF v, of "unat need"] True r u by (simp add: a)
    next
      case False
      thus ?thesis using round_up_wraps [of need "arr_extend arr"] u by (simp add: a)
    qed
  qed
qed

theorem array_ensure_size_exact_witness:
  "\<exists>arr'. pw_array_ensure_size True (pw_array_init 64 (\<lambda>_. 0)) 8 = Inr arr' \<and> 8 \<le> unat (arr_alloc arr')"
proof -
  obtain arr' where "pw_array_ensure_size True (pw_array_init 64 (\<lambda>_. 0)) 8 = Inr arr'"
    by (auto simp: pw_array_ensure_size_def pw_array_init_def spa_overflow_add_def Let_def)
  with array_ensure_size_exact [OF this] show ?thesis by (simp add: pw_array_init_def)
qed

text \<open>
  As a list of pointers, an array grows at the end by the pointer added, and loses exactly the
  element removed.
\<close>

lemma array_list_operations:
  assumes "unat (arr_size arr) mod 8 = 0"
  shows "(pw_array_add_ptr ok arr p = Inr arr' \<longrightarrow> cells arr' = cells arr @ [p]) \<and>
    (i < length (cells arr) \<longrightarrow> cells (pw_array_remove arr i) = take i (cells arr) @ drop (i + 1) (cells arr))"
proof (intro conjI impI)
  obtain n where n: "unat (arr_size arr) = 8 * n" using assms by auto
  hence l: "unat (pw_array_get_len arr) = n" by (simp add: pw_array_get_len_def unat_div_distrib)
  assume "pw_array_add_ptr ok arr p = Inr arr'"
  then obtain a q where a: "pw_array_add ok arr 8 = Inr (a, q)" "arr' = set_cell a (unat (q div 8)) p"
    by (auto simp: pw_array_add_ptr_def split: sum.splits)
  note s = array_add_8 [OF a(1)]
  have q: "unat (q div 8) = n" using s(1) n by (simp add: unat_div_distrib)
  have "unat (pw_array_get_len arr') = Suc n"
    using s(2) n by (simp add: a(2) set_cell_def pw_array_get_len_def unat_div_distrib)
  thus "cells arr' = cells arr @ [p]" unfolding cells_def l by (simp add: a(2) set_cell_def q s(3))
next
  obtain n where n: "unat (arr_size arr) = 8 * n" using assms by auto
  hence l: "unat (pw_array_get_len arr) = n" by (simp add: pw_array_get_len_def unat_div_distrib)
  assume "i < length (cells arr)"
  hence i: "i < n" by (simp add: cells_def l)
  hence "8 \<le> arr_size arr" using n by (simp add: word_le_unat)
  hence "unat (arr_size arr - 8) = 8 * (n - 1)" using n by (simp add: unat_minus_no_wrap diff_mult_distrib2)
  hence r: "unat (arr_size arr - 8) div 8 = n - 1" by simp
  show "cells (pw_array_remove arr i) = take i (cells arr) @ drop (i + 1) (cells arr)"
    using i by (intro nth_equalityI) (auto simp: cells_def pw_array_remove_def pw_array_get_len_def Let_def r l n nth_append unat_div_distrib)
qed

end
