(* ===== verification/PW_List.thy ===== *)
theory PW_List
  imports PW_Prelude
begin

text \<open>
  The intrusive doubly linked lists of \<^verbatim>\<open>spa/utils/list.h\<close>, on which all object lists of the library are
  built. The store maps addresses of list nodes to their \<^verbatim>\<open>next\<close> and \<^verbatim>\<open>prev\<close> pointers, and every function
  makes the pointer assignments of the code in their order. \<open>list_rel s l xs\<close> says that the nodes of the
  list with head \<open>l\<close> are \<open>xs\<close>; the operations act on \<open>xs\<close> as the list operations of the same names.
  The loops may not end on a broken list, so they are partial functions (\<open>None\<close>).
\<close>

section \<open>Operations\<close>

record spa_store =
  nxt :: "u64 \<Rightarrow> u64"
  prv :: "u64 \<Rightarrow> u64"

definition set_next :: "u64 \<Rightarrow> u64 \<Rightarrow> spa_store \<Rightarrow> spa_store" where
  "set_next p v s = s\<lparr>nxt := (nxt s)(p := v)\<rparr>"

definition set_prev :: "u64 \<Rightarrow> u64 \<Rightarrow> spa_store \<Rightarrow> spa_store" where
  "set_prev p v s = s\<lparr>prv := (prv s)(p := v)\<rparr>"

definition spa_list_init :: "u64 \<Rightarrow> spa_store \<Rightarrow> spa_store" where
  "spa_list_init l s = set_prev l l (set_next l l s)"

definition spa_list_is_initialized :: "u64 \<Rightarrow> spa_store \<Rightarrow> bool" where
  "spa_list_is_initialized l s \<longleftrightarrow> prv s l \<noteq> 0"

definition spa_list_is_empty :: "u64 \<Rightarrow> spa_store \<Rightarrow> bool" where
  "spa_list_is_empty l s \<longleftrightarrow> nxt s l = l"

definition spa_list_insert :: "u64 \<Rightarrow> u64 \<Rightarrow> spa_store \<Rightarrow> spa_store" where
  "spa_list_insert l e s =
     (let s = set_prev e l s;
          s = set_next e (nxt s l) s;
          s = set_next l e s
      in set_prev (nxt s e) e s)"

definition spa_list_insert_list :: "u64 \<Rightarrow> u64 \<Rightarrow> spa_store \<Rightarrow> spa_store" where
  "spa_list_insert_list l other s =
     (if spa_list_is_empty other s then s
      else let s = set_prev (nxt s other) l s;
               s = set_next (prv s other) (nxt s l) s;
               s = set_prev (nxt s l) (prv s other) s
           in set_next l (nxt s other) s)"

definition spa_list_remove :: "u64 \<Rightarrow> spa_store \<Rightarrow> spa_store" where
  "spa_list_remove e s =
     (let s = set_next (prv s e) (nxt s e) s
      in set_prev (nxt s e) (prv s e) s)"

definition spa_list_append :: "u64 \<Rightarrow> u64 \<Rightarrow> spa_store \<Rightarrow> spa_store" where
  "spa_list_append l item s = spa_list_insert (prv s l) item s"

definition spa_list_prepend :: "u64 \<Rightarrow> u64 \<Rightarrow> spa_store \<Rightarrow> spa_store" where
  "spa_list_prepend l item s = spa_list_insert l item s"

definition spa_list_first :: "u64 \<Rightarrow> spa_store \<Rightarrow> u64" where
  "spa_list_first l s = nxt s l"

definition spa_list_last :: "u64 \<Rightarrow> spa_store \<Rightarrow> u64" where
  "spa_list_last l s = prv s l"

text \<open>The nodes the loops visit, for a body that does not change the list.\<close>

partial_function (option) spa_list_for_each_next :: "spa_store \<Rightarrow> u64 \<Rightarrow> u64 \<Rightarrow> u64 list option" where
  "spa_list_for_each_next s head pos =
     (if pos = head then Some [] else Option.bind (spa_list_for_each_next s head (nxt s pos)) (\<lambda>r. Some (pos # r)))"

definition spa_list_for_each :: "spa_store \<Rightarrow> u64 \<Rightarrow> u64 list option" where
  "spa_list_for_each s head = spa_list_for_each_next s head (spa_list_first head s)"

partial_function (option) spa_list_for_each_prev :: "spa_store \<Rightarrow> u64 \<Rightarrow> u64 \<Rightarrow> u64 list option" where
  "spa_list_for_each_prev s head pos =
     (if pos = head then Some [] else Option.bind (spa_list_for_each_prev s head (prv s pos)) (\<lambda>r. Some (pos # r)))"

definition spa_list_for_each_reverse :: "spa_store \<Rightarrow> u64 \<Rightarrow> u64 list option" where
  "spa_list_for_each_reverse s head = spa_list_for_each_prev s head (spa_list_last head s)"

text \<open>\<^verbatim>\<open>spa_list_for_each_safe\<close> with a body that removes the nodes \<open>P\<close> holds of.\<close>

partial_function (option) for_each_safe_next ::
    "(u64 \<Rightarrow> bool) \<Rightarrow> u64 \<Rightarrow> spa_store \<Rightarrow> u64 \<Rightarrow> (spa_store \<times> u64 list) option" where
  "for_each_safe_next P head s pos =
     (let tmp = nxt s pos
      in if pos = head then Some (s, [])
         else let s = (if P pos then spa_list_remove pos s else s)
              in Option.bind (for_each_safe_next P head s tmp) (\<lambda>(s, r). Some (s, pos # r)))"

definition spa_list_for_each_safe :: "(u64 \<Rightarrow> bool) \<Rightarrow> u64 \<Rightarrow> spa_store \<Rightarrow> (spa_store \<times> u64 list) option" where
  "spa_list_for_each_safe P head s = for_each_safe_next P head s (spa_list_first head s)"

text \<open>\<^verbatim>\<open>spa_list_consume\<close> with a body that removes the node it is given.\<close>

partial_function (option) spa_list_consume :: "u64 \<Rightarrow> spa_store \<Rightarrow> (spa_store \<times> u64 list) option" where
  "spa_list_consume head s =
     (if spa_list_is_empty head s then Some (s, [])
      else let pos = spa_list_first head s
           in Option.bind (spa_list_consume head (spa_list_remove pos s)) (\<lambda>(s, r). Some (s, pos # r)))"

section \<open>Segments\<close>

text \<open>From \<open>a\<close> the nodes \<open>xs\<close> lead to \<open>b\<close>, in both directions.\<close>

fun seg :: "spa_store \<Rightarrow> u64 \<Rightarrow> u64 list \<Rightarrow> u64 \<Rightarrow> bool" where
  "seg s a [] b \<longleftrightarrow> nxt s a = b \<and> prv s b = a"
| "seg s a (x # xs) b \<longleftrightarrow> nxt s a = x \<and> prv s x = a \<and> seg s x xs b"

definition list_rel :: "spa_store \<Rightarrow> u64 \<Rightarrow> u64 list \<Rightarrow> bool" where
  "list_rel s l xs \<longleftrightarrow> seg s l xs l \<and> distinct (l # xs)"

lemma seg_append: "seg s a (xs @ y # ys) b \<longleftrightarrow> seg s a xs y \<and> seg s y ys b"
  by (induction xs arbitrary: a) auto

lemma seg_frame:
  assumes "seg s a xs b" "\<And>x. x \<in> insert a (set xs) \<Longrightarrow> nxt s' x = nxt s x"
    "\<And>x. x \<in> insert b (set xs) \<Longrightarrow> prv s' x = prv s x"
  shows "seg s' a xs b"
  using assms by (induction xs arbitrary: a) auto

lemma seg_last: "seg s a xs b \<Longrightarrow> prv s b = last (a # xs)"
  by (induction xs arbitrary: a) auto

lemma seg_first: "seg s a xs b \<Longrightarrow> nxt s a = hd (xs @ [b])"
  by (cases xs) auto

lemma store_simps [simp]:
  "nxt (set_next p v s) = (nxt s)(p := v)" "prv (set_next p v s) = prv s"
  "prv (set_prev p v s) = (prv s)(p := v)" "nxt (set_prev p v s) = nxt s"
  by (simp_all add: set_next_def set_prev_def)

lemma insert_next: "e \<noteq> l \<Longrightarrow> nxt (spa_list_insert l e s) = (nxt s)(e := nxt s l, l := e)"
  and insert_prev: "e \<noteq> l \<Longrightarrow> prv (spa_list_insert l e s) = (prv s)(e := l, nxt s l := e)"
  by (simp_all add: spa_list_insert_def Let_def fun_upd_twist)

lemma remove_next: "nxt (spa_list_remove e s) = (nxt s)(prv s e := nxt s e)"
  and remove_prev: "prv s e \<noteq> e \<Longrightarrow> prv (spa_list_remove e s) = (prv s)(nxt s e := prv s e)"
  by (simp_all add: spa_list_remove_def Let_def)

text \<open>An insertion after \<open>a\<close> and a removal after \<open>a\<close>, in the segment that starts there.\<close>

lemma seg_insert:
  assumes "seg s a xs b" "e \<notin> insert a (insert b (set xs))" "a \<notin> set xs" "distinct xs" "b \<notin> set xs"
  shows "seg (spa_list_insert a e s) a (e # xs) b"
proof (cases xs)
  case Nil
  thus ?thesis using assms by (auto simp: insert_next insert_prev)
next
  case (Cons y ys)
  have "seg (spa_list_insert a e s) y ys b"
    by (rule seg_frame [of s]) (use assms Cons in \<open>auto simp: insert_next insert_prev\<close>)
  thus ?thesis using assms Cons by (auto simp: insert_next insert_prev)
qed

lemma seg_remove:
  assumes "seg s a (e # xs) b" "e \<notin> insert a (insert b (set xs))" "a \<notin> set xs" "distinct xs" "b \<notin> set xs"
  shows "seg (spa_list_remove e s) a xs b"
proof (cases xs)
  case Nil
  thus ?thesis using assms by (auto simp: remove_next remove_prev)
next
  case (Cons y ys)
  have "seg (spa_list_remove e s) y ys b"
    by (rule seg_frame [of s]) (use assms Cons in \<open>auto simp: remove_next remove_prev\<close>)
  thus ?thesis using assms Cons by (auto simp: remove_next remove_prev)
qed

section \<open>Lists of nodes\<close>

text \<open>The list cut at a node \<open>a\<close>, which may be the head.\<close>

lemma list_cut:
  assumes "list_rel s l (us @ a # vs)"
  shows "seg s l us a" "seg s a vs l" "l \<notin> set us" "l \<notin> set vs" "a \<noteq> l" "a \<notin> set us" "a \<notin> set vs"
    "set us \<inter> set vs = {}" "distinct us" "distinct vs"
  using assms by (auto simp: list_rel_def seg_append)

lemma insert_head_rel:
  assumes "list_rel s l xs" "e \<notin> set (l # xs)"
  shows "list_rel (spa_list_insert l e s) l (e # xs)"
  using assms seg_insert [of s l xs l e] by (auto simp: list_rel_def)

lemma insert_node_rel:
  assumes "list_rel s l (us @ a # vs)" "e \<notin> set (l # us @ a # vs)"
  shows "list_rel (spa_list_insert a e s) l (us @ a # e # vs)"
proof -
  note c = list_cut [OF assms(1)]
  have n: "nxt s a = hd (vs @ [l])" by (rule seg_first [OF c(2)])
  hence "nxt s a \<notin> insert a (set us)" using c by (cases vs) auto
  hence "seg (spa_list_insert a e s) l us a"
    using c assms(2) by (intro seg_frame [OF c(1)]) (auto simp: insert_next insert_prev)
  moreover have "seg (spa_list_insert a e s) a (e # vs) l"
    using c assms(2) by (intro seg_insert) auto
  ultimately show ?thesis using assms by (auto simp: list_rel_def seg_append)
qed

lemma append_rel:
  assumes "list_rel s l xs" "e \<notin> set (l # xs)"
  shows "list_rel (spa_list_append l e s) l (xs @ [e])"
proof (cases xs rule: rev_cases)
  case Nil
  hence "prv s l = l" using assms(1) by (simp add: list_rel_def)
  thus ?thesis using insert_head_rel [OF assms] Nil by (simp add: spa_list_append_def)
next
  case (snoc us a)
  hence "prv s l = a" using assms(1) seg_last [of s l xs l] by (simp add: list_rel_def)
  thus ?thesis using insert_node_rel [of s l us a "[]" e] assms snoc by (simp add: spa_list_append_def)
qed

lemma remove_rel:
  assumes "list_rel s l (us @ e # vs)"
  shows "list_rel (spa_list_remove e s) l (us @ vs)"
proof (cases us rule: rev_cases)
  case Nil
  thus ?thesis using assms seg_remove [of s l e vs l] by (auto simp: list_rel_def)
next
  case (snoc us' a)
  hence r: "list_rel s l (us' @ a # e # vs)" using assms by simp
  note c = list_cut [OF r]
  have p: "prv s e = a" "nxt s e = hd (vs @ [l])" using c(2) seg_first [of s e vs l] by auto
  hence "nxt s e \<notin> insert a (set us')" using c by (cases vs) auto
  hence "seg (spa_list_remove e s) l us' a"
    using c p by (intro seg_frame [OF c(1)]) (auto simp: remove_next remove_prev)
  moreover have "seg (spa_list_remove e s) a vs l"
    using c by (intro seg_remove) auto
  ultimately show ?thesis using r snoc by (auto simp: list_rel_def seg_append)
qed

text \<open>A segment whose last node is given another successor.\<close>

lemma seg_retarget:
  assumes "seg s a xs m" "distinct (a # xs)" "nxt s' (last (a # xs)) = b" "prv s' b = last (a # xs)"
    "\<And>x. x \<in> set (a # xs) \<Longrightarrow> x \<noteq> last (a # xs) \<Longrightarrow> nxt s' x = nxt s x"
    "\<And>x. x \<in> set xs \<Longrightarrow> prv s' x = prv s x"
  shows "seg s' a xs b"
  using assms
proof (induction xs arbitrary: a)
  case (Cons x xs)
  have "a \<noteq> last (x # xs)" using Cons.prems(2) by (metis distinct.simps(2) last_in_set list.distinct(1))
  thus ?case using Cons by auto
qed simp

lemma insert_list_rel:
  assumes "list_rel s l xs" "list_rel s m ys" "set (l # xs) \<inter> set (m # ys) = {}"
  shows "list_rel (spa_list_insert_list l m s) l (ys @ xs)"
proof (cases ys)
  case Nil
  hence "spa_list_is_empty m s" using assms(2) by (simp add: list_rel_def spa_list_is_empty_def)
  thus ?thesis using assms(1) Nil by (simp add: spa_list_insert_list_def)
next
  case (Cons y zs)
  let ?s = "spa_list_insert_list l m s" and ?z = "last ys"
  have sx: "seg s l xs l" "distinct (l # xs)" and sy: "seg s m ys m" "distinct (m # ys)"
    using assms(1,2) by (auto simp: list_rel_def)
  have f: "nxt s m = y" "prv s m = ?z" using sy(1) Cons seg_last [of s m ys m] by auto
  have ne: "\<not> spa_list_is_empty m s" using f sy(2) Cons by (auto simp: spa_list_is_empty_def)
  have d: "l \<noteq> m" "l \<notin> set ys" "m \<notin> set xs" "set xs \<inter> set ys = {}" "?z \<in> set ys" "y \<in> set ys" "m \<notin> set ys"
    using assms(3) sy(2) Cons by auto
  have h: "nxt s l = hd (xs @ [l])" by (rule seg_first [OF sx(1)])
  hence hl: "nxt s l \<in> insert l (set xs)" by (cases xs) auto
  have n: "nxt ?s = (nxt s)(?z := nxt s l, l := y)" "prv ?s = (prv s)(y := l, nxt s l := ?z)"
    using ne f d hl by (auto simp: spa_list_insert_list_def Let_def fun_eq_iff)
  have "seg ?s y zs (nxt s l)"
    by (rule seg_retarget [of s y zs m]) (use sy Cons n d hl in auto)
  hence A: "seg ?s l ys (nxt s l)" using Cons n d hl by auto
  show ?thesis
  proof (cases xs)
    case Nil
    thus ?thesis using A h sy(2) d by (simp add: list_rel_def)
  next
    case (Cons x xs')
    have "seg ?s x xs' l"
      by (rule seg_frame [of s]) (use sx Cons n d h in auto)
    thus ?thesis using A h sx(2) sy(2) d Cons by (auto simp: list_rel_def seg_append)
  qed
qed

section \<open>Loops\<close>

lemma for_each_next_seg: "seg s a xs l \<Longrightarrow> l \<notin> set xs \<Longrightarrow> spa_list_for_each_next s l (nxt s a) = Some xs"
  by (induction xs arbitrary: a) (auto simp: spa_list_for_each_next.simps)

lemma seg_snoc: "seg s a (xs @ [x]) b \<longleftrightarrow> seg s a xs x \<and> nxt s x = b \<and> prv s b = x"
  by (simp add: seg_append)

lemma for_each_prev_seg: "seg s l xs b \<Longrightarrow> l \<notin> set xs \<Longrightarrow> spa_list_for_each_prev s l (prv s b) = Some (rev xs)"
  by (induction xs arbitrary: b rule: rev_induct) (auto simp: spa_list_for_each_prev.simps seg_snoc)

lemma for_each_safe_rel:
  assumes "list_rel s l (us @ vs)" "pos = hd (vs @ [l])"
  shows "\<exists>s'. for_each_safe_next P l s pos = Some (s', vs) \<and> list_rel s' l (us @ filter (\<lambda>x. \<not> P x) vs)"
  using assms
proof (induction vs arbitrary: us s pos)
  case Nil
  thus ?case by (subst for_each_safe_next.simps) simp
next
  case (Cons v vs)
  have p: "pos = v" "v \<noteq> l" and n: "nxt s v = hd (vs @ [l])"
    using Cons.prems list_cut(2,5) [OF Cons.prems(1)] seg_first by auto
  show ?case
  proof (cases "P v")
    case True
    have "list_rel (spa_list_remove v s) l (us @ vs)" by (rule remove_rel [OF Cons.prems(1)])
    from Cons.IH [OF this refl] show ?thesis
      using True p n by (subst for_each_safe_next.simps) auto
  next
    case False
    have "list_rel s l ((us @ [v]) @ vs)" using Cons.prems(1) by simp
    from Cons.IH [OF this refl] show ?thesis
      using False p n by (subst for_each_safe_next.simps) auto
  qed
qed

lemma consume_rel:
  "list_rel s l xs \<Longrightarrow> \<exists>s'. spa_list_consume l s = Some (s', xs) \<and> list_rel s' l []"
proof (induction xs arbitrary: s)
  case Nil
  thus ?case by (subst spa_list_consume.simps) (simp add: spa_list_is_empty_def list_rel_def)
next
  case (Cons x xs)
  have "nxt s l = x" "x \<noteq> l" using Cons.prems by (auto simp: list_rel_def)
  moreover have "list_rel (spa_list_remove x s) l xs" using remove_rel [of s l "[]" x xs] Cons.prems by simp
  ultimately show ?case using Cons.IH
    by (subst spa_list_consume.simps) (fastforce simp: spa_list_is_empty_def spa_list_first_def Let_def)
qed

section \<open>Queues of nodes\<close>

locale node_fifo =
  fixes rel :: "'s \<Rightarrow> u64 \<Rightarrow> u64 list \<Rightarrow> bool"
    and push :: "u64 \<Rightarrow> u64 \<Rightarrow> 's \<Rightarrow> 's"
    and drain :: "u64 \<Rightarrow> 's \<Rightarrow> ('s \<times> u64 list) option"
  assumes push_law: "rel s l xs \<Longrightarrow> e \<notin> set (l # xs) \<Longrightarrow> rel (push l e s) l (xs @ [e])"
    and drain_law: "rel s l xs \<Longrightarrow> \<exists>s'. drain l s = Some (s', xs) \<and> rel s' l []"
begin

lemma pushes: "rel s l xs \<Longrightarrow> distinct (l # xs @ es) \<Longrightarrow> rel (fold (push l) es s) l (xs @ es)"
proof (induction es arbitrary: s xs)
  case (Cons e es)
  have "rel (push l e s) l (xs @ [e])" using Cons.prems by (intro push_law) auto
  from Cons.IH [OF this] show ?case using Cons.prems(2) by simp
qed simp

lemma drain_in_order: "rel s l [] \<Longrightarrow> distinct (l # es) \<Longrightarrow> \<exists>s'. drain l (fold (push l) es s) = Some (s', es) \<and> rel s' l []"
  using pushes [of s l "[]" es] by (auto intro: drain_law)

end

interpretation nf: node_fifo list_rel spa_list_append spa_list_consume
  by unfold_locales (fact append_rel consume_rel)+

section \<open>Disjoint lists\<close>

lemma seg_edges: "seg s a xs b \<Longrightarrow> x \<in> set (a # xs) \<Longrightarrow> nxt s x \<in> set (b # xs)"
  by (induction xs arbitrary: a) auto

lemma seg_edges_prev: "seg s a xs b \<Longrightarrow> x \<in> set (b # xs) \<Longrightarrow> prv s x \<in> set (a # xs)"
  by (induction xs arbitrary: a) auto

lemma frame_rel:
  assumes "list_rel s k zs" "\<And>x. x \<in> set (k # zs) \<Longrightarrow> nxt s' x = nxt s x \<and> prv s' x = prv s x"
  shows "list_rel s' k zs"
  using assms by (auto simp: list_rel_def intro!: seg_frame [of s k zs k s'])

lemma insert_frame:
  assumes "list_rel s l xs" "a \<in> set (l # xs)" "e \<noteq> a" "x \<notin> set (e # l # xs)"
  shows "nxt (spa_list_insert a e s) x = nxt s x \<and> prv (spa_list_insert a e s) x = prv s x"
  using assms seg_edges [of s l xs l a] by (auto simp: list_rel_def insert_next insert_prev)

lemma remove_frame:
  assumes "list_rel s l xs" "e \<in> set xs" "x \<notin> set (l # xs)"
  shows "nxt (spa_list_remove e s) x = nxt s x \<and> prv (spa_list_remove e s) x = prv s x"
proof -
  have i: "nxt s e \<in> set (l # xs)" "prv s e \<in> set (l # xs)"
    using assms seg_edges [of s l xs l e] seg_edges_prev [of s l xs l e] by (auto simp: list_rel_def)
  have "prv s e \<noteq> e"
  proof -
    obtain us vs where xs: "xs = us @ e # vs" using assms(2) by (meson split_list)
    hence "seg s l us e" "e \<notin> set (l # us)" using assms(1) by (auto simp: list_rel_def seg_append)
    thus ?thesis using seg_edges_prev [of s l us e e] by (auto dest: seg_last)
  qed
  thus ?thesis using i assms(3) by (auto simp: remove_next remove_prev)
qed

section \<open>Properties\<close>

definition demo_store :: spa_store where
  "demo_store = spa_list_append 1 3 (spa_list_append 1 2 (spa_list_init 1 (spa_list_init 9 \<lparr>nxt = (\<lambda>_. 0), prv = (\<lambda>_. 0)\<rparr>)))"

lemma init_rel: "list_rel (spa_list_init l s) l []"
  by (simp add: list_rel_def spa_list_init_def)

lemma demo_store_rel: "list_rel demo_store 1 [2, 3]" "list_rel demo_store 9 []"
  by (simp_all add: demo_store_def list_rel_def spa_list_append_def spa_list_insert_def spa_list_init_def Let_def)

text \<open>
  C27: the pointer operations act on the sequence of nodes of a well-formed list as the list
  operations they are named after: appending, prepending, inserting after any node, removing any
  node, splicing in the nodes of another list, and the test for emptiness.
\<close>

theorem list_operations_refine:
  assumes "list_rel s l xs" "e \<notin> set (l # xs)"
  shows "list_rel (spa_list_append l e s) l (xs @ [e]) \<and> list_rel (spa_list_prepend l e s) l (e # xs) \<and>
    (\<forall>us a vs. xs = us @ a # vs \<longrightarrow> list_rel (spa_list_insert a e s) l (us @ a # e # vs) \<and>
       list_rel (spa_list_remove a s) l (us @ vs)) \<and>
    (\<forall>m ys. list_rel s m ys \<and> set (l # xs) \<inter> set (m # ys) = {} \<longrightarrow>
       list_rel (spa_list_insert_list l m s) l (ys @ xs)) \<and>
    (spa_list_is_empty l s \<longleftrightarrow> xs = [])"
proof (intro conjI allI impI)
  show "list_rel (spa_list_append l e s) l (xs @ [e])" by (rule append_rel [OF assms])
  show "list_rel (spa_list_prepend l e s) l (e # xs)"
    unfolding spa_list_prepend_def by (rule insert_head_rel [OF assms])
  show "list_rel (spa_list_insert a e s) l (us @ a # e # vs)" if "xs = us @ a # vs" for us a vs
    using insert_node_rel assms that by simp
  show "list_rel (spa_list_remove a s) l (us @ vs)" if "xs = us @ a # vs" for us a vs
    using remove_rel assms that by simp
  show "list_rel (spa_list_insert_list l m s) l (ys @ xs)"
    if "list_rel s m ys \<and> set (l # xs) \<inter> set (m # ys) = {}" for m ys
    using insert_list_rel assms(1) that by blast
  show "spa_list_is_empty l s \<longleftrightarrow> xs = []"
    using assms(1) by (cases xs) (auto simp: list_rel_def spa_list_is_empty_def)
qed

theorem list_operations_refine_witness:
  "list_rel (spa_list_remove 2 demo_store) 1 [3] \<and> list_rel (spa_list_append 1 4 demo_store) 1 [2, 3, 4] \<and>
   list_rel (spa_list_insert 2 4 demo_store) 1 [2, 4, 3]"
  using list_operations_refine [OF demo_store_rel(1), of 4] by fastforce

text \<open>
  C28: the loops end on every well-formed list: the forward and backward loops visit each node
  once in order; the safe loop visits every node although its body removes some of them, and
  exactly the others remain; the consuming loop visits every node and leaves the list empty.
\<close>

theorem list_loops_visit_all:
  assumes "list_rel s l xs"
  shows "spa_list_for_each s l = Some xs \<and> spa_list_for_each_reverse s l = Some (rev xs) \<and>
    (\<exists>s'. spa_list_for_each_safe P l s = Some (s', xs) \<and> list_rel s' l (filter (\<lambda>x. \<not> P x) xs)) \<and>
    (\<exists>s'. spa_list_consume l s = Some (s', xs) \<and> list_rel s' l [])"
  using for_each_next_seg [of s l xs l] for_each_prev_seg [of s l xs l] for_each_safe_rel [of s l "[]" xs _ P]
    consume_rel [OF assms] assms seg_first [of s l xs l]
  by (simp add: list_rel_def spa_list_for_each_def spa_list_for_each_reverse_def spa_list_for_each_safe_def
      spa_list_first_def spa_list_last_def)

theorem list_loops_visit_all_witness:
  "spa_list_for_each demo_store 1 = Some [2, 3] \<and> spa_list_for_each_reverse demo_store 1 = Some [3, 2]"
  using list_loops_visit_all [OF demo_store_rel(1)] by simp

text \<open>
  C29: operations on one list leave every list with other nodes as it is, and a list used as a
  queue gives its nodes back in the order they were appended.
\<close>

theorem list_separation_and_order:
  assumes "list_rel s l xs" "list_rel s k zs" "set (e # l # xs) \<inter> set (k # zs) = {}" "e \<notin> set (l # xs)"
  shows "list_rel (spa_list_append l e s) k zs \<and> list_rel (spa_list_prepend l e s) k zs \<and>
    (\<forall>a\<in>set xs. list_rel (spa_list_remove a s) k zs) \<and>
    (xs = [] \<and> distinct (l # es) \<longrightarrow>
       (\<exists>s'. spa_list_consume l (fold (spa_list_append l) es s) = Some (s', es) \<and> list_rel s' l []))"
proof (intro conjI ballI impI)
  have p: "prv s l \<in> set (l # xs)" using assms(1) seg_edges_prev [of s l xs l l] by (simp add: list_rel_def)
  hence "e \<noteq> prv s l" using assms(4) by metis
  thus "list_rel (spa_list_append l e s) k zs"
    unfolding spa_list_append_def using assms(3) insert_frame [OF assms(1) p] by (intro frame_rel [OF assms(2)]) blast
  show "list_rel (spa_list_prepend l e s) k zs"
    unfolding spa_list_prepend_def using assms(3,4) insert_frame [OF assms(1), of l e]
    by (intro frame_rel [OF assms(2)]) (metis disjoint_iff list.set_intros(1))
  show "list_rel (spa_list_remove a s) k zs" if "a \<in> set xs" for a
    using assms(3) remove_frame [OF assms(1) that] by (intro frame_rel [OF assms(2)]) (metis disjoint_iff list.set_intros(2))
  show "\<exists>s'. spa_list_consume l (fold (spa_list_append l) es s) = Some (s', es) \<and> list_rel s' l []"
    if "xs = [] \<and> distinct (l # es)" using nf.drain_in_order assms(1) that by blast
qed

theorem list_separation_and_order_witness:
  "list_rel (spa_list_append 1 4 demo_store) 9 []"
  using list_separation_and_order [OF demo_store_rel, of 4] by simp

end
