(* ===== verification/PW_Rates.thy ===== *)
theory PW_Rates
  imports PW_Prelude
begin

text \<open>
  The choice of sample rate and quantum of \<^verbatim>\<open>src/modules/module-scheduler-v1.c\<close>: the number functions
  and \<^verbatim>\<open>find_best_rate\<close>, and the last stage of \<^verbatim>\<open>context_recalc_graph\<close>, which evaluates one driver with
  its followers. Numbers keep their C widths. The stage returns the updated driver and followers and
  either that the driver must be reconfigured (the code then starts over) or the running state it
  requests. Logging is left out.
\<close>

section \<open>Numbers\<close>

definition flp2 :: "u32 \<Rightarrow> u32" where
  "flp2 x = (let x = x OR drop_bit 1 x; x = x OR drop_bit 2 x; x = x OR drop_bit 4 x;
                 x = x OR drop_bit 8 x; x = x OR drop_bit 16 x
             in x - drop_bit 1 x)"

definition fraction_compare :: "spa_fraction \<Rightarrow> spa_fraction \<Rightarrow> int" where
  "fraction_compare a b =
     (let fa = (ucast (num a) :: u64) * ucast (denom b); fb = ucast (num b) * ucast (denom a)
      in if fa < fb then -1 else if fa > fb then 1 else 0)"

function calc_gcd :: "u32 \<Rightarrow> u32 \<Rightarrow> u32" where
  "calc_gcd a b = (if b \<noteq> 0 then calc_gcd b (a mod b) else a)"
  by auto
termination
proof (relation "measure (\<lambda>(a, b). unat b)")
  fix a b :: u32 assume "b \<noteq> 0"
  thus "((b, a mod b), a, b) \<in> measure (\<lambda>(a, b). unat b)" by (simp add: unat_mod_distrib unat_gt_0)
qed simp

declare calc_gcd.simps [simp del]

definition SPA_SCALE32 :: "u32 \<Rightarrow> u32 \<Rightarrow> u32 \<Rightarrow> u32" where
  "SPA_SCALE32 val n d = ucast ((ucast val * ucast n :: u64) div ucast d)"

definition SPA_CLAMP :: "u32 \<Rightarrow> u32 \<Rightarrow> u32 \<Rightarrow> u32" where
  "SPA_CLAMP v low high = min (max v low) high"

text \<open>\<^verbatim>\<open>SPA_ABS\<close> of the difference of two signed 32-bit numbers.\<close>

definition rate_diff :: "u32 \<Rightarrow> u32 \<Rightarrow> u32" where
  "rate_diff a b = (let d = a - b in if sint d \<ge> 0 then d else - d)"

section \<open>The best rate\<close>

record rate_info =
  ri_rate :: u32
  ri_gcd :: u32
  ri_diff :: u32

definition no_rate :: rate_info where
  "no_rate = \<lparr>ri_rate = 0, ri_gcd = 0, ri_diff = 0\<rparr>"

definition update_highest_rate :: "rate_info \<Rightarrow> rate_info \<Rightarrow> rate_info" where
  "update_highest_rate best current =
     (if ri_rate best = 0 \<or> ri_rate best < ri_rate current then current else best)"

definition update_nearest_gcd :: "rate_info \<Rightarrow> rate_info \<Rightarrow> rate_info" where
  "update_nearest_gcd best current =
     (if ri_rate best = 0 \<or> ri_gcd best < ri_gcd current \<or>
         ri_gcd best = ri_gcd current \<and> ri_diff best > ri_diff current then current else best)"

definition update_nearest_rate :: "rate_info \<Rightarrow> rate_info \<Rightarrow> rate_info" where
  "update_nearest_rate best current =
     (if ri_rate best = 0 \<or> ri_diff best > ri_diff current then current else best)"

definition mk_rate_info :: "u32 \<Rightarrow> u32 \<Rightarrow> rate_info" where
  "mk_rate_info rate r = \<lparr>ri_rate = r, ri_gcd = calc_gcd rate r, ri_diff = rate_diff rate r\<rparr>"

text \<open>One of the four loops: update the best entry with those that qualify.\<close>

definition best_of :: "(rate_info \<Rightarrow> rate_info \<Rightarrow> rate_info) \<Rightarrow> (rate_info \<Rightarrow> bool) \<Rightarrow> rate_info list \<Rightarrow> u32" where
  "best_of upd P info = ri_rate (fold (\<lambda>i best. if P i then upd best i else best) info no_rate)"

definition rate_limit :: "u32 \<Rightarrow> u32 \<Rightarrow> u32" where
  "rate_limit rate def' = (if rate < def' div 2 then def' else if rate < def' then def' * 2 else rate * 3)"

definition find_best_rate :: "u32 list \<Rightarrow> u32 \<Rightarrow> u32 \<Rightarrow> u32" where
  "find_best_rate rates rate def' =
     (let info = map (mk_rate_info rate) rates;
          limit = rate_limit rate def';
          b1 = best_of update_nearest_gcd (\<lambda>i. ri_rate i \<ge> rate \<and> ri_rate i \<le> limit) info
      in if b1 \<noteq> 0 then b1
         else let b2 = best_of update_nearest_rate (\<lambda>i. ri_rate i \<ge> rate) info
         in if b2 \<noteq> 0 then b2
         else let b3 = best_of update_nearest_gcd (\<lambda>i. ri_rate i \<ge> 44100) info
         in if b3 \<noteq> 0 then b3
         else let b4 = best_of update_highest_rate (\<lambda>_. True) info
         in if b4 \<noteq> 0 then b4 else def')"

section \<open>Nodes and settings\<close>

text \<open>The states of \<^verbatim>\<open>enum pw_node_state\<close>, in their order.\<close>

abbreviation (input) PW_NODE_STATE_ERROR :: int where "PW_NODE_STATE_ERROR \<equiv> -1"
abbreviation (input) PW_NODE_STATE_CREATING :: int where "PW_NODE_STATE_CREATING \<equiv> 0"
abbreviation (input) PW_NODE_STATE_SUSPENDED :: int where "PW_NODE_STATE_SUSPENDED \<equiv> 1"
abbreviation (input) PW_NODE_STATE_IDLE :: int where "PW_NODE_STATE_IDLE \<equiv> 2"
abbreviation (input) PW_NODE_STATE_RUNNING :: int where "PW_NODE_STATE_RUNNING \<equiv> 3"

record settings =
  clock_rate :: u32
  clock_rates :: "u32 list"
  clock_quantum :: u32
  clock_min_quantum :: u32
  clock_max_quantum :: u32
  clock_quantum_limit :: u32
  clock_quantum_floor :: u32
  clock_power_of_two_quantum :: bool
  clock_rate_update_mode_hard :: bool
  clock_force_rate :: u32
  clock_force_quantum :: u32

text \<open>The clock and the command of the shared activation record of a driver.\<close>

record node_clock =
  ck_duration :: u64
  ck_rate :: spa_fraction
  ck_target_duration :: u64
  ck_target_rate :: spa_fraction
  ck_lazy :: bool
  ck_nsec :: u64
  ck_command :: u32

record pw_impl_node =
  active :: bool
  runnable :: bool
  need_configure :: bool
  info_state :: int
  can_suspend :: bool
  pause_on_idle :: bool
  need_resume :: bool
  moved :: bool
  lock_quantum :: bool
  lock_rate :: bool
  force_quantum :: u32
  force_rate :: u32
  stamp :: u64
  latency :: spa_fraction
  max_latency :: spa_fraction
  rate :: spa_fraction
  supports_lazy :: u32
  supports_request :: u32
  transport :: u32
  target_rate :: spa_fraction
  target_quantum :: u64
  target_pending :: bool
  forced_rate :: bool
  forced_quantum :: bool
  clock :: node_clock

definition ensure_state :: "pw_impl_node \<Rightarrow> bool \<Rightarrow> bool \<Rightarrow> int" where
  "ensure_state node running idle =
     (if active node \<and> runnable node \<and> \<not> need_configure node \<and> running then PW_NODE_STATE_RUNNING
      else if \<not> need_configure node \<and> idle then PW_NODE_STATE_IDLE
      else if info_state node > PW_NODE_STATE_IDLE then PW_NODE_STATE_IDLE
      else info_state node)"

definition get_quantums :: "settings \<Rightarrow> u32 \<times> u32 \<times> u32 \<times> u32 \<times> u32 \<times> u32" where
  "get_quantums s =
     (if clock_force_quantum s \<noteq> 0
      then (clock_force_quantum s, clock_force_quantum s, clock_force_quantum s, 0,
            clock_quantum_floor s, clock_quantum_limit s)
      else (clock_quantum s, clock_min_quantum s, clock_max_quantum s, clock_rate s,
            clock_quantum_floor s, clock_quantum_limit s))"

definition get_rates :: "settings \<Rightarrow> u32 list \<times> u32 \<times> bool" where
  "get_rates s =
     (if clock_force_rate s \<noteq> 0 then ([clock_force_rate s], clock_force_rate s, True)
      else (clock_rates s, clock_rate s, False))"

section \<open>One driver\<close>

text \<open>The local variables of the last stage that the loop over the followers computes.\<close>

record collected =
  c_lock_quantum :: bool
  c_lock_rate :: bool
  c_def_quantum :: u32
  c_min_quantum :: u32
  c_max_quantum :: u32
  c_rate_quantum :: u32
  c_quantum_stamp :: u64
  c_force_quantum :: bool
  c_def_rate :: u32
  c_rates :: "u32 list"
  c_force_rate :: bool
  c_rate_stamp :: u64
  c_latency :: spa_fraction
  c_max_latency :: spa_fraction
  c_rate :: spa_fraction
  c_running :: bool
  c_have_request :: bool

definition fraction0 :: spa_fraction where
  "fraction0 = \<lparr>num = 0, denom = 0\<rparr>"

definition collect_init :: "settings \<Rightarrow> collected" where
  "collect_init s =
     (let (def_quantum, min_quantum, max_quantum, rate_quantum, _, _) = get_quantums s;
          (rates, def_rate, force) = get_rates s
      in \<lparr>c_lock_quantum = False, c_lock_rate = False, c_def_quantum = def_quantum,
          c_min_quantum = min_quantum, c_max_quantum = max_quantum, c_rate_quantum = rate_quantum,
          c_quantum_stamp = 0, c_force_quantum = (rate_quantum = 0), c_def_rate = def_rate,
          c_rates = rates, c_force_rate = force, c_rate_stamp = 0, c_latency = fraction0,
          c_max_latency = fraction0, c_rate = fraction0, c_running = False, c_have_request = False\<rparr>)"

definition smallest :: "spa_fraction \<Rightarrow> spa_fraction \<Rightarrow> spa_fraction" where
  "smallest best f =
     (if denom best = 0 \<or> denom f > 0 \<and> fraction_compare f best < 0 then f else best)"

text \<open>
  One follower \<open>s\<close> of the driver, in the order of the code: the locks, a forced quantum, a forced
  rate, the smallest fractions, and whether the driver runs; \<open>self\<close> when the follower is the driver,
  which is \<open>driver_runnable\<close>.
\<close>

definition collect_locks :: "pw_impl_node \<Rightarrow> collected \<Rightarrow> collected" where
  "collect_locks s c =
     (if \<not> moved s then c\<lparr>c_lock_quantum := c_lock_quantum c \<or> lock_quantum s,
                          c_lock_rate := c_lock_rate c \<or> lock_rate s\<rparr> else c)"

definition collect_force_quantum :: "settings \<Rightarrow> pw_impl_node \<Rightarrow> collected \<Rightarrow> collected" where
  "collect_force_quantum st s c =
     (let global_force_quantum = (clock_force_quantum st \<noteq> 0 \<or> clock_rate st = 0)
      in if \<not> global_force_quantum \<and> force_quantum s > 0 \<and> stamp s > c_quantum_stamp c
         then c\<lparr>c_def_quantum := force_quantum s, c_min_quantum := force_quantum s,
                c_max_quantum := force_quantum s, c_rate_quantum := 0,
                c_quantum_stamp := stamp s, c_force_quantum := True\<rparr> else c)"

definition collect_force_rate :: "settings \<Rightarrow> pw_impl_node \<Rightarrow> collected \<Rightarrow> collected" where
  "collect_force_rate st s c =
     (let global_force_rate = (clock_force_rate st \<noteq> 0)
      in if \<not> global_force_rate \<and> force_rate s > 0 \<and> stamp s > c_rate_stamp c
         then c\<lparr>c_def_rate := force_rate s, c_rates := [force_rate s],
                c_force_rate := True, c_rate_stamp := stamp s\<rparr> else c)"

definition collect_fractions :: "pw_impl_node \<Rightarrow> collected \<Rightarrow> collected" where
  "collect_fractions s c =
     c\<lparr>c_latency := smallest (c_latency c) (latency s),
       c_max_latency := smallest (c_max_latency c) (max_latency s),
       c_rate := smallest (c_rate c) (rate s)\<rparr>"

definition collect_running :: "bool \<Rightarrow> bool \<Rightarrow> pw_impl_node \<Rightarrow> collected \<Rightarrow> collected" where
  "collect_running driver_runnable self s c =
     (let c = (if active s then c\<lparr>c_running := driver_runnable\<rparr> else c)
      in if c_running c \<and> \<not> self \<and> supports_request s > 0 then c\<lparr>c_have_request := True\<rparr> else c)"

definition collect_follower :: "settings \<Rightarrow> bool \<Rightarrow> bool \<Rightarrow> pw_impl_node \<Rightarrow> collected \<Rightarrow> collected" where
  "collect_follower st driver_runnable self s c =
     collect_running driver_runnable self s (collect_fractions s (collect_force_rate st s
       (collect_force_quantum st s (collect_locks s c))))"

definition collect_followers :: "settings \<Rightarrow> (nat \<Rightarrow> pw_impl_node) \<Rightarrow> nat \<Rightarrow> nat list \<Rightarrow> collected" where
  "collect_followers st nodes n followers =
     fold (\<lambda>s. collect_follower st (runnable (nodes n)) (s = n) (nodes s)) followers (collect_init st)"

text \<open>The rate: \<open>n\<close> is the driver, \<open>running\<close> and \<open>resume\<close> the local flags.\<close>

definition choose_rate :: "pw_impl_node \<Rightarrow> collected \<Rightarrow> bool \<Rightarrow> bool \<Rightarrow> u32" where
  "choose_rate n c running resume =
     (let restore_rate = (forced_rate n \<and> \<not> c_force_rate c \<and> runnable n);
          lock = (c_lock_rate c \<and> \<not> c_force_rate c);
          current_rate = denom (target_rate n)
      in if \<not> restore_rate \<and> (lock \<or> resume \<or> \<not> running \<or>
             \<not> c_force_rate c \<and> info_state n > PW_NODE_STATE_IDLE)
         then current_rate
         else find_best_rate (c_rates c)
                (if denom (c_rate c) \<noteq> 0 \<and> num (c_rate c) = 1 then denom (c_rate c) else c_def_rate c)
                (c_def_rate c))"

definition reconfigure_for_rate :: "settings \<Rightarrow> pw_impl_node \<Rightarrow> collected \<Rightarrow> bool" where
  "reconfigure_for_rate st n c =
     ((if c_force_rate c then clock_rate_update_mode_hard st
       else info_state n \<ge> PW_NODE_STATE_SUSPENDED) \<and> \<not> target_pending n)"

definition set_target_rate :: "u32 \<Rightarrow> collected \<Rightarrow> pw_impl_node \<Rightarrow> pw_impl_node" where
  "set_target_rate r c n = (if r \<noteq> denom (target_rate n)
     then n\<lparr>target_rate := \<lparr>num = 1, denom = r\<rparr>, forced_rate := c_force_rate c, target_pending := True\<rparr>
     else n)"

text \<open>The bounds of the quantum at the rate \<open>r\<close>.\<close>

definition scale_quantums :: "u32 \<Rightarrow> collected \<Rightarrow> u32 \<times> u32 \<times> u32" where
  "scale_quantums r c =
     (let (def_q, min_q, max_q) =
            (if c_rate_quantum c \<noteq> 0 \<and> r \<noteq> c_rate_quantum c
             then (SPA_SCALE32 (c_def_quantum c) r (c_rate_quantum c),
                   SPA_SCALE32 (c_min_quantum c) r (c_rate_quantum c),
                   SPA_SCALE32 (c_max_quantum c) r (c_rate_quantum c))
             else (c_def_quantum c, c_min_quantum c, c_max_quantum c));
          max_q = (if denom (c_max_latency c) \<noteq> 0 \<and> \<not> c_force_quantum c \<and> \<not> c_force_rate c
                   then let tmp = SPA_SCALE32 (num (c_max_latency c)) r (denom (c_max_latency c))
                        in if tmp < max_q then tmp else max_q
                   else max_q)
      in (def_q, min_q, max_q))"

definition choose_quantum :: "settings \<Rightarrow> pw_impl_node \<Rightarrow> collected \<Rightarrow> bool \<Rightarrow> bool \<Rightarrow> u32 \<Rightarrow> u32" where
  "choose_quantum st n c running resume r =
     (let restore_quantum = (forced_quantum n \<and> \<not> c_force_quantum c \<and> runnable n);
          lock = (c_lock_quantum c \<and> \<not> c_force_quantum c);
          (def_q, min_q, max_q) = scale_quantums r c
      in if \<not> restore_quantum \<and> (lock \<or> resume \<or> \<not> running) then ucast (target_quantum n)
         else let q = (if denom (c_latency c) \<noteq> 0 then SPA_SCALE32 (num (c_latency c)) r (denom (c_latency c)) else def_q);
                  q = SPA_CLAMP q min_q max_q;
                  q = SPA_CLAMP q (clock_quantum_floor st) (clock_quantum_limit st)
              in if clock_power_of_two_quantum st \<and> \<not> c_force_quantum c then flp2 q else q)"

definition set_target_quantum :: "u32 \<Rightarrow> collected \<Rightarrow> pw_impl_node \<Rightarrow> pw_impl_node" where
  "set_target_quantum q c n = (if q \<noteq> ucast (target_quantum n)
     then n\<lparr>target_quantum := ucast q, forced_quantum := c_force_quantum c, target_pending := True\<rparr>
     else n)"

text \<open>
  The requested node states, in order. \<open>Reconfigure\<close> is \<^verbatim>\<open>goto again\<close> after \<^verbatim>\<open>reconfigure_driver\<close>.
\<close>

datatype recalc =
    Reconfigure "nat \<Rightarrow> pw_impl_node" "(nat \<times> int) list"
  | Applied "nat \<Rightarrow> pw_impl_node" "(nat \<times> int) list"

definition reconfigure_driver :: "(nat \<Rightarrow> pw_impl_node) \<Rightarrow> nat list \<Rightarrow> nat \<Rightarrow> (nat \<Rightarrow> pw_impl_node) \<times> (nat \<times> int) list" where
  "reconfigure_driver nodes followers n =
     (let req = map (\<lambda>s. (s, PW_NODE_STATE_SUSPENDED)) (filter (\<lambda>s. s \<noteq> n) followers);
          nd = nodes n;
          nd = (if info_state nd \<ge> PW_NODE_STATE_IDLE then nd\<lparr>need_resume := \<not> pause_on_idle nd\<rparr> else nd)
      in (nodes(n := nd), req @ [(n, PW_NODE_STATE_SUSPENDED)]))"

text \<open>Publish a pending target to the clock, or take the target from the clock.\<close>

definition apply_target :: "pw_impl_node \<Rightarrow> pw_impl_node" where
  "apply_target n =
     (if target_pending n then
        (let ck = (clock n)\<lparr>ck_target_duration := target_quantum n, ck_target_rate := target_rate n\<rparr>;
             ck = (if info_state n < PW_NODE_STATE_RUNNING
                   then ck\<lparr>ck_duration := target_quantum n, ck_rate := target_rate n\<rparr> else ck)
         in n\<lparr>clock := ck, target_pending := False\<rparr>)
      else n\<lparr>target_quantum := ck_target_duration (clock n), target_rate := ck_target_rate (clock n)\<rparr>)"

definition update_clock :: "u64 \<Rightarrow> bool \<Rightarrow> pw_impl_node \<Rightarrow> pw_impl_node" where
  "update_clock now have_request n =
     (let ck = (if info_state n < PW_NODE_STATE_RUNNING then (clock n)\<lparr>ck_nsec := now\<rparr> else clock n)
      in n\<lparr>clock := ck\<lparr>ck_lazy := have_request \<and> supports_lazy n > 0\<rparr>\<rparr>)"

text \<open>The transport command of the last follower that has one, and the states of the followers.\<close>

definition PW_NODE_ACTIVATION_COMMAND_NONE :: u32 where
  "PW_NODE_ACTIVATION_COMMAND_NONE = 0"

fun start_followers :: "bool \<Rightarrow> nat \<Rightarrow> nat list \<Rightarrow> (nat \<Rightarrow> pw_impl_node) \<Rightarrow> u32 \<Rightarrow>
    (nat \<Rightarrow> pw_impl_node) \<times> u32 \<times> (nat \<times> int) list" where
  "start_followers running n [] nodes tr = (nodes, tr, [])"
| "start_followers running n (s # rest) nodes tr =
     (let (tr, nodes) = (if transport (nodes s) \<noteq> PW_NODE_ACTIVATION_COMMAND_NONE
             then (transport (nodes s), nodes(s := (nodes s)\<lparr>transport := PW_NODE_ACTIVATION_COMMAND_NONE\<rparr>))
             else (tr, nodes));
          req = (if s = n then [] else [(s, ensure_state (nodes s) running (\<not> can_suspend (nodes s)))]);
          (nodes, tr, reqs) = start_followers running n rest nodes tr
      in (nodes, tr, req @ reqs))"

definition clear_moved :: "nat list \<Rightarrow> (nat \<Rightarrow> pw_impl_node) \<Rightarrow> nat \<Rightarrow> pw_impl_node" where
  "clear_moved followers nodes = fold (\<lambda>s ns. ns(s := (ns s)\<lparr>moved := False\<rparr>)) followers nodes"

definition recalc_driver :: "settings \<Rightarrow> u64 \<Rightarrow> (nat \<Rightarrow> pw_impl_node) \<Rightarrow> nat list \<Rightarrow> nat \<Rightarrow> recalc" where
  "recalc_driver st now nodes followers n =
     (let c = collect_followers st nodes n followers;
          nodes = clear_moved followers nodes;
          nd = nodes n;
          resume = need_resume nd;
          running = (c_running c \<or> resume);
          nd = nd\<lparr>need_resume := False\<rparr>;
          r = choose_rate nd c running resume;
          do_reconfigure = (r \<noteq> denom (target_rate nd) \<and> reconfigure_for_rate st nd c);
          was_pending = target_pending nd;
          nd = set_target_rate r c nd;
          q = choose_quantum st nd c running resume r;
          do_reconfigure = (do_reconfigure \<or> q \<noteq> ucast (target_quantum nd) \<and> c_force_quantum c \<and> \<not> was_pending);
          nd = set_target_quantum q c nd;
          nodes = nodes(n := nd)
      in if target_pending nd \<and> do_reconfigure
         then (case reconfigure_driver nodes followers n of (nodes, reqs) \<Rightarrow> Reconfigure nodes reqs)
         else let nodes = nodes(n := update_clock now (c_have_request c) (apply_target nd));
                  (nodes, tr, reqs) = start_followers running n followers nodes PW_NODE_ACTIVATION_COMMAND_NONE;
                  nd = nodes n;
                  nd = (if tr \<noteq> PW_NODE_ACTIVATION_COMMAND_NONE then nd\<lparr>clock := (clock nd)\<lparr>ck_command := tr\<rparr>\<rparr> else nd)
              in Applied (nodes(n := nd)) (reqs @ [(n, ensure_state nd running False)]))"

section \<open>Correctness of the numbers\<close>

lemma calc_gcd_exact: "unat (calc_gcd a b) = gcd (unat a) (unat b)"
proof (induction a b rule: calc_gcd.induct)
  case (1 a b)
  show ?case
  proof (cases "b = 0")
    case True
    thus ?thesis by (simp add: calc_gcd.simps)
  next
    case False
    hence "unat (calc_gcd a b) = gcd (unat b) (unat (a mod b))" using 1 by (simp add: calc_gcd.simps)
    thus ?thesis by (simp add: unat_mod_distrib gcd_red_nat [of "unat a"])
  qed
qed

lemma smear_step:
  fixes x y :: u32
  assumes "\<And>n. bit y n \<longleftrightarrow> (\<exists>j<d. bit x (n + j))"
  shows "bit (y OR drop_bit d y) n \<longleftrightarrow> (\<exists>j<2 * d. bit x (n + j))"
proof -
  have "bit (y OR drop_bit d y) n \<longleftrightarrow> (\<exists>j<d. bit x (n + j)) \<or> (\<exists>j<d. bit x (n + (d + j)))"
    by (simp add: bit_or_iff bit_drop_bit_eq assms add.assoc add.commute add.left_commute)
  also have "\<dots> \<longleftrightarrow> (\<exists>j<2 * d. bit x (n + j))"
  proof
    assume "\<exists>j<2 * d. bit x (n + j)"
    then obtain j where j: "j < 2 * d" "bit x (n + j)" by blast
    show "(\<exists>j<d. bit x (n + j)) \<or> (\<exists>j<d. bit x (n + (d + j)))"
    proof (cases "j < d")
      case False
      hence "j - d < d" "n + j = n + (d + (j - d))" using j by simp_all
      thus ?thesis using j(2) by metis
    qed (use j in blast)
  next
    assume "(\<exists>j<d. bit x (n + j)) \<or> (\<exists>j<d. bit x (n + (d + j)))"
    thus "\<exists>j<2 * d. bit x (n + j)"
    proof
      assume "\<exists>j<d. bit x (n + j)"
      then obtain j where "j < d" "bit x (n + j)" by blast
      moreover from this have "j < 2 * d" by simp
      ultimately show ?thesis by blast
    next
      assume "\<exists>j<d. bit x (n + (d + j))"
      then obtain j where "j < d" "bit x (n + (d + j))" by blast
      moreover from this have "d + j < 2 * d" by simp
      ultimately show ?thesis by blast
    qed
  qed
  finally show ?thesis .
qed

lemma flp2_smear:
  "\<exists>y. flp2 x = y - drop_bit 1 y \<and> (\<forall>n. bit y n \<longleftrightarrow> (\<exists>j<32. bit x (n + j)))"
proof -
  define a where "a = x OR drop_bit 1 x"
  define b where "b = a OR drop_bit 2 a"
  define c where "c = b OR drop_bit 4 b"
  define d where "d = c OR drop_bit 8 c"
  define e where "e = d OR drop_bit 16 d"
  have "bit a n \<longleftrightarrow> (\<exists>j<2 * 1. bit x (n + j))" for n unfolding a_def by (rule smear_step) simp
  hence "bit b n \<longleftrightarrow> (\<exists>j<2 * 2. bit x (n + j))" for n unfolding b_def by (intro smear_step) simp
  hence "bit c n \<longleftrightarrow> (\<exists>j<2 * 4. bit x (n + j))" for n unfolding c_def by (intro smear_step) simp
  hence "bit d n \<longleftrightarrow> (\<exists>j<2 * 8. bit x (n + j))" for n unfolding d_def by (intro smear_step) simp
  hence "bit e n \<longleftrightarrow> (\<exists>j<2 * 16. bit x (n + j))" for n unfolding e_def by (intro smear_step) simp
  moreover have "flp2 x = e - drop_bit 1 e" by (simp only: flp2_def Let_def a_def b_def c_def d_def e_def)
  ultimately show ?thesis by auto
qed

text \<open>The greatest power of two that is not above a number.\<close>

lemma flp2_pow:
  assumes "x \<noteq> 0"
  shows "\<exists>k<32. flp2 x = 2 ^ k \<and> 2 ^ k \<le> unat x \<and> unat x < 2 ^ Suc k"
proof -
  obtain y where y: "flp2 x = y - drop_bit 1 y" "\<And>n. bit y n \<longleftrightarrow> (\<exists>j<32. bit x (n + j))"
    using flp2_smear [of x] by blast
  have b: "\<exists>m. bit x m"
  proof (rule ccontr)
    assume "\<not> (\<exists>m. bit x m)"
    hence "x = 0" by (intro bit_word_eqI) simp
    thus False using assms by simp
  qed
  have u: "bit x m \<Longrightarrow> m < 32" for m using bit_imp_le_length [of x m] by simp
  define k where "k = Max {m. bit x m}"
  have fin: "finite {m. bit x m}" by (rule finite_subset [of _ "{..<32}"]) (use u in auto)
  have k: "bit x k" "\<And>m. bit x m \<Longrightarrow> m \<le> k"
    using Max_in [OF fin] Max_ge [OF fin] b by (auto simp: k_def)
  have "y = mask (Suc k)"
  proof (rule bit_word_eqI)
    fix n assume n: "n < LENGTH(32)"
    have "bit y n \<longleftrightarrow> n \<le> k"
    proof
      assume "bit y n"
      then obtain j where "bit x (n + j)" using y(2) by blast
      thus "n \<le> k" using k(2) by fastforce
    next
      assume "n \<le> k"
      moreover have "k - n < 32" using u [OF k(1)] by simp
      ultimately show "bit y n" using y(2) k(1) by (metis le_add_diff_inverse)
    qed
    thus "bit y n \<longleftrightarrow> bit (mask (Suc k) :: u32) n" using n by (simp add: bit_mask_iff less_Suc_eq_le)
  qed
  hence "flp2 x = mask (Suc k) - drop_bit 1 (mask (Suc k))" using y(1) by simp
  also have "drop_bit 1 (mask (Suc k) :: u32) = mask k"
    by (rule bit_word_eqI) (use u [OF k(1)] in \<open>auto simp: bit_simps\<close>)
  finally have f: "flp2 x = 2 ^ k" by (simp add: mask_eq_exp_minus_1)
  have "bit (unat x) k" using k(1) u [OF k(1)] by (simp add: bit_unsigned_iff)
  hence "odd (unat x div 2 ^ k)" by (simp add: bit_iff_odd)
  hence "unat x div 2 ^ k \<noteq> 0" by (metis even_zero)
  hence l: "2 ^ k \<le> unat x" by (metis div_less not_le)
  have "x = take_bit (Suc k) x"
    by (rule bit_word_eqI) (use k(2) in \<open>auto simp: bit_take_bit_iff less_Suc_eq_le\<close>)
  hence "unat x = take_bit (Suc k) (unat x)" by (metis unsigned_take_bit_eq)
  hence "unat x < 2 ^ Suc k" by (metis take_bit_nat_less_exp)
  thus ?thesis using f l u [OF k(1)] by blast
qed

lemma flp2_zero: "flp2 0 = 0"
  by (simp add: flp2_def)

lemma flp2_unat:
  assumes "x \<noteq> 0"
  shows "\<exists>k<32. unat (flp2 x) = 2 ^ k \<and> 2 ^ k \<le> unat x \<and> unat x < 2 ^ Suc k"
proof -
  obtain k where k: "k < 32" "flp2 x = 2 ^ k" "2 ^ k \<le> unat x" "unat x < 2 ^ Suc k" using flp2_pow [OF assms] by blast
  have "(2 :: nat) ^ k < 2 ^ 32" using k(1) by (intro power_strict_increasing) auto
  hence "unat (of_nat (2 ^ k) :: u32) = 2 ^ k" by (intro unat_of_nat_32) simp
  hence "unat (2 ^ k :: u32) = 2 ^ k" by simp
  thus ?thesis using k by auto
qed

lemma ucast_mul_unat: "unat ((ucast (a :: u32) :: u64) * ucast (b :: u32)) = unat a * unat b"
proof -
  have "unat a * unat b < 2 ^ 32 * 2 ^ 32"
    using unat_lt_32 [of a] unat_lt_32 [of b] by (intro mult_strict_mono) auto
  thus ?thesis by (simp add: unat_word_ariths)
qed

lemma fraction_compare_exact:
  "fraction_compare a b =
     (if unat (num a) * unat (denom b) < unat (num b) * unat (denom a) then -1
      else if unat (num b) * unat (denom a) < unat (num a) * unat (denom b) then 1 else 0)"
  by (simp add: fraction_compare_def Let_def word_less_unat ucast_mul_unat)

lemma odd_top: "n < 2 * m \<Longrightarrow> odd (n div m) \<longleftrightarrow> m \<le> n" for n m :: nat
proof (cases "m \<le> n")
  case True
  assume "n < 2 * m"
  hence "n div m = 1" using True by (intro div_nat_eqI) auto
  thus ?thesis using True by simp
qed simp

lemma sint_nonneg: "sint d \<ge> 0 \<longleftrightarrow> unat d < 2 ^ 31" for d :: u32
proof -
  have "unat d < 2 * 2 ^ 31" using unat_lt_32 [of d] by simp
  note o = odd_top [OF this]
  have "sint d < 0 \<longleftrightarrow> bit (uint d) 31" by (simp add: sint_uint)
  also have "\<dots> \<longleftrightarrow> bit (unat d) 31" by (simp add: bit_unsigned_iff)
  also have "\<dots> \<longleftrightarrow> 2 ^ 31 \<le> unat d" by (simp only: bit_iff_odd o)
  finally show ?thesis by (simp only: not_less [symmetric]) simp
qed

lemma rate_diff_exact:
  assumes "unat a < 2 ^ 31" "unat b < 2 ^ 31"
  shows "unat (rate_diff a b) = (if unat b \<le> unat a then unat a - unat b else unat b - unat a)"
proof (cases "unat b \<le> unat a")
  case True
  hence "unat (a - b) = unat a - unat b" by (simp add: unat_minus_no_wrap word_le_unat)
  moreover have "unat a - unat b < 2 ^ 31" using assms by linarith
  ultimately show ?thesis using True by (simp add: rate_diff_def Let_def sint_nonneg)
next
  case False
  hence m: "unat (b - a) = unat b - unat a" by (simp add: unat_minus_no_wrap word_le_unat)
  have "unat (a - b) = 2 ^ 32 + unat a - unat b"
    using False unat_lt_32 [of b] by (simp add: unat_sub_if')
  moreover have "\<not> 2 ^ 32 + unat a - unat b < 2 ^ 31" using assms by simp
  ultimately have "\<not> sint (a - b) \<ge> 0" unfolding sint_nonneg by simp
  thus ?thesis using False m by (simp add: rate_diff_def Let_def)
qed

section \<open>The loops that choose a rt\<close>

text \<open>An update function keeps the old best entry or takes the new one, and takes the first.\<close>

definition chooses :: "(rate_info \<Rightarrow> rate_info \<Rightarrow> rate_info) \<Rightarrow> bool" where
  "chooses upd \<longleftrightarrow> (\<forall>b c. upd b c \<in> {b, c}) \<and> (\<forall>b c. ri_rate b = 0 \<longrightarrow> upd b c = c)"

lemma updates_choose: "chooses update_nearest_gcd" "chooses update_nearest_rate" "chooses update_highest_rate"
  by (auto simp: chooses_def update_nearest_gcd_def update_nearest_rate_def update_highest_rate_def)

definition best_info :: "(rate_info \<Rightarrow> rate_info \<Rightarrow> rate_info) \<Rightarrow> (rate_info \<Rightarrow> bool) \<Rightarrow> rate_info list \<Rightarrow> rate_info" where
  "best_info upd P info = fold (\<lambda>i best. if P i then upd best i else best) info no_rate"

lemma best_of_info: "best_of upd P info = ri_rate (best_info upd P info)"
  by (simp add: best_of_def best_info_def)

lemma best_info_snoc: "best_info upd P (info @ [i]) = (if P i then upd (best_info upd P info) i else best_info upd P info)"
  by (simp add: best_info_def)

lemma best_info_Nil: "best_info upd P [] = no_rate"
  by (simp add: best_info_def)

lemma best_info_in:
  assumes "chooses upd"
  shows "best_info upd P info = no_rate \<or> best_info upd P info \<in> set info \<and> P (best_info upd P info)"
proof (induction info rule: rev_induct)
  case (snoc i info)
  have "upd (best_info upd P info) i \<in> {best_info upd P info, i}" using assms by (simp add: chooses_def)
  thus ?case using snoc by (auto simp: best_info_snoc)
qed (simp add: best_info_Nil)

lemma best_info_some:
  assumes "chooses upd" "\<exists>i\<in>set info. P i \<and> ri_rate i \<noteq> 0" "\<And>b c. upd b c = c \<Longrightarrow> ri_rate b \<noteq> 0 \<Longrightarrow> ri_rate c \<noteq> 0 \<or> c = b \<or> \<not> P c"
  shows "ri_rate (best_info upd P info) \<noteq> 0"
  using assms(2)
proof (induction info rule: rev_induct)
  case (snoc i info)
  let ?b = "best_info upd P info"
  have c: "upd ?b i \<in> {?b, i}" "ri_rate ?b = 0 \<Longrightarrow> upd ?b i = i" using assms(1) by (auto simp: chooses_def)
  show ?case
  proof (cases "ri_rate ?b = 0")
    case True
    hence "P i \<and> ri_rate i \<noteq> 0" using snoc by auto
    thus ?thesis using c(2) True by (simp add: best_info_snoc)
  next
    case False
    thus ?thesis using c(1) assms(3) [of ?b i] by (auto simp: best_info_snoc)
  qed
qed simp

lemma best_of_member:
  assumes "chooses upd" "best_of upd P (map (mk_rate_info rt) rates) \<noteq> 0"
  shows "best_of upd P (map (mk_rate_info rt) rates) \<in> set rates \<and>
    P (mk_rate_info rt (best_of upd P (map (mk_rate_info rt) rates)))"
proof -
  let ?b = "best_info upd P (map (mk_rate_info rt) rates)"
  have "?b \<noteq> no_rate" using assms(2) by (auto simp: best_of_info no_rate_def)
  hence "?b \<in> mk_rate_info rt ` set rates \<and> P ?b" using best_info_in [OF assms(1), of P "map (mk_rate_info rt) rates"] by auto
  thus ?thesis by (auto simp: best_of_info mk_rate_info_def)
qed

text \<open>With positive rates each loop finds a rate as soon as one qualifies.\<close>

lemma best_info_found:
  assumes "chooses upd" "\<forall>i\<in>set info. ri_rate i \<noteq> 0" "i \<in> set info" "P i"
  shows "ri_rate (best_info upd P info) \<noteq> 0"
proof -
  let ?P = "\<lambda>i. P i \<and> ri_rate i \<noteq> 0"
  have "best_info upd P info = best_info upd ?P info"
    using assms(2) unfolding best_info_def by (intro fold_cong) auto
  moreover have "ri_rate (best_info upd ?P info) \<noteq> 0"
    by (rule best_info_some [OF assms(1)]) (use assms in auto)
  ultimately show ?thesis by simp
qed

lemma best_of_found:
  assumes "chooses upd" "0 \<notin> set rates" "r \<in> set rates" "P (mk_rate_info rt r)"
  shows "best_of upd P (map (mk_rate_info rt) rates) \<noteq> 0"
  unfolding best_of_info
  by (rule best_info_found [OF assms(1), of _ "mk_rate_info rt r"]) (use assms in \<open>auto simp: mk_rate_info_def\<close>)

text \<open>Where the result comes from.\<close>

abbreviation (input) best_above :: "u32 \<Rightarrow> u32 list \<Rightarrow> u32" where
  "best_above rt rates \<equiv> best_of update_nearest_rate (\<lambda>i. rt \<le> ri_rate i) (map (mk_rate_info rt) rates)"

abbreviation (input) best_any :: "u32 \<Rightarrow> u32 list \<Rightarrow> u32" where
  "best_any rt rates \<equiv> best_of update_highest_rate (\<lambda>_. True) (map (mk_rate_info rt) rates)"

definition from_loop :: "u32 \<Rightarrow> u32 list \<Rightarrow> u32 \<Rightarrow> bool" where
  "from_loop rt rates b \<longleftrightarrow> (\<exists>upd P. chooses upd \<and> b \<noteq> 0 \<and> b = best_of upd P (map (mk_rate_info rt) rates) \<and>
     ((\<forall>i. P i \<longrightarrow> rt \<le> ri_rate i) \<or> best_above rt rates = 0))"

lemma from_loopI:
  "chooses upd \<Longrightarrow> b \<noteq> 0 \<Longrightarrow> b = best_of upd P (map (mk_rate_info rt) rates) \<Longrightarrow>
   (\<forall>i. P i \<longrightarrow> rt \<le> ri_rate i) \<or> best_above rt rates = 0 \<Longrightarrow> from_loop rt rates b"
  unfolding from_loop_def by blast

lemma find_best_rate_origin:
  "from_loop rt rates (find_best_rate rates rt df) \<or>
   find_best_rate rates rt df = df \<and> best_any rt rates = 0 \<and> best_above rt rates = 0"
proof -
  let ?i = "map (mk_rate_info rt) rates"
  define b1 where "b1 = best_of update_nearest_gcd (\<lambda>i. rt \<le> ri_rate i \<and> ri_rate i \<le> rate_limit rt df) ?i"
  define b3 where "b3 = best_of update_nearest_gcd (\<lambda>i. 44100 \<le> ri_rate i) ?i"
  have f: "find_best_rate rates rt df = (if b1 \<noteq> 0 then b1 else if best_above rt rates \<noteq> 0 then best_above rt rates
      else if b3 \<noteq> 0 then b3 else if best_any rt rates \<noteq> 0 then best_any rt rates else df)"
    by (simp add: find_best_rate_def Let_def b1_def b3_def)
  have 1: "b1 \<noteq> 0 \<Longrightarrow> from_loop rt rates b1"
    by (rule from_loopI [OF updates_choose(1) _ b1_def]) simp_all
  have 2: "best_above rt rates \<noteq> 0 \<Longrightarrow> from_loop rt rates (best_above rt rates)"
    by (rule from_loopI [OF updates_choose(2) _ refl]) simp_all
  have 3: "best_above rt rates = 0 \<Longrightarrow> b3 \<noteq> 0 \<Longrightarrow> from_loop rt rates b3"
    by (rule from_loopI [OF updates_choose(1) _ b3_def]) simp_all
  have 4: "best_above rt rates = 0 \<Longrightarrow> best_any rt rates \<noteq> 0 \<Longrightarrow> from_loop rt rates (best_any rt rates)"
    by (rule from_loopI [OF updates_choose(3) _ refl]) simp_all
  show ?thesis unfolding f using 1 2 3 4 by (simp split: if_split)
qed

lemma find_best_rate_member:
  assumes "rates \<noteq> []" "0 \<notin> set rates"
  shows "find_best_rate rates rt df \<in> set rates"
proof -
  obtain r where "r \<in> set rates" using assms(1) by (cases rates) auto
  hence "best_any rt rates \<noteq> 0" by (rule best_of_found [OF updates_choose(3) assms(2)]) simp
  hence "from_loop rt rates (find_best_rate rates rt df)" using find_best_rate_origin [of rt rates df] by blast
  thus ?thesis unfolding from_loop_def using best_of_member by metis
qed

lemma find_best_rate_ge:
  assumes "0 \<notin> set rates" "r \<in> set rates" "rt \<le> r"
  shows "rt \<le> find_best_rate rates rt df"
proof -
  have n: "best_above rt rates \<noteq> 0"
    using assms by (intro best_of_found [OF updates_choose(2)]) (auto simp: mk_rate_info_def)
  hence "from_loop rt rates (find_best_rate rates rt df)" using find_best_rate_origin [of rt rates df] by blast
  then obtain upd P where u: "chooses upd" "find_best_rate rates rt df \<noteq> 0"
    "find_best_rate rates rt df = best_of upd P (map (mk_rate_info rt) rates)" "\<forall>i. P i \<longrightarrow> rt \<le> ri_rate i"
    unfolding from_loop_def using n by blast
  have "P (mk_rate_info rt (find_best_rate rates rt df))" using best_of_member [OF u(1), of P rt rates] u(2,3) by simp
  hence "rt \<le> ri_rate (mk_rate_info rt (find_best_rate rates rt df))" using u(4) by blast
  thus ?thesis by (simp add: mk_rate_info_def)
qed

text \<open>The loop for the nearest common divisor finds an entry that is at least as good as every other.\<close>

definition no_better :: "rate_info \<Rightarrow> rate_info \<Rightarrow> bool" where
  "no_better i b \<longleftrightarrow> ri_gcd i < ri_gcd b \<or> ri_gcd i = ri_gcd b \<and> ri_diff b \<le> ri_diff i"

lemma update_no_better:
  "no_better x (update_nearest_gcd b x)" "ri_rate b \<noteq> 0 \<Longrightarrow> no_better i b \<Longrightarrow> no_better i (update_nearest_gcd b x)"
  by (auto simp: no_better_def update_nearest_gcd_def)

lemma nearest_gcd_best:
  assumes "\<forall>i\<in>set info. ri_rate i \<noteq> 0" "i \<in> set info" "P i"
  shows "no_better i (best_info update_nearest_gcd P info)"
  using assms
proof (induction info rule: rev_induct)
  case (snoc x info)
  let ?b = "best_info update_nearest_gcd P info"
  show ?case
  proof (cases "i \<in> set info")
    case True
    hence "no_better i ?b" using snoc by simp
    moreover have "ri_rate ?b \<noteq> 0"
      using snoc.prems True by (intro best_info_found [OF updates_choose(1), of _ i]) auto
    ultimately show ?thesis by (simp add: best_info_snoc update_no_better)
  next
    case False
    hence "i = x" using snoc.prems(2) by simp
    thus ?thesis using snoc.prems(3) by (simp add: best_info_snoc update_no_better)
  qed
qed simp

lemma rate_limit_ge:
  assumes "unat rt < 2 ^ 30" "unat df < 2 ^ 31"
  shows "rt \<le> rate_limit rt df"
proof -
  have "unat (df * 2) = unat df * 2" "unat (rt * 3) = unat rt * 3" using assms by (simp_all add: unat_word_ariths)
  thus ?thesis by (auto simp: rate_limit_def word_le_unat word_less_unat unat_div_distrib)
qed

lemma find_best_rate_same:
  assumes "0 \<notin> set rates" "rt \<in> set rates" "unat rt < 2 ^ 30" "unat df < 2 ^ 31" "\<forall>r\<in>set rates. unat r < 2 ^ 31"
  shows "find_best_rate rates rt df = rt"
proof -
  let ?i = "map (mk_rate_info rt) rates" and ?P = "\<lambda>i. rt \<le> ri_rate i \<and> ri_rate i \<le> rate_limit rt df"
  let ?s = "mk_rate_info rt rt" and ?b = "best_info update_nearest_gcd ?P ?i"
  have nz: "\<forall>i\<in>set ?i. ri_rate i \<noteq> 0" using assms(1) by (auto simp: mk_rate_info_def)
  have s: "?s \<in> set ?i" "?P ?s" using assms(2) rate_limit_ge [OF assms(3,4)] by (auto simp: mk_rate_info_def)
  have b0: "ri_rate ?b \<noteq> 0" using best_info_found [OF updates_choose(1) nz s(1), of ?P] s(2) by blast
  hence "?b \<noteq> no_rate" by (auto simp: no_rate_def)
  then obtain r where r: "r \<in> set rates" "?b = mk_rate_info rt r"
    using best_info_in [OF updates_choose(1), of ?P ?i] by auto
  have "ri_gcd ?s < ri_gcd ?b \<or> ri_gcd ?s = ri_gcd ?b \<and> ri_diff ?b \<le> ri_diff ?s"
    using nearest_gcd_best [of ?i ?s ?P] nz s unfolding no_better_def by blast
  moreover have "unat (ri_gcd ?b) \<le> unat (ri_gcd ?s)"
    using assms(1,2) r by (auto simp: mk_rate_info_def calc_gcd_exact unat_gt_0 intro!: gcd_le1_nat) 
  ultimately have "unat (ri_diff ?b) \<le> unat (ri_diff ?s)" by (auto simp: word_less_unat word_le_unat)
  moreover have "unat rt < 2 ^ 31" using assms(3) by simp
  ultimately have "unat r = unat rt"
    using rate_diff_exact [of rt r] rate_diff_exact [of rt rt] assms(5) r by (simp add: mk_rate_info_def split: if_splits)
  hence "ri_rate ?b = rt" using r(2) by (simp add: mk_rate_info_def word_eq_unat)
  hence "best_of update_nearest_gcd ?P ?i = rt" by (simp add: best_of_info)
  thus ?thesis using b0 by (simp add: find_best_rate_def best_of_info Let_def)
qed

section \<open>Properties of the choice\<close>

lemma clamp_bounds: "low \<le> high \<Longrightarrow> low \<le> SPA_CLAMP v low high \<and> SPA_CLAMP v low high \<le> high"
  by (simp add: SPA_CLAMP_def)

lemma clamp_point: "SPA_CLAMP v x x = x"
  by (simp add: SPA_CLAMP_def)

text \<open>
  C30: the chosen rate is one of the allowed rates; when an allowed rate is high enough for the
  requested one, so is the chosen rate (nothing is downsampled without need); and a requested rate
  that is allowed is chosen itself.
\<close>

theorem find_best_rate_sound:
  assumes "rates \<noteq> []" "0 \<notin> set rates"
  shows "find_best_rate rates rt df \<in> set rates \<and>
    ((\<exists>r\<in>set rates. rt \<le> r) \<longrightarrow> rt \<le> find_best_rate rates rt df) \<and>
    (rt \<in> set rates \<and> unat rt < 2 ^ 30 \<and> unat df < 2 ^ 31 \<and> (\<forall>r\<in>set rates. unat r < 2 ^ 31) \<longrightarrow>
       find_best_rate rates rt df = rt)"
  using find_best_rate_member [OF assms] find_best_rate_ge [OF assms(2)] find_best_rate_same [OF assms(2)] by blast

theorem find_best_rate_sound_witness:
  "find_best_rate [44100, 48000, 96000] 48000 44100 = 48000"
  using find_best_rate_sound [of "[44100, 48000, 96000]" 48000 44100] by simp

text \<open>
  C32: a newly chosen quantum respects the limits of the settings: it is at most the limit and at
  least the floor; rounded to a power of two it still is more than half of the floor.
\<close>

theorem quantum_within_limits:
  assumes "clock_quantum_floor st \<le> clock_quantum_limit st"
  shows "let q = choose_quantum st n c running resume r in
    q = ucast (target_quantum n) \<or>
    unat q \<le> unat (clock_quantum_limit st) \<and>
    (if clock_power_of_two_quantum st \<and> \<not> c_force_quantum c
     then (q = 0 \<or> (\<exists>k<32. unat q = 2 ^ k)) \<and> unat (clock_quantum_floor st) \<le> 2 * unat q
     else unat (clock_quantum_floor st) \<le> unat q)"
proof -
  obtain d lo hi where s: "scale_quantums r c = (d, lo, hi)" by (metis surj_pair)
  define q0 where "q0 = SPA_CLAMP (SPA_CLAMP (if denom (c_latency c) \<noteq> 0
      then SPA_SCALE32 (num (c_latency c)) r (denom (c_latency c)) else d) lo hi)
      (clock_quantum_floor st) (clock_quantum_limit st)"
  have q0: "unat (clock_quantum_floor st) \<le> unat q0" "unat q0 \<le> unat (clock_quantum_limit st)"
    using clamp_bounds [OF assms] by (simp_all add: q0_def word_le_unat)
  have f: "flp2 q0 = 0 \<and> q0 = 0 \<or> (\<exists>k<32. unat (flp2 q0) = 2 ^ k \<and> unat (flp2 q0) \<le> unat q0 \<and> unat q0 < 2 * unat (flp2 q0))"
    using flp2_unat [of q0] flp2_zero by (cases "q0 = 0") auto
  have e: "choose_quantum st n c running resume r = ucast (target_quantum n) \<or>
      choose_quantum st n c running resume r =
        (if clock_power_of_two_quantum st \<and> \<not> c_force_quantum c then flp2 q0 else q0)"
    by (simp add: choose_quantum_def s Let_def q0_def)
  show ?thesis unfolding Let_def using e f q0 by auto
qed

definition demo_settings :: settings where
  "demo_settings = \<lparr>clock_rate = 48000, clock_rates = [44100, 48000], clock_quantum = 1024, clock_min_quantum = 32,
     clock_max_quantum = 2048, clock_quantum_limit = 8192, clock_quantum_floor = 4, clock_power_of_two_quantum = True,
     clock_rate_update_mode_hard = True, clock_force_rate = 0, clock_force_quantum = 0\<rparr>"

definition demo_node :: pw_impl_node where
  "demo_node = \<lparr>active = True, runnable = True, need_configure = False, info_state = 1, can_suspend = True,
     pause_on_idle = False, need_resume = False, moved = False, lock_quantum = False, lock_rate = False,
     force_quantum = 0, force_rate = 0, stamp = 1, latency = fraction0, max_latency = fraction0, rate = fraction0,
     supports_lazy = 0, supports_request = 0, transport = 0, target_rate = \<lparr>num = 1, denom = 48000\<rparr>,
     target_quantum = 1024, target_pending = False, forced_rate = False, forced_quantum = False,
     clock = \<lparr>ck_duration = 1024, ck_rate = \<lparr>num = 1, denom = 48000\<rparr>, ck_target_duration = 1024,
       ck_target_rate = \<lparr>num = 1, denom = 48000\<rparr>, ck_lazy = False, ck_nsec = 0, ck_command = 0\<rparr>\<rparr>"

theorem quantum_within_limits_witness:
  "let q = choose_quantum demo_settings demo_node (collect_init demo_settings) True False 48000 in
     q = 1024 \<or> unat q \<le> 8192"
  using quantum_within_limits [of demo_settings demo_node "collect_init demo_settings" True False 48000]
  unfolding Let_def by (auto simp: demo_settings_def demo_node_def)

definition forcing :: "(nat \<Rightarrow> pw_impl_node) \<Rightarrow> nat list \<Rightarrow> nat set" where
  "forcing nodes followers = {s \<in> set followers. force_quantum (nodes s) > 0 \<and> stamp (nodes s) > 0}"

definition forced_by :: "(nat \<Rightarrow> pw_impl_node) \<Rightarrow> nat \<Rightarrow> collected \<Rightarrow> bool" where
  "forced_by nodes s c \<longleftrightarrow> c_def_quantum c = force_quantum (nodes s) \<and> c_min_quantum c = force_quantum (nodes s) \<and>
     c_max_quantum c = force_quantum (nodes s) \<and> c_rate_quantum c = 0 \<and> c_quantum_stamp c = stamp (nodes s) \<and>
     c_force_quantum c"

lemma forced_by_frame [simp]:
  "forced_by nodes j (collect_locks s c) = forced_by nodes j c"
  "forced_by nodes j (collect_force_rate st s c) = forced_by nodes j c"
  "forced_by nodes j (collect_fractions s c) = forced_by nodes j c"
  "forced_by nodes j (collect_running dr self s c) = forced_by nodes j c"
  by (simp_all add: forced_by_def collect_locks_def collect_force_rate_def collect_fractions_def collect_running_def Let_def)

lemma quantum_stamp_frame [simp]:
  "c_quantum_stamp (collect_locks s c) = c_quantum_stamp c"
  "c_quantum_stamp (collect_force_rate st s c) = c_quantum_stamp c"
  "c_quantum_stamp (collect_fractions s c) = c_quantum_stamp c"
  "c_quantum_stamp (collect_running dr self s c) = c_quantum_stamp c"
  by (simp_all add: collect_locks_def collect_force_rate_def collect_fractions_def collect_running_def Let_def)

lemma collect_follower_quantum:
  assumes "clock_force_quantum st = 0" "clock_rate st \<noteq> 0"
  shows "c_quantum_stamp (collect_follower st dr self (nodes s) c) =
      (if force_quantum (nodes s) > 0 \<and> stamp (nodes s) > c_quantum_stamp c then stamp (nodes s) else c_quantum_stamp c)"
    "force_quantum (nodes s) > 0 \<and> stamp (nodes s) > c_quantum_stamp c \<Longrightarrow>
      forced_by nodes s (collect_follower st dr self (nodes s) c)"
    "\<not> (force_quantum (nodes s) > 0 \<and> stamp (nodes s) > c_quantum_stamp c) \<Longrightarrow> forced_by nodes j c \<Longrightarrow>
      forced_by nodes j (collect_follower st dr self (nodes s) c)"
proof -
  let ?take = "force_quantum (nodes s) > 0 \<and> stamp (nodes s) > c_quantum_stamp c"
  show "c_quantum_stamp (collect_follower st dr self (nodes s) c) = (if ?take then stamp (nodes s) else c_quantum_stamp c)"
    using assms by (simp add: collect_follower_def collect_force_quantum_def)
  show "forced_by nodes s (collect_follower st dr self (nodes s) c)" if ?take
    using assms that by (simp add: collect_follower_def) (simp add: collect_force_quantum_def forced_by_def)
  show "forced_by nodes j (collect_follower st dr self (nodes s) c)" if "\<not> ?take" "forced_by nodes j c"
    using assms that unfolding collect_follower_def by (auto simp: collect_force_quantum_def Let_def)
qed

lemma collect_forced:
  assumes "clock_force_quantum st = 0" "clock_rate st \<noteq> 0"
  shows "let c = collect_followers st nodes n fs in
    (forcing nodes fs = {} \<longrightarrow> c_quantum_stamp c = 0) \<and>
    (forcing nodes fs \<noteq> {} \<longrightarrow> (\<exists>s\<in>forcing nodes fs. (\<forall>s'\<in>forcing nodes fs. stamp (nodes s') \<le> stamp (nodes s)) \<and> forced_by nodes s c))"
proof (induction fs rule: rev_induct)
  case Nil
  have "c_quantum_stamp (collect_init st) = 0"
    by (simp add: collect_init_def Let_def split: prod.split)
  thus ?case by (simp add: collect_followers_def forcing_def)
next
  case (snoc s fs)
  let ?c = "collect_followers st nodes n fs"
  let ?c' = "collect_followers st nodes n (fs @ [s])"
  have c': "?c' = collect_follower st (runnable (nodes n)) (s = n) (nodes s) ?c" by (simp add: collect_followers_def)
  let ?take = "force_quantum (nodes s) > 0 \<and> stamp (nodes s) > c_quantum_stamp ?c"
  note q = collect_follower_quantum [OF assms, where dr = "runnable (nodes n)" and self = "s = n" and nodes = nodes and s = s and c = ?c, folded c']
  have st: "forcing nodes fs \<noteq> {} \<Longrightarrow> \<forall>s'\<in>forcing nodes fs. stamp (nodes s') \<le> c_quantum_stamp ?c"
    "forcing nodes fs = {} \<Longrightarrow> c_quantum_stamp ?c = 0"
    using snoc by (auto simp: Let_def forced_by_def)
  have F: "forcing nodes (fs @ [s]) = forcing nodes fs \<union> (if force_quantum (nodes s) > 0 \<and> stamp (nodes s) > 0 then {s} else {})"
    by (auto simp: forcing_def)
  show ?case
  proof (cases ?take)
    case True
    hence "forced_by nodes s ?c'" by (rule q(2))
    moreover have "s \<in> forcing nodes (fs @ [s])" using True unfolding F by (auto intro: le_less_trans)
    moreover have "\<forall>s'\<in>forcing nodes (fs @ [s]). stamp (nodes s') \<le> stamp (nodes s)"
      using True st unfolding F by (fastforce split: if_splits)
    ultimately show ?thesis by (auto simp: Let_def)
  next
    case False
    hence keep: "c_quantum_stamp ?c' = c_quantum_stamp ?c" "\<And>j. forced_by nodes j ?c \<Longrightarrow> forced_by nodes j ?c'"
      using q(1,3) by auto
    show ?thesis
    proof (cases "forcing nodes fs = {}")
      case True
      hence "forcing nodes (fs @ [s]) = {}" using False st(2) unfolding F by auto
      thus ?thesis using keep(1) True st(2) by (simp add: Let_def)
    next
      case ne: False
      then obtain j where j: "j \<in> forcing nodes fs" "\<forall>s'\<in>forcing nodes fs. stamp (nodes s') \<le> stamp (nodes j)" "forced_by nodes j ?c"
        using snoc by (auto simp: Let_def)
      have "j \<in> forcing nodes (fs @ [s])" "\<forall>s'\<in>forcing nodes (fs @ [s]). stamp (nodes s') \<le> stamp (nodes j)"
        using j False unfolding F by (auto simp: forced_by_def)
      thus ?thesis using keep(2) [OF j(3)] by (auto simp: Let_def)
    qed
  qed
qed

text \<open>
  C31: a quantum that followers force is honoured: among the forcing followers the one with the
  latest stamp decides, and while the driver runs and is not being resumed its value becomes the
  quantum, up to the absolute limits of the settings, at every rate and whatever other followers
  ask for or lock.
\<close>

theorem forced_quantum_honoured:
  assumes "clock_force_quantum st = 0" "clock_rate st \<noteq> 0" "forcing nodes fs \<noteq> {}"
  shows "\<exists>s\<in>forcing nodes fs. (\<forall>s'\<in>forcing nodes fs. stamp (nodes s') \<le> stamp (nodes s)) \<and>
    (\<forall>nd r. choose_quantum st nd (collect_followers st nodes n fs) True False r =
       SPA_CLAMP (force_quantum (nodes s)) (clock_quantum_floor st) (clock_quantum_limit st))"
proof -
  obtain s where s: "s \<in> forcing nodes fs" "\<forall>s'\<in>forcing nodes fs. stamp (nodes s') \<le> stamp (nodes s)"
    "forced_by nodes s (collect_followers st nodes n fs)"
    using collect_forced [OF assms(1,2), of nodes n fs] assms(3) by (auto simp: Let_def)
  have "choose_quantum st nd (collect_followers st nodes n fs) True False r =
      SPA_CLAMP (force_quantum (nodes s)) (clock_quantum_floor st) (clock_quantum_limit st)" for nd r
    using s(3) by (simp add: choose_quantum_def scale_quantums_def forced_by_def clamp_point Let_def)
  thus ?thesis using s by blast
qed

theorem forced_quantum_honoured_witness:
  "choose_quantum demo_settings demo_node
     (collect_followers demo_settings (\<lambda>_. demo_node\<lparr>force_quantum := 100\<rparr>) 0 [0]) True False 48000 = 100"
proof -
  have f: "forcing (\<lambda>_. demo_node\<lparr>force_quantum := 100\<rparr>) [0] \<noteq> {}" by (simp add: forcing_def demo_node_def)
  have "clock_force_quantum demo_settings = 0" "clock_rate demo_settings \<noteq> 0" by (simp_all add: demo_settings_def)
  from forced_quantum_honoured [OF this f, of 0]
  have "choose_quantum demo_settings demo_node
     (collect_followers demo_settings (\<lambda>_. demo_node\<lparr>force_quantum := 100\<rparr>) 0 [0]) True False 48000 = SPA_CLAMP 100 4 8192"
    by (auto simp: demo_settings_def)
  thus ?thesis by (simp add: SPA_CLAMP_def)
qed

lemma start_followers_keeps:
  "start_followers running n fs nodes tr = (nodes', tr', reqs) \<Longrightarrow>
   target_pending (nodes' k) = target_pending (nodes k) \<and> clock (nodes' k) = clock (nodes k) \<and>
   target_quantum (nodes' k) = target_quantum (nodes k) \<and> target_rate (nodes' k) = target_rate (nodes k)"
proof (induction running n fs nodes tr arbitrary: nodes' tr' reqs rule: start_followers.induct)
  case (2 running n s rest nodes tr)
  thus ?case by (auto simp: Let_def split: prod.splits if_splits)
qed simp

lemma clear_moved_keeps: "target_pending (clear_moved fs nodes k) = target_pending (nodes k)"
  by (induction fs rule: rev_induct) (auto simp: clear_moved_def)

lemma apply_target_settles:
  "\<not> target_pending (apply_target n) \<and> ck_target_duration (clock (apply_target n)) = target_quantum (apply_target n) \<and>
   ck_target_rate (clock (apply_target n)) = target_rate (apply_target n)"
  by (simp add: apply_target_def Let_def)

lemma update_clock_keeps:
  "target_pending (update_clock now h n) = target_pending n" "target_quantum (update_clock now h n) = target_quantum n"
  "target_rate (update_clock now h n) = target_rate n"
  "ck_target_duration (clock (update_clock now h n)) = ck_target_duration (clock n)"
  "ck_target_rate (clock (update_clock now h n)) = ck_target_rate (clock n)"
  by (simp_all add: update_clock_def Let_def)

lemma reconfigure_driver_pending:
  "reconfigure_driver nodes fs n = (nodes', reqs) \<Longrightarrow> target_pending (nodes' n) = target_pending (nodes n)"
  by (auto simp: reconfigure_driver_def Let_def split: if_splits)

text \<open>
  C33: an evaluation of a driver settles: it asks to start over only for a driver that had no
  pending target and then leaves it pending, so the next evaluation does not ask again; otherwise
  nothing stays pending and the targets of the driver are those published in its clock.
\<close>

theorem recalc_driver_settles:
  "case recalc_driver st now nodes fs n of
     Reconfigure nodes' reqs \<Rightarrow> \<not> target_pending (nodes n) \<and> target_pending (nodes' n)
   | Applied nodes' reqs \<Rightarrow> \<not> target_pending (nodes' n) \<and>
       ck_target_duration (clock (nodes' n)) = target_quantum (nodes' n) \<and>
       ck_target_rate (clock (nodes' n)) = target_rate (nodes' n)"
proof -
  define c where "c = collect_followers st nodes n fs"
  define nd where "nd = (clear_moved fs nodes n)\<lparr>need_resume := False\<rparr>"
  define resume where "resume = need_resume (clear_moved fs nodes n)"
  define running where "running = (c_running c \<or> resume)"
  define r where "r = choose_rate nd c running resume"
  define nd1 where "nd1 = set_target_rate r c nd"
  define q where "q = choose_quantum st nd1 c running resume r"
  define nd2 where "nd2 = set_target_quantum q c nd1"
  define do where "do = (r \<noteq> denom (target_rate nd) \<and> reconfigure_for_rate st nd c \<or>
      q \<noteq> ucast (target_quantum nd1) \<and> c_force_quantum c \<and> \<not> target_pending nd)"
  define ns where "ns = (clear_moved fs nodes)(n := nd2)"
  define nd3 where "nd3 = update_clock now (c_have_request c) (apply_target nd2)"
  have r: "recalc_driver st now nodes fs n = (if target_pending nd2 \<and> do
      then case reconfigure_driver ns fs n of (nodes, reqs) \<Rightarrow> Reconfigure nodes reqs
      else case start_followers running n fs (ns(n := nd3)) PW_NODE_ACTIVATION_COMMAND_NONE of (nodes, tr, reqs) \<Rightarrow>
        let x = (if tr \<noteq> PW_NODE_ACTIVATION_COMMAND_NONE
          then (nodes n)\<lparr>clock := (clock (nodes n))\<lparr>ck_command := tr\<rparr>\<rparr> else nodes n)
        in Applied (nodes(n := x)) (reqs @ [(n, ensure_state x running False)]))"
    unfolding recalc_driver_def Let_def c_def nd_def resume_def running_def r_def nd1_def q_def nd2_def do_def ns_def nd3_def ..
  have p: "target_pending nd = target_pending (nodes n)" by (simp add: nd_def clear_moved_keeps)
  show ?thesis
  proof (cases "target_pending nd2 \<and> do")
    case True
    obtain nodes' reqs where e: "reconfigure_driver ns fs n = (nodes', reqs)" by fastforce
    have "\<not> target_pending nd" using True unfolding do_def reconfigure_for_rate_def by blast
    thus ?thesis using True e reconfigure_driver_pending [OF e] p by (simp add: r ns_def)
  next
    case False
    obtain nodes' tr reqs where e: "start_followers running n fs (ns(n := nd3)) PW_NODE_ACTIVATION_COMMAND_NONE = (nodes', tr, reqs)"
      by (metis surj_pair)
    note k = start_followers_keeps [OF e, of n]
    have "\<not> target_pending (nodes' n) \<and> ck_target_duration (clock (nodes' n)) = target_quantum (nodes' n) \<and>
        ck_target_rate (clock (nodes' n)) = target_rate (nodes' n)"
      using k apply_target_settles [of nd2] by (simp add: nd3_def update_clock_keeps)
    thus ?thesis unfolding r if_not_P [OF False] using e by (simp add: Let_def)
  qed
qed

end
