(* ===== verification/PW_Graph.thy ===== *)
theory PW_Graph
  imports PW_Rates
begin

text \<open>
  The evaluation of the graph in \<^verbatim>\<open>src/modules/module-scheduler-v1.c\<close>: which nodes are runnable, which
  nodes belong together, and which driver schedules them, with \<^verbatim>\<open>pw_impl_node_set_driver\<close>,
  \<^verbatim>\<open>pw_impl_link_prepare\<close> and the string arrays of \<^verbatim>\<open>utils.c\<close> it uses.

  Nodes and links are numbered. \<open>pw_context\<close> holds what an evaluation does not change: the lists, the
  ports and links, the groups. \<open>graph_state\<close> holds what it changes: the nodes of \<open>PW_Rates\<close>, the
  visited flags, the drivers and their follower lists, the links that are being prepared, the node
  states requested so far, and the calls that change the scheduling of the data threads. \<open>pending_state\<close> is
  \<open>None\<close> until a change of driver overwrites it. Preparing a link only queues work, so whether it is prepared does not change.

  Recursion and queue loops take fuel and return \<open>None\<close> when it runs out; the number of nodes is
  enough. Logging, the \<^verbatim>\<open>checked\<close> counter, and the segment owners, peer references, properties and events
  that a change of driver also updates, are left out. A node that syncs has sync groups, as
  \<^verbatim>\<open>check_properties\<close> always gives it some.
\<close>

section \<open>Arrays of strings\<close>

text \<open>A \<^verbatim>\<open>NULL\<close> terminated array; the array pointer may be \<^verbatim>\<open>NULL\<close>.\<close>

type_synonym strv = "string list option"

fun strv_index :: "nat \<Rightarrow> string list \<Rightarrow> string \<Rightarrow> nat res" where
  "strv_index i [] b = Inl ENOENT"
| "strv_index i (x # xs) b = (if x = b then Inr i else strv_index (i + 1) xs b)"

definition pw_strv_find :: "strv \<Rightarrow> string option \<Rightarrow> nat res" where
  "pw_strv_find a b = (case (a, b) of (Some xs, Some x) \<Rightarrow> strv_index 0 xs x | _ \<Rightarrow> Inl EINVAL)"

fun strv_common :: "nat \<Rightarrow> string list \<Rightarrow> strv \<Rightarrow> nat res" where
  "strv_common i [] b = Inl ENOENT"
| "strv_common i (x # xs) b = (case pw_strv_find b (Some x) of Inr _ \<Rightarrow> Inr i | Inl _ \<Rightarrow> strv_common (i + 1) xs b)"

definition pw_strv_find_common :: "strv \<Rightarrow> strv \<Rightarrow> nat res" where
  "pw_strv_find_common a b = (case (a, b) of (Some xs, Some ys) \<Rightarrow> strv_common 0 xs b | _ \<Rightarrow> Inl EINVAL)"

definition found :: "nat res \<Rightarrow> bool" where
  "found r = (case r of Inr _ \<Rightarrow> True | Inl _ \<Rightarrow> False)"

section \<open>The graph\<close>

datatype passive_mode = PASSIVE_MODE_FALSE | PASSIVE_MODE_TRUE | PASSIVE_MODE_FOLLOW | PASSIVE_MODE_FOLLOW_SUSPEND

record pw_impl_port =
  port_mode :: passive_mode
  port_links :: "nat list"

record pw_impl_link =
  output_node :: nat
  output_mode :: passive_mode
  input_node :: nat
  input_mode :: passive_mode
  prepared :: bool
  destroyed :: bool

record graph_node =
  exported :: bool
  always_process :: bool
  is_driver :: bool
  has_clock :: bool
  clock_id :: u32
  freewheel :: bool
  want_driver :: bool
  poll_driver :: bool
  priority_driver :: int
  sync :: bool
  groups :: strv
  link_groups :: strv
  sync_groups :: strv
  output_ports :: "pw_impl_port list"
  input_ports :: "pw_impl_port list"

record pw_context =
  node_list :: "nat list"
  driver_list :: "nat list"
  gnode :: "nat \<Rightarrow> graph_node"
  glink :: "nat \<Rightarrow> pw_impl_link"
  data_threads :: "nat option list"
  thread_utils :: bool

record graph_state =
  nodes :: "nat \<Rightarrow> pw_impl_node"
  visited :: "nat \<Rightarrow> bool"
  preparing :: "nat \<Rightarrow> bool"
  work :: "nat list"
  driving :: "nat \<Rightarrow> bool"
  driver_node :: "nat \<Rightarrow> nat"
  follower_list :: "nat \<Rightarrow> nat list"
  requests :: "(nat \<times> int) list"
  pending_state :: "nat \<Rightarrow> int option"
  freewheeling :: bool
  rt_calls :: "(nat \<times> bool) list"

fun fold_opt :: "('a \<Rightarrow> 's \<Rightarrow> 's option) \<Rightarrow> 'a list \<Rightarrow> 's \<Rightarrow> 's option" where
  "fold_opt f [] s = Some s"
| "fold_opt f (x # xs) s = Option.bind (f x s) (fold_opt f xs)"

text \<open>The nested loops over the ports of a node and their links: the mode of the port and the link.\<close>

definition links_of :: "pw_impl_port list \<Rightarrow> (passive_mode \<times> nat) list" where
  "links_of ports = concat (map (\<lambda>p. map (Pair (port_mode p)) (port_links p)) ports)"

definition is_runnable :: "graph_state \<Rightarrow> nat \<Rightarrow> bool" where
  "is_runnable s n = runnable (nodes s n)"

definition is_active :: "graph_state \<Rightarrow> nat \<Rightarrow> bool" where
  "is_active s n = active (nodes s n)"

definition set_runnable :: "nat \<Rightarrow> graph_state \<Rightarrow> graph_state" where
  "set_runnable n s = s\<lparr>nodes := (nodes s)(n := (nodes s n)\<lparr>runnable := True\<rparr>)\<rparr>"

definition pw_impl_link_prepare :: "pw_context \<Rightarrow> nat \<Rightarrow> graph_state \<Rightarrow> graph_state" where
  "pw_impl_link_prepare c l s =
     (if destroyed (glink c l) \<or> preparing s l \<or> prepared (glink c l) then s
      else s\<lparr>preparing := (preparing s)(l := True), work := work s @ [l]\<rparr>)"

section \<open>Runnable nodes\<close>

definition makes_runnable :: "passive_mode \<Rightarrow> bool" where
  "makes_runnable b = (b \<noteq> PASSIVE_MODE_TRUE)"

text \<open>A link of \<open>make_runnable\<close> with the node and the port at its other end.\<close>

definition follow_link :: "(nat \<Rightarrow> graph_state \<Rightarrow> graph_state option) \<Rightarrow> pw_context \<Rightarrow> nat \<Rightarrow> nat \<Rightarrow> passive_mode \<Rightarrow>
    graph_state \<Rightarrow> graph_state option" where
  "follow_link mk c l n mode s =
     (if \<not> is_active s n \<or> \<not> makes_runnable mode then Some s
      else let s = pw_impl_link_prepare c l s
           in if \<not> prepared (glink c l) then Some s
              else if \<not> is_runnable s n then mk n s else Some s)"

definition follow_group :: "(nat \<Rightarrow> graph_state \<Rightarrow> graph_state option) \<Rightarrow> pw_context \<Rightarrow> nat \<Rightarrow> nat \<Rightarrow>
    graph_state \<Rightarrow> graph_state option" where
  "follow_group mk c node n s =
     (if exported (gnode c n) \<or> \<not> is_active s n \<or> is_runnable s n then Some s
      else if \<not> found (pw_strv_find_common (groups (gnode c n)) (groups (gnode c node))) \<and>
              \<not> found (pw_strv_find_common (link_groups (gnode c n)) (link_groups (gnode c node))) then Some s
      else mk n s)"

primrec make_runnable :: "nat \<Rightarrow> pw_context \<Rightarrow> nat \<Rightarrow> graph_state \<Rightarrow> graph_state option" where
  "make_runnable 0 c node s = None"
| "make_runnable (Suc k) c node s =
     Option.bind (fold_opt (\<lambda>(_, l). follow_link (make_runnable k c) c l (input_node (glink c l)) (input_mode (glink c l)))
         (links_of (output_ports (gnode c node))) (set_runnable node s)) (\<lambda>s.
     Option.bind (fold_opt (\<lambda>(_, l). follow_link (make_runnable k c) c l (output_node (glink c l)) (output_mode (glink c l)))
         (links_of (input_ports (gnode c node))) s) (\<lambda>s.
     if groups (gnode c node) \<noteq> None \<or> link_groups (gnode c node) \<noteq> None
     then fold_opt (follow_group (make_runnable k c) c node) (node_list c) s
     else Some s))"

definition runnable_pair :: "passive_mode \<Rightarrow> passive_mode \<Rightarrow> bool" where
  "runnable_pair a b = (a = PASSIVE_MODE_FALSE \<or> a = PASSIVE_MODE_FOLLOW_SUSPEND \<and> b = PASSIVE_MODE_FOLLOW_SUSPEND)"

text \<open>A link of \<open>check_runnable\<close>: the mode of the own port, the node and the mode at the other end.\<close>

definition check_link :: "nat \<Rightarrow> pw_context \<Rightarrow> nat \<Rightarrow> passive_mode \<Rightarrow> nat \<Rightarrow> nat \<Rightarrow> passive_mode \<Rightarrow>
    graph_state \<Rightarrow> graph_state option" where
  "check_link k c node own l n mode s =
     (if \<not> is_active s n \<or> \<not> runnable_pair own mode then Some s
      else let s = pw_impl_link_prepare c l s
           in if \<not> prepared (glink c l) then Some s
              else Option.bind (make_runnable k c node s) (make_runnable k c n))"

definition check_runnable :: "nat \<Rightarrow> pw_context \<Rightarrow> nat \<Rightarrow> graph_state \<Rightarrow> graph_state option" where
  "check_runnable k c node s =
     Option.bind (if always_process (gnode c node) \<and> \<not> is_runnable s node then make_runnable k c node s else Some s) (\<lambda>s.
     Option.bind (fold_opt (\<lambda>(own, l). check_link k c node own l (input_node (glink c l)) (input_mode (glink c l)))
         (links_of (output_ports (gnode c node))) s) (\<lambda>s.
     fold_opt (\<lambda>(own, l). check_link k c node own l (output_node (glink c l)) (output_mode (glink c l)))
         (links_of (input_ports (gnode c node))) s))"

text \<open>The first two loops of \<^verbatim>\<open>context_recalc_graph\<close>.\<close>

definition clear_flags :: "pw_context \<Rightarrow> graph_state \<Rightarrow> graph_state" where
  "clear_flags c s = s\<lparr>visited := (\<lambda>n. if n \<in> set (node_list c) then False else visited s n),
     nodes := (\<lambda>n. if n \<in> set (node_list c) then (nodes s n)\<lparr>runnable := False\<rparr> else nodes s n)\<rparr>"

definition check_all :: "nat \<Rightarrow> pw_context \<Rightarrow> graph_state \<Rightarrow> graph_state option" where
  "check_all k c s = fold_opt (\<lambda>n s. if exported (gnode c n) \<or> \<not> is_active s n then Some s else check_runnable k c n s)
     (node_list c) s"

section \<open>Nodes that belong together\<close>

abbreviation (input) MAX_SYNC :: nat where "MAX_SYNC \<equiv> 4"

fun add_sync :: "string list \<Rightarrow> string list \<Rightarrow> string list" where
  "add_sync [] syn = syn"
| "add_sync (g # gs) syn =
     (if length syn \<ge> MAX_SYNC then syn
      else if found (pw_strv_find (Some syn) (Some g)) then add_sync gs syn
      else add_sync gs (syn @ [g]))"

definition visit :: "nat \<Rightarrow> (nat \<Rightarrow> bool) \<times> nat list \<Rightarrow> (nat \<Rightarrow> bool) \<times> nat list" where
  "visit t vq = (case vq of (v, q) \<Rightarrow> if \<not> v t then (v(t := True), q @ [t]) else (v, q))"

definition visit_group :: "pw_context \<Rightarrow> nat \<Rightarrow> string list \<Rightarrow> nat \<Rightarrow> (nat \<Rightarrow> bool) \<times> nat list \<Rightarrow> (nat \<Rightarrow> bool) \<times> nat list" where
  "visit_group c n syn t vq =
     (if exported (gnode c t) \<or> fst vq t then vq
      else if \<not> found (pw_strv_find_common (groups (gnode c t)) (groups (gnode c n))) \<and>
              \<not> found (pw_strv_find_common (link_groups (gnode c t)) (link_groups (gnode c n))) \<and>
              \<not> found (pw_strv_find_common (sync_groups (gnode c t)) (Some syn)) then vq
      else visit t vq)"

definition visit_peers :: "pw_context \<Rightarrow> nat \<Rightarrow> string list \<Rightarrow> (nat \<Rightarrow> bool) \<times> nat list \<Rightarrow> (nat \<Rightarrow> bool) \<times> nat list" where
  "visit_peers c n syn vq =
     (let vq = fold (\<lambda>(_, l). visit (output_node (glink c l))) (links_of (input_ports (gnode c n))) vq;
          vq = fold (\<lambda>(_, l). visit (input_node (glink c l))) (links_of (output_ports (gnode c n))) vq
      in if groups (gnode c n) \<noteq> None \<or> link_groups (gnode c n) \<noteq> None \<or> syn \<noteq> []
         then fold (visit_group c n syn) (node_list c) vq else vq)"

fun collect_loop :: "nat \<Rightarrow> pw_context \<Rightarrow> nat list \<Rightarrow> string list \<Rightarrow> (nat \<Rightarrow> bool) \<Rightarrow> nat list \<Rightarrow>
    ((nat \<Rightarrow> bool) \<times> nat list) option" where
  "collect_loop k c [] syn v col = Some (v, col)"
| "collect_loop 0 c (n # queue) syn v col = None"
| "collect_loop (Suc k) c (n # queue) syn v col =
     (let syn = (if sync (gnode c n) then add_sync (case sync_groups (gnode c n) of None \<Rightarrow> [] | Some gs \<Rightarrow> gs) syn else syn);
          (v, queue) = visit_peers c n syn (v, queue)
      in collect_loop k c queue syn v (col @ [n]))"

definition collect_nodes :: "nat \<Rightarrow> pw_context \<Rightarrow> nat \<Rightarrow> graph_state \<Rightarrow> (graph_state \<times> nat list) option" where
  "collect_nodes k c node s =
     Option.bind (collect_loop k c [node] [] ((visited s)(node := True)) []) (\<lambda>(v, col). Some (s\<lparr>visited := v\<rparr>, col))"

section \<open>Drivers\<close>

text \<open>
  Whether a node drives, as \<^verbatim>\<open>pw_impl_node_set_io\<close> computes it when the node is given the position of
  \<open>driver\<close>: the clock in that position is the clock of the node.
\<close>

definition node_driving :: "pw_context \<Rightarrow> nat \<Rightarrow> nat \<Rightarrow> bool" where
  "node_driving c node driver =
     (is_driver (gnode c node) \<and> has_clock (gnode c node) \<and> clock_id (gnode c driver) = clock_id (gnode c node))"

text \<open>\<open>None\<close> for the driver is \<^verbatim>\<open>NULL\<close>. The result of the C function is ignored by the scheduler.\<close>

definition pw_impl_node_set_driver :: "pw_context \<Rightarrow> nat \<Rightarrow> nat option \<Rightarrow> graph_state \<Rightarrow> graph_state" where
  "pw_impl_node_set_driver c node driver' s =
     (if poll_driver (gnode c node) \<and> driver' \<noteq> None \<and> driver' \<noteq> Some node then s
      else let old = driver_node s node;
               driver = (case driver' of None \<Rightarrow> node | Some d \<Rightarrow> d);
               fl = (follower_list s)(old := removeAll node (follower_list s old));
               s = s\<lparr>follower_list := fl(driver := fl driver @ [node])\<rparr>
           in if old = driver then s
              else s\<lparr>driver_node := (driver_node s)(node := driver),
                     nodes := (nodes s)(node := (nodes s node)\<lparr>moved := True\<rparr>),
                     driving := (driving s)(node := node_driving c node driver),
                     pending_state := (if driving s node \<and> \<not> node_driving c node driver
                       then (pending_state s)(node := Some (info_state (nodes s node))) else pending_state s)\<rparr>)"

definition move_node :: "pw_context \<Rightarrow> nat \<Rightarrow> nat \<Rightarrow> graph_state \<Rightarrow> graph_state" where
  "move_node c driver n s =
     (let s = s\<lparr>nodes := (nodes s)(driver := (nodes s driver)\<lparr>runnable := is_runnable s driver \<or> is_runnable s n\<rparr>)\<rparr>
      in pw_impl_node_set_driver c n (Some driver) s)"


definition remove_node :: "pw_context \<Rightarrow> nat \<Rightarrow> graph_state \<Rightarrow> graph_state" where
  "remove_node c n s =
     (let s = pw_impl_node_set_driver c n None s
      in s\<lparr>requests := requests s @ [(n, ensure_state (nodes s n) False False)]\<rparr>)"




text \<open>
  The threads of the data loops that have one leave (\<open>True\<close>) or acquire real-time scheduling; errors are only
  logged.
\<close>

definition pw_context_set_freewheel :: "pw_context \<Rightarrow> bool \<Rightarrow> graph_state \<Rightarrow> graph_state" where
  "pw_context_set_freewheel c fw s =
     (if freewheeling s = fw then s
      else s\<lparr>rt_calls := rt_calls s @ (if thread_utils c then map (\<lambda>thr. (thr, fw)) (List.map_filter id (data_threads c)) else []),
             freewheeling := fw\<rparr>)"







section \<open>What making a node runnable does\<close>

text \<open>An invariant of the steps of a loop is an invariant of the loop.\<close>

lemma fold_opt_inv:
  assumes "fold_opt f xs s = Some s'" "I s" "\<And>x s s'. x \<in> set xs \<Longrightarrow> I s \<Longrightarrow> f x s = Some s' \<Longrightarrow> I s'"
  shows "I s'"
  using assms
proof (induction xs arbitrary: s)
  case (Cons x xs)
  obtain t where t: "f x s = Some t" "fold_opt f xs t = Some s'" using Cons.prems(1) by (auto simp: bind_eq_Some_conv)
  have "I t" using Cons.prems(3) [of x s t] Cons.prems(2) t(1) by simp
  thus ?case using Cons.prems(3) by (intro Cons.IH [OF t(2)]) (auto intro: Cons.prems(3))
qed simp

text \<open>What the step for an element establishes, and later steps keep, holds for all elements at the end.\<close>

lemma fold_opt_each:
  assumes "fold_opt f xs s = Some s'" "I s"
    "\<And>x s s'. x \<in> set xs \<Longrightarrow> I s \<Longrightarrow> f x s = Some s' \<Longrightarrow> I s' \<and> Q x s'"
    "\<And>x y s s'. y \<in> set xs \<Longrightarrow> I s \<Longrightarrow> f y s = Some s' \<Longrightarrow> Q x s \<Longrightarrow> Q x s'"
  shows "I s' \<and> (\<forall>x\<in>set xs. Q x s')"
  using assms
proof (induction xs arbitrary: s)
  case (Cons x xs)
  obtain t where t: "f x s = Some t" "fold_opt f xs t = Some s'" using Cons.prems(1) by (auto simp: bind_eq_Some_conv)
  have i: "I t" "Q x t" using Cons.prems(3) [of x s t] Cons.prems(2) t(1) by simp_all
  have r: "I s' \<and> (\<forall>x\<in>set xs. Q x s')"
    by (rule Cons.IH [OF t(2) i(1)]; meson Cons.prems(3,4) list.set_intros(2))
  have "I s' \<and> Q x s'"
    by (rule fold_opt_inv [OF t(2)]; meson i Cons.prems(3,4) list.set_intros(2))
  thus ?case using r by simp
qed simp

text \<open>Only runnable flags and the preparation of links change: \<open>ext s s'\<close>.\<close>

definition ext :: "graph_state \<Rightarrow> graph_state \<Rightarrow> bool" where
  "ext s s' \<longleftrightarrow> (\<exists>f p w. s' = s\<lparr>nodes := (\<lambda>n. (nodes s n)\<lparr>runnable := f n\<rparr>), preparing := p, work := w\<rparr> \<and>
     (\<forall>n. is_runnable s n \<longrightarrow> f n))"

lemma extI:
  "(\<And>n. is_runnable s n \<Longrightarrow> f n) \<Longrightarrow>
   ext s (s\<lparr>nodes := (\<lambda>n. (nodes s n)\<lparr>runnable := f n\<rparr>), preparing := p, work := w\<rparr>)"
  unfolding ext_def by blast

lemma ext_refl [simp]: "ext s s"
proof -
  have "s = s\<lparr>nodes := (\<lambda>n. (nodes s n)\<lparr>runnable := is_runnable s n\<rparr>), preparing := preparing s, work := work s\<rparr>"
    by (simp add: is_runnable_def)
  thus ?thesis unfolding ext_def by blast
qed

lemma ext_trans: "ext s t \<Longrightarrow> ext t u \<Longrightarrow> ext s u"
  unfolding ext_def is_runnable_def by fastforce

lemma ext_active: "ext s s' \<Longrightarrow> is_active s' n = is_active s n"
  by (auto simp: ext_def is_active_def)

lemma ext_runnable: "ext s s' \<Longrightarrow> is_runnable s n \<Longrightarrow> is_runnable s' n"
  by (auto simp: ext_def is_runnable_def)

lemma ext_prepare: "ext s (pw_impl_link_prepare c l s)"
proof -
  have "pw_impl_link_prepare c l s = s\<lparr>nodes := (\<lambda>n. (nodes s n)\<lparr>runnable := is_runnable s n\<rparr>),
      preparing := preparing (pw_impl_link_prepare c l s), work := work (pw_impl_link_prepare c l s)\<rparr>"
    by (simp add: pw_impl_link_prepare_def is_runnable_def)
  thus ?thesis unfolding ext_def by blast
qed

lemma ext_set_runnable: "ext s (set_runnable n s)"
proof -
  have "set_runnable n s = s\<lparr>nodes := (\<lambda>k. (nodes s k)\<lparr>runnable := is_runnable s k \<or> k = n\<rparr>),
      preparing := preparing s, work := work s\<rparr>"
    by (simp add: set_runnable_def is_runnable_def fun_eq_iff)
  thus ?thesis using extI [where s = s and f = "\<lambda>k. is_runnable s k \<or> k = n" and p = "preparing s" and w = "work s"] by simp
qed

lemma runnable_simps [simp]:
  "is_runnable (pw_impl_link_prepare c l s) n = is_runnable s n"
  "is_active (pw_impl_link_prepare c l s) n = is_active s n"
  "is_runnable (set_runnable m s) n \<longleftrightarrow> is_runnable s n \<or> n = m"
  "is_active (set_runnable m s) n = is_active s n"
  by (simp_all add: pw_impl_link_prepare_def set_runnable_def is_runnable_def is_active_def)

text \<open>\<open>makes c act a b\<close>: when \<open>a\<close> is made runnable so is \<open>b\<close>; \<open>act\<close> are the active nodes.\<close>

definition group_mates :: "pw_context \<Rightarrow> nat \<Rightarrow> nat \<Rightarrow> bool" where
  "group_mates c a b \<longleftrightarrow> found (pw_strv_find_common (groups (gnode c b)) (groups (gnode c a))) \<or>
     found (pw_strv_find_common (link_groups (gnode c b)) (link_groups (gnode c a)))"

inductive makes :: "pw_context \<Rightarrow> (nat \<Rightarrow> bool) \<Rightarrow> nat \<Rightarrow> nat \<Rightarrow> bool" for c act where
  out_link: "(p, l) \<in> set (links_of (output_ports (gnode c a))) \<Longrightarrow> act (input_node (glink c l)) \<Longrightarrow>
    makes_runnable (input_mode (glink c l)) \<Longrightarrow> prepared (glink c l) \<Longrightarrow> makes c act a (input_node (glink c l))"
| in_link: "(p, l) \<in> set (links_of (input_ports (gnode c a))) \<Longrightarrow> act (output_node (glink c l)) \<Longrightarrow>
    makes_runnable (output_mode (glink c l)) \<Longrightarrow> prepared (glink c l) \<Longrightarrow> makes c act a (output_node (glink c l))"
| group: "b \<in> set (node_list c) \<Longrightarrow> \<not> exported (gnode c b) \<Longrightarrow> act b \<Longrightarrow> group_mates c a b \<Longrightarrow> makes c act a b"

inductive_cases makesE: "makes c act a b"

lemma group_mates_groups: "group_mates c a b \<Longrightarrow> groups (gnode c a) \<noteq> None \<or> link_groups (gnode c a) \<noteq> None"
  by (auto simp: group_mates_def found_def pw_strv_find_common_def split: option.splits)

text \<open>What a call of \<open>make_runnable\<close> achieves, and what a loop over peers has achieved so far.\<close>

definition reached :: "pw_context \<Rightarrow> (nat \<Rightarrow> bool) \<Rightarrow> nat \<Rightarrow> graph_state \<Rightarrow> graph_state \<Rightarrow> bool" where
  "reached c act node s s' \<longleftrightarrow> ext s s' \<and> is_active s = act \<and>
     (\<forall>a. is_runnable s' a \<longrightarrow> is_runnable s a \<or> (makes c act)\<^sup>*\<^sup>* node a) \<and>
     (\<forall>a b. is_runnable s' a \<and> \<not> is_runnable s a \<and> makes c act a b \<longrightarrow> is_runnable s' b)"

definition made :: "pw_context \<Rightarrow> (nat \<Rightarrow> bool) \<Rightarrow> nat \<Rightarrow> graph_state \<Rightarrow> graph_state \<Rightarrow> bool" where
  "made c act node s s' \<longleftrightarrow> reached c act node s s' \<and> is_runnable s' node \<and> (\<forall>b. makes c act node b \<longrightarrow> is_runnable s' b)"

lemma reached_refl: "is_active s = act \<Longrightarrow> reached c act node s s"
  by (auto simp: reached_def)

lemma reached_prepare: "reached c act node s t \<Longrightarrow> reached c act node s (pw_impl_link_prepare c l t)"
  unfolding reached_def by (auto intro: ext_trans ext_prepare)

lemma made_facts:
  assumes "made c act node s s'"
  shows "ext s s'" "reached c act node s s'" "is_runnable s' node" "makes c act node b \<Longrightarrow> is_runnable s' b"
  using assms by (auto simp: made_def reached_def)

lemma reached_made:
  assumes "reached c act node s t" "made c act n t u" "makes c act node n"
  shows "reached c act node s u"
proof -
  have r: "reached c act n t u" using assms(2) by (simp add: made_def)
  have "(makes c act)\<^sup>*\<^sup>* node a" if "(makes c act)\<^sup>*\<^sup>* n a" for a
    using assms(3) that by (rule converse_rtranclp_into_rtranclp)
  thus ?thesis using assms(1) r ext_trans ext_runnable unfolding reached_def by meson
qed

lemma reached_active: "reached c act node s t \<Longrightarrow> is_active t = act"
  unfolding reached_def using ext_active by blast

lemma follow_link_step:
  assumes mk: "\<forall>n s s'. is_active s = act \<longrightarrow> mk n s = Some s' \<longrightarrow> made c act n s s'"
    and r: "reached c act node s0 s" and f: "follow_link mk c l n mode s = Some s'"
    and e: "act n \<Longrightarrow> makes_runnable mode \<Longrightarrow> prepared (glink c l) \<Longrightarrow> makes c act node n"
  shows "reached c act node s0 s' \<and> ext s s' \<and> (act n \<and> makes_runnable mode \<and> prepared (glink c l) \<longrightarrow> is_runnable s' n)"
proof -
  have a: "is_active s = act" by (rule reached_active [OF r])
  show ?thesis
  proof (cases "act n \<and> makes_runnable mode \<and> prepared (glink c l) \<and> \<not> is_runnable s n")
    case True
    let ?t = "pw_impl_link_prepare c l s"
    have m: "made c act n ?t s'" using True f a by (intro mk [rule_format]) (simp_all add: follow_link_def Let_def fun_eq_iff)
    have "reached c act node s0 s'" by (rule reached_made [OF reached_prepare [OF r] m]) (use True e in simp)
    moreover have "ext s s'" by (rule ext_trans [OF ext_prepare made_facts(1) [OF m]])
    ultimately show ?thesis using made_facts(3) [OF m] by simp
  next
    case False
    hence "s' = s \<or> s' = pw_impl_link_prepare c l s" "act n \<and> makes_runnable mode \<and> prepared (glink c l) \<longrightarrow> is_runnable s n"
      using f a by (auto simp: follow_link_def Let_def split: if_splits)
    thus ?thesis using r reached_prepare [OF r] ext_prepare by auto
  qed
qed

lemma follow_group_alt:
  "follow_group mk c node n s = (if \<not> exported (gnode c n) \<and> is_active s n \<and> \<not> is_runnable s n \<and> group_mates c node n then mk n s else Some s)"
  by (simp add: follow_group_def group_mates_def)

lemma follow_group_step:
  assumes mk: "\<forall>n s s'. is_active s = act \<longrightarrow> mk n s = Some s' \<longrightarrow> made c act n s s'"
    and r: "reached c act node s0 s" and f: "follow_group mk c node n s = Some s'" and n: "n \<in> set (node_list c)"
  shows "reached c act node s0 s' \<and> ext s s' \<and>
    (\<not> exported (gnode c n) \<and> act n \<and> group_mates c node n \<longrightarrow> is_runnable s' n)"
proof -
  have a: "is_active s = act" by (rule reached_active [OF r])
  show ?thesis
  proof (cases "\<not> exported (gnode c n) \<and> act n \<and> \<not> is_runnable s n \<and> group_mates c node n")
    case True
    have "mk n s = Some s'" using True f by (simp add: follow_group_alt a)
    hence m: "made c act n s s'" by (rule mk [rule_format, OF a])
    have "reached c act node s0 s'" by (rule reached_made [OF r m makes.group]) (use True n in simp_all)
    thus ?thesis using made_facts [OF m] by simp
  next
    case False
    hence "s' = s" using f by (auto simp: follow_group_alt a split: if_splits)
    thus ?thesis using r False by auto
  qed
qed

lemma follow_links_loop:
  assumes mk: "\<forall>n s s'. is_active s = act \<longrightarrow> mk n s = Some s' \<longrightarrow> made c act n s s'"
    and r: "reached c act node s0 s"
    and f: "fold_opt (\<lambda>(_, l). follow_link mk c l (peer l) (mode l)) xs s = Some s'"
    and e: "\<And>p l. (p, l) \<in> set xs \<Longrightarrow> act (peer l) \<Longrightarrow> makes_runnable (mode l) \<Longrightarrow> prepared (glink c l) \<Longrightarrow>
      makes c act node (peer l)"
  shows "(reached c act node s0 s' \<and> ext s s') \<and> (\<forall>x\<in>set xs. act (peer (snd x)) \<and> makes_runnable (mode (snd x)) \<and>
      prepared (glink c (snd x)) \<longrightarrow> is_runnable s' (peer (snd x)))"
proof (rule fold_opt_each [OF f])
  show "reached c act node s0 s \<and> ext s s" using r by simp
next
  fix x t u assume x: "x \<in> set xs" "reached c act node s0 t \<and> ext s t" "(case x of (_, l) \<Rightarrow> follow_link mk c l (peer l) (mode l)) t = Some u"
  obtain p l where pl: "x = (p, l)" by fastforce
  have "reached c act node s0 u \<and> ext t u \<and> (act (peer l) \<and> makes_runnable (mode l) \<and> prepared (glink c l) \<longrightarrow> is_runnable u (peer l))"
    by (rule follow_link_step [OF mk]) (use x pl e [of p l] in simp_all)
  thus "(reached c act node s0 u \<and> ext s u) \<and> (act (peer (snd x)) \<and> makes_runnable (mode (snd x)) \<and>
      prepared (glink c (snd x)) \<longrightarrow> is_runnable u (peer (snd x)))"
    using x(2) ext_trans pl by auto
next
  fix x y t u assume y: "y \<in> set xs" "reached c act node s0 t \<and> ext s t" "(case y of (_, l) \<Rightarrow> follow_link mk c l (peer l) (mode l)) t = Some u"
    and q: "act (peer (snd x)) \<and> makes_runnable (mode (snd x)) \<and> prepared (glink c (snd x)) \<longrightarrow> is_runnable t (peer (snd x))"
  obtain p l where pl: "y = (p, l)" by fastforce
  have "reached c act node s0 u \<and> ext t u \<and> (act (peer l) \<and> makes_runnable (mode l) \<and> prepared (glink c l) \<longrightarrow> is_runnable u (peer l))"
    by (rule follow_link_step [OF mk]) (use y pl e [of p l] in simp_all)
  thus "act (peer (snd x)) \<and> makes_runnable (mode (snd x)) \<and> prepared (glink c (snd x)) \<longrightarrow> is_runnable u (peer (snd x))"
    using q ext_runnable [of t u "peer (snd x)"] by simp
qed

lemma follow_groups_loop:
  assumes mk: "\<forall>n s s'. is_active s = act \<longrightarrow> mk n s = Some s' \<longrightarrow> made c act n s s'"
    and r: "reached c act node s0 s" and f: "fold_opt (follow_group mk c node) xs s = Some s'"
    and xs: "set xs \<subseteq> set (node_list c)"
  shows "(reached c act node s0 s' \<and> ext s s') \<and>
    (\<forall>n\<in>set xs. \<not> exported (gnode c n) \<and> act n \<and> group_mates c node n \<longrightarrow> is_runnable s' n)"
proof (rule fold_opt_each [OF f])
  show "reached c act node s0 s \<and> ext s s" using r by simp
next
  fix n t u assume h: "n \<in> set xs" "reached c act node s0 t \<and> ext s t" "follow_group mk c node n t = Some u"
  note st = follow_group_step [OF mk conjunct1 [OF h(2)] h(3) subsetD [OF xs h(1)]]
  thus "(reached c act node s0 u \<and> ext s u) \<and>
      (\<not> exported (gnode c n) \<and> act n \<and> group_mates c node n \<longrightarrow> is_runnable u n)"
    using h(2) ext_trans [of s t u] by simp
next
  fix n m t u assume h: "m \<in> set xs" "reached c act node s0 t \<and> ext s t" "follow_group mk c node m t = Some u"
    and q: "\<not> exported (gnode c n) \<and> act n \<and> group_mates c node n \<longrightarrow> is_runnable t n"
  have "ext t u" using follow_group_step [OF mk conjunct1 [OF h(2)] h(3) subsetD [OF xs h(1)]] by simp
  thus "\<not> exported (gnode c n) \<and> act n \<and> group_mates c node n \<longrightarrow> is_runnable u n"
    using q ext_runnable [of t u n] by simp
qed

text \<open>The three loops of one call, given what the recursive calls achieve.\<close>

lemma make_runnable_loops:
  assumes mk: "\<forall>n s s'. is_active s = act \<longrightarrow> make_runnable k c n s = Some s' \<longrightarrow> made c act n s s'"
    and a: "is_active s = act" and m: "make_runnable (Suc k) c node s = Some s'"
  shows "reached c act node (set_runnable node s) s' \<and> (\<forall>b. makes c act node b \<longrightarrow> is_runnable s' b)"
proof -
  define s0 where "s0 = set_runnable node s"
  have r0: "reached c act node s0 s0" using a by (intro reached_refl) (simp add: s0_def fun_eq_iff)
  obtain s1 s2 where
    o: "fold_opt (\<lambda>(_, l). follow_link (make_runnable k c) c l (input_node (glink c l)) (input_mode (glink c l)))
      (links_of (output_ports (gnode c node))) s0 = Some s1"
    and i: "fold_opt (\<lambda>(_, l). follow_link (make_runnable k c) c l (output_node (glink c l)) (output_mode (glink c l)))
      (links_of (input_ports (gnode c node))) s1 = Some s2"
    and g: "(if groups (gnode c node) \<noteq> None \<or> link_groups (gnode c node) \<noteq> None
      then fold_opt (follow_group (make_runnable k c) c node) (node_list c) s2 else Some s2) = Some s'"
    using m by (auto simp: bind_eq_Some_conv s0_def)
  have O: "(reached c act node s0 s1 \<and> ext s0 s1) \<and> (\<forall>x\<in>set (links_of (output_ports (gnode c node))).
      act (input_node (glink c (snd x))) \<and> makes_runnable (input_mode (glink c (snd x))) \<and> prepared (glink c (snd x)) \<longrightarrow>
      is_runnable s1 (input_node (glink c (snd x))))"
    by (rule follow_links_loop [OF mk r0 o]) (blast intro: makes.out_link)
  hence r1: "reached c act node s0 s1" by simp
  have I: "(reached c act node s0 s2 \<and> ext s1 s2) \<and> (\<forall>x\<in>set (links_of (input_ports (gnode c node))).
      act (output_node (glink c (snd x))) \<and> makes_runnable (output_mode (glink c (snd x))) \<and> prepared (glink c (snd x)) \<longrightarrow>
      is_runnable s2 (output_node (glink c (snd x))))"
    by (rule follow_links_loop [OF mk r1 i]) (blast intro: makes.in_link)
  hence r2: "reached c act node s0 s2" by simp
  have G: "reached c act node s0 s' \<and> ext s2 s' \<and>
      (\<forall>n\<in>set (node_list c). \<not> exported (gnode c n) \<and> act n \<and> group_mates c node n \<longrightarrow> is_runnable s' n)"
  proof (cases "groups (gnode c node) \<noteq> None \<or> link_groups (gnode c node) \<noteq> None")
    case True
    with g have "fold_opt (follow_group (make_runnable k c) c node) (node_list c) s2 = Some s'" by simp
    from follow_groups_loop [OF mk r2 this] show ?thesis by blast
  next
    case False
    hence "s' = s2" "\<not> group_mates c node n" for n using g group_mates_groups [of c node n] by auto
    thus ?thesis using r2 by simp
  qed
  have e: "ext s1 s'" "ext s2 s'" using I G ext_trans by auto
  have succ: "is_runnable s' b" if "makes c act node b" for b
    using that
  proof (rule makesE)
    fix p l assume "b = input_node (glink c l)" "(p, l) \<in> set (links_of (output_ports (gnode c node)))"
      "act (input_node (glink c l))" "makes_runnable (input_mode (glink c l))" "prepared (glink c l)"
    thus ?thesis using O e(1) ext_runnable by fastforce
  next
    fix p l assume "b = output_node (glink c l)" "(p, l) \<in> set (links_of (input_ports (gnode c node)))"
      "act (output_node (glink c l))" "makes_runnable (output_mode (glink c l))" "prepared (glink c l)"
    thus ?thesis using I e(2) ext_runnable by fastforce
  next
    assume "b \<in> set (node_list c)" "\<not> exported (gnode c b)" "act b" "group_mates c node b"
    thus ?thesis using G by blast
  qed
  thus ?thesis using G by (simp add: s0_def)
qed

lemma make_runnable_made:
  assumes "is_active s = act" "make_runnable k c node s = Some s'"
  shows "made c act node s s'"
  using assms
proof (induction k arbitrary: node s s')
  case (Suc k)
  have mk: "\<forall>n s s'. is_active s = act \<longrightarrow> make_runnable k c n s = Some s' \<longrightarrow> made c act n s s'" using Suc.IH by blast
  have G: "reached c act node (set_runnable node s) s'" and succ: "\<And>b. makes c act node b \<Longrightarrow> is_runnable s' b"
    using make_runnable_loops [OF mk Suc.prems] by auto
  have n: "is_runnable s' node" using G ext_runnable [of "set_runnable node s" s' node] by (simp add: reached_def)
  have "reached c act node s s'"
    unfolding reached_def
  proof (intro conjI allI impI)
    show "ext s s'" using G ext_trans [OF ext_set_runnable] by (auto simp: reached_def)
    show "is_active s = act" by (rule Suc.prems(1))
    fix a assume "is_runnable s' a"
    thus "is_runnable s a \<or> (makes c act)\<^sup>*\<^sup>* node a" using G by (auto simp: reached_def)
  next
    fix a b assume "is_runnable s' a \<and> \<not> is_runnable s a \<and> makes c act a b"
    thus "is_runnable s' b" using G succ by (cases "a = node") (auto simp: reached_def)
  qed
  thus ?case using n succ by (simp add: made_def)
qed simp

text \<open>With enough fuel it returns: every nested call is for a node that was not runnable yet.\<close>

definition wf_graph :: "nat \<Rightarrow> pw_context \<Rightarrow> bool" where
  "wf_graph N c \<longleftrightarrow> (\<forall>n\<in>set (node_list c) \<union> set (driver_list c). n < N) \<and>
     (\<forall>n<N. (\<forall>x\<in>set (links_of (output_ports (gnode c n))). input_node (glink c (snd x)) < N) \<and>
            (\<forall>x\<in>set (links_of (input_ports (gnode c n))). output_node (glink c (snd x)) < N))"

definition waiting :: "nat \<Rightarrow> graph_state \<Rightarrow> nat" where
  "waiting N s = card {n. n < N \<and> \<not> is_runnable s n}"

lemma waiting_mono: "ext s t \<Longrightarrow> waiting N t \<le> waiting N s"
  unfolding waiting_def by (rule card_mono) (auto dest: ext_runnable)

lemma waiting_le: "waiting N s \<le> N"
  unfolding waiting_def using card_mono [of "{..<N}" "{n. n < N \<and> \<not> is_runnable s n}"] by auto

lemma waiting_set: "n < N \<Longrightarrow> \<not> is_runnable s n \<Longrightarrow> waiting N (set_runnable n s) < waiting N s"
  unfolding waiting_def by (rule psubset_card_mono) auto

lemma fold_opt_some:
  assumes "I s" "\<forall>x\<in>set xs. \<forall>s. I s \<longrightarrow> (\<exists>s'. f x s = Some s' \<and> I s')"
  shows "\<exists>s'. fold_opt f xs s = Some s' \<and> I s'"
  using assms by (induction xs arbitrary: s) fastforce+

lemma make_runnable_ext: "make_runnable k c n s = Some s' \<Longrightarrow> ext s s'"
  using make_runnable_made [OF refl] made_facts(1) by blast

lemma follow_link_some:
  assumes "\<forall>s. ext s0 s \<and> \<not> is_runnable s n \<longrightarrow> make_runnable k c n s \<noteq> None" "ext s0 s"
  shows "\<exists>s'. follow_link (make_runnable k c) c l n mode s = Some s' \<and> ext s0 s'"
proof -
  let ?t = "pw_impl_link_prepare c l s"
  have t: "ext s0 ?t" using assms(2) ext_prepare ext_trans by blast
  show ?thesis
  proof (cases "is_runnable s n")
    case True
    thus ?thesis using t assms(2) by (simp add: follow_link_def Let_def)
  next
    case False
    then obtain u where u: "make_runnable k c n ?t = Some u" using assms(1) t by fastforce
    hence "ext s0 u" using make_runnable_ext ext_trans t by blast
    thus ?thesis using u t assms(2) by (simp add: follow_link_def Let_def)
  qed
qed

lemma follow_links_some:
  assumes "\<forall>n<N. \<forall>s. ext s0 s \<and> \<not> is_runnable s n \<longrightarrow> make_runnable k c n s \<noteq> None"
    and xs: "\<forall>x\<in>set xs. peer (snd x) < N" and s: "ext s0 s"
  shows "\<exists>s'. fold_opt (\<lambda>(_, l). follow_link (make_runnable k c) c l (peer l) (mode l)) xs s = Some s' \<and> ext s0 s'"
proof (rule fold_opt_some [where I = "ext s0", OF s], intro ballI allI impI)
  fix x t assume x: "x \<in> set xs" "ext s0 t"
  obtain p l where pl: "x = (p, l)" by fastforce
  show "\<exists>s'. (case x of (_, l) \<Rightarrow> follow_link (make_runnable k c) c l (peer l) (mode l)) t = Some s' \<and> ext s0 s'"
    unfolding pl prod.case by (rule follow_link_some [OF _ x(2)]) (use xs x(1) assms(1) pl in auto)
qed

lemma follow_group_some:
  assumes "\<forall>s. ext s0 s \<and> \<not> is_runnable s n \<longrightarrow> make_runnable k c n s \<noteq> None" "ext s0 s"
  shows "\<exists>s'. follow_group (make_runnable k c) c node n s = Some s' \<and> ext s0 s'"
proof (cases "is_runnable s n")
  case False
  then obtain u where u: "make_runnable k c n s = Some u" using assms by fastforce
  hence "ext s0 u" using make_runnable_ext ext_trans assms(2) by blast
  thus ?thesis using u assms(2) by (simp add: follow_group_alt)
qed (use assms(2) in \<open>simp add: follow_group_alt\<close>)

lemma make_runnable_some:
  assumes "wf_graph N c" "node < N" "if is_runnable s node then waiting N s < k else waiting N s \<le> k" "0 < k"
  shows "make_runnable k c node s \<noteq> None"
  using assms(2-)
proof (induction k arbitrary: node s)
  case (Suc k)
  define s0 where "s0 = set_runnable node s"
  have w0: "waiting N s0 \<le> k"
    using Suc.prems waiting_set [of node N s] waiting_mono [OF ext_set_runnable [where n = node and s = s], where N = N] by (auto simp: s0_def split: if_splits)
  have call: "\<forall>s. ext s0 s \<and> \<not> is_runnable s n \<longrightarrow> make_runnable k c n s \<noteq> None" if "n < N" for n
  proof (intro allI impI)
    fix s assume h: "ext s0 s \<and> \<not> is_runnable s n"
    have "waiting N s \<le> k" using waiting_mono [of s0 s N] h w0 by simp
    moreover have "0 < waiting N s" using waiting_set [OF \<open>n < N\<close>, of s] h by auto
    ultimately show "make_runnable k c n s \<noteq> None" using Suc.IH [of n s] h \<open>n < N\<close> by auto
  qed
  hence calls: "\<forall>n<N. \<forall>s. ext s0 s \<and> \<not> is_runnable s n \<longrightarrow> make_runnable k c n s \<noteq> None" by blast
  have o: "\<forall>x\<in>set (links_of (output_ports (gnode c node))). input_node (glink c (snd x)) < N"
    and i: "\<forall>x\<in>set (links_of (input_ports (gnode c node))). output_node (glink c (snd x)) < N"
    using assms(1) Suc.prems(1) by (auto simp: wf_graph_def)
  have g: "\<exists>s3. fold_opt (follow_group (make_runnable k c) c node) (node_list c) s2 = Some s3 \<and> ext s0 s3" if "ext s0 s2" for s2
  proof (rule fold_opt_some [where I = "ext s0", OF that], intro ballI allI impI)
    fix n s assume "n \<in> set (node_list c)" "ext s0 s"
    thus "\<exists>s'. follow_group (make_runnable k c) c node n s = Some s' \<and> ext s0 s'"
      using assms(1) by (intro follow_group_some call) (auto simp: wf_graph_def)
  qed
  obtain s1 where s1: "fold_opt (\<lambda>(_, l). follow_link (make_runnable k c) c l (input_node (glink c l)) (input_mode (glink c l)))
      (links_of (output_ports (gnode c node))) s0 = Some s1" "ext s0 s1"
    using follow_links_some [OF calls o ext_refl, where mode = "\<lambda>l. input_mode (glink c l)"] by blast
  obtain s2 where s2: "fold_opt (\<lambda>(_, l). follow_link (make_runnable k c) c l (output_node (glink c l)) (output_mode (glink c l)))
      (links_of (input_ports (gnode c node))) s1 = Some s2" "ext s0 s2"
    using follow_links_some [OF calls i s1(2), where mode = "\<lambda>l. output_mode (glink c l)"] by blast
  show ?case using s1(1) s2(1) g [OF s2(2)] by (auto simp: s0_def)
qed simp

section \<open>Exactly the nodes that should run are runnable\<close>

text \<open>\<open>starts c act node a\<close>: checking \<open>node\<close> makes \<open>a\<close> runnable by itself.\<close>

inductive starts :: "pw_context \<Rightarrow> (nat \<Rightarrow> bool) \<Rightarrow> nat \<Rightarrow> nat \<Rightarrow> bool" for c act node where
  always: "always_process (gnode c node) \<Longrightarrow> starts c act node node"
| out_pair: "(own, l) \<in> set (links_of (output_ports (gnode c node))) \<Longrightarrow> act (input_node (glink c l)) \<Longrightarrow>
    runnable_pair own (input_mode (glink c l)) \<Longrightarrow> prepared (glink c l) \<Longrightarrow> a = node \<or> a = input_node (glink c l) \<Longrightarrow>
    starts c act node a"
| in_pair: "(own, l) \<in> set (links_of (input_ports (gnode c node))) \<Longrightarrow> act (output_node (glink c l)) \<Longrightarrow>
    runnable_pair own (output_mode (glink c l)) \<Longrightarrow> prepared (glink c l) \<Longrightarrow> a = node \<or> a = output_node (glink c l) \<Longrightarrow>
    starts c act node a"

inductive_cases startsE: "starts c act node a"

text \<open>The nodes that should run: what a checked node starts, and what that makes runnable in turn.\<close>

inductive runs :: "pw_context \<Rightarrow> (nat \<Rightarrow> bool) \<Rightarrow> nat \<Rightarrow> bool" for c act where
  start: "node \<in> set (node_list c) \<Longrightarrow> \<not> exported (gnode c node) \<Longrightarrow> act node \<Longrightarrow> starts c act node a \<Longrightarrow> runs c act a"
| made: "runs c act a \<Longrightarrow> makes c act a b \<Longrightarrow> runs c act b"

lemma runs_makes: "(makes c act)\<^sup>*\<^sup>* a b \<Longrightarrow> runs c act a \<Longrightarrow> runs c act b"
  by (induction rule: rtranclp_induct) (auto intro: runs.made)

definition sound :: "pw_context \<Rightarrow> (nat \<Rightarrow> bool) \<Rightarrow> graph_state \<Rightarrow> graph_state \<Rightarrow> bool" where
  "sound c act s t \<longleftrightarrow> ext s t \<and> is_active s = act \<and> (\<forall>a. is_runnable t a \<longrightarrow> runs c act a) \<and>
     (\<forall>a b. is_runnable t a \<longrightarrow> makes c act a b \<longrightarrow> is_runnable t b)"

lemma sound_active: "sound c act s t \<Longrightarrow> is_active t = act"
  unfolding sound_def using ext_active by blast

lemma sound_prepare: "sound c act s t \<Longrightarrow> sound c act s (pw_impl_link_prepare c l t)"
  unfolding sound_def by (auto intro: ext_trans ext_prepare)

lemma sound_make:
  assumes s: "sound c act s t" and m: "make_runnable k c n t = Some u" and n: "runs c act n"
  shows "sound c act s u" "is_runnable u n" "ext t u"
proof -
  have m: "made c act n t u" by (rule make_runnable_made [OF sound_active [OF s] m])
  show "is_runnable u n" "ext t u" using made_facts [OF m] by blast+
  have r: "reached c act n t u" by (rule made_facts(2) [OF m])
  show "sound c act s u"
    unfolding sound_def
  proof (intro conjI allI impI)
    show "ext s u" using s \<open>ext t u\<close> ext_trans by (auto simp: sound_def)
    show "is_active s = act" using s by (simp add: sound_def)
    fix a assume a: "is_runnable u a"
    show "runs c act a"
    proof (cases "is_runnable t a")
      case False
      hence "(makes c act)\<^sup>*\<^sup>* n a" using r a unfolding reached_def by blast
      thus ?thesis by (rule runs_makes [OF _ n])
    qed (use s in \<open>auto simp: sound_def\<close>)
  next
    fix a b assume a: "is_runnable u a"
    assume b: "makes c act a b"
    show "is_runnable u b"
    proof (cases "is_runnable t a")
      case True
      hence "is_runnable t b" using s b by (auto simp: sound_def)
      thus ?thesis by (rule ext_runnable [OF \<open>ext t u\<close>])
    next
      case False
      thus ?thesis using r a b unfolding reached_def by blast
    qed
  qed
qed

lemma check_link_step:
  assumes s: "sound c act s t" and f: "check_link k c node own l n mode t = Some u"
    and e: "act n \<and> runnable_pair own mode \<and> prepared (glink c l) \<longrightarrow> runs c act node \<and> runs c act n"
  shows "sound c act s u \<and> ext t u \<and>
    (act n \<and> runnable_pair own mode \<and> prepared (glink c l) \<longrightarrow> is_runnable u node \<and> is_runnable u n)"
proof (cases "act n \<and> runnable_pair own mode \<and> prepared (glink c l)")
  case True
  let ?t = "pw_impl_link_prepare c l t"
  obtain v where v: "make_runnable k c node ?t = Some v" "make_runnable k c n v = Some u"
    using f True sound_active [OF s] by (auto simp: check_link_def Let_def bind_eq_Some_conv)
  have a: "sound c act s v" "is_runnable v node" "ext ?t v"
    using sound_make [OF sound_prepare [OF s] v(1)] e True by auto
  have b: "sound c act s u" "is_runnable u n" "ext v u"
    using sound_make [OF a(1) v(2)] e True by auto
  have "ext t u" using ext_trans [OF ext_trans [OF ext_prepare a(3)] b(3)] .
  thus ?thesis using b ext_runnable [OF b(3) a(2)] by simp
next
  case False
  hence "u = t \<or> u = pw_impl_link_prepare c l t"
    using f sound_active [OF s] by (auto simp: check_link_def Let_def split: if_splits)
  thus ?thesis using False s sound_prepare [OF s] ext_prepare by auto
qed

lemma check_links_loop:
  assumes f: "fold_opt (\<lambda>(own, l). check_link k c node own l (peer l) (mode l)) xs t = Some u"
    and s: "sound c act s t"
    and e: "\<forall>(own, l)\<in>set xs. act (peer l) \<and> runnable_pair own (mode l) \<and> prepared (glink c l) \<longrightarrow> runs c act node \<and> runs c act (peer l)"
  shows "(sound c act s u \<and> ext t u) \<and> (\<forall>x\<in>set xs. act (peer (snd x)) \<and> runnable_pair (fst x) (mode (snd x)) \<and> prepared (glink c (snd x)) \<longrightarrow>
    is_runnable u node \<and> is_runnable u (peer (snd x)))"
proof (rule fold_opt_each [OF f])
  show "sound c act s t \<and> ext t t" using s by simp
next
  fix x v w assume x: "x \<in> set xs" "sound c act s v \<and> ext t v" "(case x of (own, l) \<Rightarrow> check_link k c node own l (peer l) (mode l)) v = Some w"
  obtain own l where ol: "x = (own, l)" by fastforce
  have "sound c act s w \<and> ext v w \<and> (act (peer l) \<and> runnable_pair own (mode l) \<and> prepared (glink c l) \<longrightarrow>
      is_runnable w node \<and> is_runnable w (peer l))"
    by (rule check_link_step) (use x ol e in auto)
  thus "(sound c act s w \<and> ext t w) \<and> (act (peer (snd x)) \<and> runnable_pair (fst x) (mode (snd x)) \<and> prepared (glink c (snd x)) \<longrightarrow>
      is_runnable w node \<and> is_runnable w (peer (snd x)))"
    using x(2) ext_trans [of t v w] ol by simp
next
  fix x y v w assume y: "y \<in> set xs" "sound c act s v \<and> ext t v" "(case y of (own, l) \<Rightarrow> check_link k c node own l (peer l) (mode l)) v = Some w"
    and q: "act (peer (snd x)) \<and> runnable_pair (fst x) (mode (snd x)) \<and> prepared (glink c (snd x)) \<longrightarrow>
      is_runnable v node \<and> is_runnable v (peer (snd x))"
  obtain own l where ol: "y = (own, l)" by fastforce
  have "sound c act s w \<and> ext v w \<and> (act (peer l) \<and> runnable_pair own (mode l) \<and> prepared (glink c l) \<longrightarrow>
      is_runnable w node \<and> is_runnable w (peer l))"
    by (rule check_link_step) (use y ol e in auto)
  thus "act (peer (snd x)) \<and> runnable_pair (fst x) (mode (snd x)) \<and> prepared (glink c (snd x)) \<longrightarrow>
      is_runnable w node \<and> is_runnable w (peer (snd x))"
    using q ext_runnable [of v w] by simp
qed

lemma check_runnable_step:
  assumes s: "sound c act s t" and f: "check_runnable k c node t = Some u"
    and n: "node \<in> set (node_list c)" "\<not> exported (gnode c node)" "act node"
  shows "sound c act s u \<and> ext t u \<and> (\<forall>a. starts c act node a \<longrightarrow> is_runnable u a)"
proof -
  note st = runs.start [where act = act, OF n]
  obtain t1 t2 where
    a: "(if always_process (gnode c node) \<and> \<not> is_runnable t node then make_runnable k c node t else Some t) = Some t1"
    and o: "fold_opt (\<lambda>(own, l). check_link k c node own l (input_node (glink c l)) (input_mode (glink c l)))
       (links_of (output_ports (gnode c node))) t1 = Some t2"
    and i: "fold_opt (\<lambda>(own, l). check_link k c node own l (output_node (glink c l)) (output_mode (glink c l)))
       (links_of (input_ports (gnode c node))) t2 = Some u"
    using f by (auto simp: check_runnable_def bind_eq_Some_conv)
  have A: "sound c act s t1 \<and> ext t t1 \<and> (always_process (gnode c node) \<longrightarrow> is_runnable t1 node)"
  proof (cases "always_process (gnode c node) \<and> \<not> is_runnable t node")
    case True
    thus ?thesis using sound_make [OF s _ st [OF starts.always]] a by auto
  qed (use a s in auto)
  hence s1: "sound c act s t1" by simp
  have O: "(sound c act s t2 \<and> ext t1 t2) \<and> (\<forall>x\<in>set (links_of (output_ports (gnode c node))).
      act (input_node (glink c (snd x))) \<and> runnable_pair (fst x) (input_mode (glink c (snd x))) \<and> prepared (glink c (snd x)) \<longrightarrow>
      is_runnable t2 node \<and> is_runnable t2 (input_node (glink c (snd x))))"
    by (rule check_links_loop [OF o s1]) (use st starts.out_pair in blast)
  hence s2: "sound c act s t2" by simp
  have I: "(sound c act s u \<and> ext t2 u) \<and> (\<forall>x\<in>set (links_of (input_ports (gnode c node))).
      act (output_node (glink c (snd x))) \<and> runnable_pair (fst x) (output_mode (glink c (snd x))) \<and> prepared (glink c (snd x)) \<longrightarrow>
      is_runnable u node \<and> is_runnable u (output_node (glink c (snd x))))"
    by (rule check_links_loop [OF i s2]) (use st starts.in_pair in blast)
  have e: "ext t2 u" "ext t1 u" "ext t u" using A O I ext_trans by blast+
  have "is_runnable u a" if "starts c act node a" for a
    using that
  proof (rule startsE)
    assume "a = node" "always_process (gnode c node)"
    thus ?thesis using A ext_runnable [OF e(2)] by simp
  next
    fix own l assume "(own, l) \<in> set (links_of (output_ports (gnode c node)))" "act (input_node (glink c l))"
      "runnable_pair own (input_mode (glink c l))" "prepared (glink c l)" "a = node \<or> a = input_node (glink c l)"
    thus ?thesis using O ext_runnable [OF e(1)] by fastforce
  next
    fix own l assume "(own, l) \<in> set (links_of (input_ports (gnode c node)))" "act (output_node (glink c l))"
      "runnable_pair own (output_mode (glink c l))" "prepared (glink c l)" "a = node \<or> a = output_node (glink c l)"
    thus ?thesis using I by fastforce
  qed
  thus ?thesis using I e(3) by blast
qed

lemma fold_opt_total: "(\<forall>x\<in>set xs. \<forall>s. f x s \<noteq> None) \<Longrightarrow> fold_opt f xs s \<noteq> None"
  by (induction xs arbitrary: s) (auto simp: bind_eq_None_conv)

lemma bind_total: "m \<noteq> None \<Longrightarrow> (\<And>x. f x \<noteq> None) \<Longrightarrow> Option.bind m f \<noteq> None"
  by (cases m) simp_all

lemma make_runnable_total: "wf_graph N c \<Longrightarrow> n < N \<Longrightarrow> N < k \<Longrightarrow> make_runnable k c n s \<noteq> None"
  by (rule make_runnable_some) (use waiting_le [of N s] in auto)

lemma check_link_total:
  assumes "wf_graph N c" "node < N" "n < N" "N < k"
  shows "check_link k c node own l n mode s \<noteq> None"
proof -
  have "Option.bind (make_runnable k c node t) (make_runnable k c n) \<noteq> None" for t
    using assms by (intro bind_total make_runnable_total [of N])
  thus ?thesis by (simp add: check_link_def Let_def del: bind_eq_None_conv not_None_eq)
qed

lemma check_links_total:
  assumes "wf_graph N c" "node < N" "N < k" "\<forall>x\<in>set xs. peer (snd x) < N"
  shows "fold_opt (\<lambda>(own, l). check_link k c node own l (peer l) (mode l)) xs s \<noteq> None"
proof (rule fold_opt_total, intro ballI allI)
  fix x t assume "x \<in> set xs"
  hence "check_link k c node (fst x) (snd x) (peer (snd x)) (mode (snd x)) t \<noteq> None"
    using assms by (intro check_link_total [of N]) auto
  thus "(case x of (own, l) \<Rightarrow> check_link k c node own l (peer l) (mode l)) t \<noteq> None" by (simp add: case_prod_beta)
qed

lemma check_runnable_total:
  assumes w: "wf_graph N c" and n: "node < N" "N < k"
  shows "check_runnable k c node s \<noteq> None"
  unfolding check_runnable_def
proof (intro bind_total check_links_total [OF w n])
  show "(if always_process (gnode c node) \<and> \<not> is_runnable s node then make_runnable k c node s else Some s) \<noteq> None"
    using make_runnable_total [OF w n] by simp
qed (use w n in \<open>auto simp: wf_graph_def\<close>)

lemma check_all_total:
  assumes "wf_graph N c" "N < k"
  shows "check_all k c s \<noteq> None"
  unfolding check_all_def
proof (rule fold_opt_total, intro ballI allI)
  fix n t assume "n \<in> set (node_list c)"
  hence "n < N" using assms(1) by (simp add: wf_graph_def)
  thus "(if exported (gnode c n) \<or> \<not> is_active t n then Some t else check_runnable k c n t) \<noteq> None"
    using check_runnable_total [OF assms(1) _ assms(2)] by simp
qed

lemma check_all_step:
  assumes f: "check_all k c s = Some s'" and s: "\<forall>n. \<not> is_runnable s n"
  shows "sound c (is_active s) s s' \<and>
    (\<forall>n\<in>set (node_list c). \<not> exported (gnode c n) \<and> is_active s n \<longrightarrow> (\<forall>a. starts c (is_active s) n a \<longrightarrow> is_runnable s' a))"
proof (rule fold_opt_each [OF f [unfolded check_all_def]])
  show "sound c (is_active s) s s" using s by (simp add: sound_def)
next
  fix n t u assume h: "n \<in> set (node_list c)" "sound c (is_active s) s t"
    "(if exported (gnode c n) \<or> \<not> is_active t n then Some t else check_runnable k c n t) = Some u"
  show "sound c (is_active s) s u \<and>
      (\<not> exported (gnode c n) \<and> is_active s n \<longrightarrow> (\<forall>a. starts c (is_active s) n a \<longrightarrow> is_runnable u a))"
    using check_runnable_step [OF h(2) _ h(1)] h sound_active [OF h(2)] by (auto split: if_splits)
next
  fix n m t u assume h: "m \<in> set (node_list c)" "sound c (is_active s) s t"
    "(if exported (gnode c m) \<or> \<not> is_active t m then Some t else check_runnable k c m t) = Some u"
    and q: "\<not> exported (gnode c n) \<and> is_active s n \<longrightarrow> (\<forall>a. starts c (is_active s) n a \<longrightarrow> is_runnable t a)"
  have "ext t u" using check_runnable_step [OF h(2) _ h(1)] h(3) sound_active [OF h(2)] by (auto split: if_splits)
  thus "\<not> exported (gnode c n) \<and> is_active s n \<longrightarrow> (\<forall>a. starts c (is_active s) n a \<longrightarrow> is_runnable u a)"
    using q ext_runnable by blast
qed

lemma clear_flags_simps [simp]:
  "is_runnable (clear_flags c s) n \<longleftrightarrow> is_runnable s n \<and> n \<notin> set (node_list c)"
  "is_active (clear_flags c s) = is_active s"
  "visited (clear_flags c s) n \<longleftrightarrow> visited s n \<and> n \<notin> set (node_list c)"
  "driver_node (clear_flags c s) = driver_node s" "follower_list (clear_flags c s) = follower_list s"
  by (simp_all add: clear_flags_def is_runnable_def is_active_def fun_eq_iff)

text \<open>A source that drives, linked to a sink.\<close>

definition demo_graph_node :: "pw_impl_port list \<Rightarrow> pw_impl_port list \<Rightarrow> graph_node" where
  "demo_graph_node outs ins = \<lparr>exported = False, always_process = False, is_driver = outs \<noteq> [], has_clock = outs \<noteq> [], clock_id = 7,
     freewheel = False, want_driver = True, poll_driver = False, priority_driver = 1, sync = False, groups = None,
     link_groups = None, sync_groups = Some [''group.sync.0''], output_ports = outs, input_ports = ins\<rparr>"

definition demo_port :: pw_impl_port where
  "demo_port = \<lparr>port_mode = PASSIVE_MODE_FALSE, port_links = [0]\<rparr>"

definition demo_graph :: pw_context where
  "demo_graph = \<lparr>node_list = [0, 1], driver_list = [0],
     gnode = (\<lambda>n. if n = 0 then demo_graph_node [demo_port] [] else if n = 1 then demo_graph_node [] [demo_port] else demo_graph_node [] []),
     glink = (\<lambda>_. \<lparr>output_node = 0, output_mode = PASSIVE_MODE_FALSE, input_node = 1, input_mode = PASSIVE_MODE_FALSE,
       prepared = True, destroyed = False\<rparr>), data_threads = [Some 5], thread_utils = True\<rparr>"

definition demo_state :: graph_state where
  "demo_state = \<lparr>nodes = (\<lambda>_. demo_node\<lparr>runnable := False, active := True\<rparr>), visited = (\<lambda>_. False), preparing = (\<lambda>_. False), work = [],
     driving = (\<lambda>n. n = 0), driver_node = (\<lambda>n. n), follower_list = (\<lambda>n. if n < 2 then [n] else []), requests = [],
     pending_state = (\<lambda>_. None), freewheeling = False, rt_calls = []\<rparr>"

lemma demo_graph_facts:
  "wf_graph 2 demo_graph" "node_list demo_graph = [0, 1]" "is_active demo_state n" "\<not> is_runnable demo_state n" "\<not> visited demo_state n"
  "\<not> exported (gnode demo_graph n)"
  "\<not> poll_driver (gnode demo_graph n)" "starts demo_graph (is_active demo_state) 0 1" "driver_list demo_graph = [0]"
  by (auto simp: wf_graph_def demo_graph_def demo_graph_node_def demo_port_def links_of_def less_2_cases_iff is_active_def is_runnable_def
      demo_state_def runnable_pair_def intro!: starts.out_pair [where own = PASSIVE_MODE_FALSE and l = 0] split: if_splits)

text \<open>
  C34: the first two loops of \<^verbatim>\<open>context_recalc_graph\<close> return, and a node is runnable after them exactly
  when it should run: it always processes or has a pair of ports on a prepared link to an active node
  that lets both run, or it is reached from such a node over prepared links into ports that are not
  passive and over shared groups. All other fields but the link preparations are as they were.
\<close>

theorem runnable_exact:
  assumes "wf_graph N c" "N < k" "\<And>n. is_runnable s n \<Longrightarrow> n \<in> set (node_list c)"
  shows "\<exists>s'. check_all k c (clear_flags c s) = Some s' \<and> ext (clear_flags c s) s' \<and>
    (\<forall>n. is_runnable s' n \<longleftrightarrow> runs c (is_active s) n)"
proof -
  obtain s' where s': "check_all k c (clear_flags c s) = Some s'" using check_all_total [OF assms(1,2)] by blast
  have "\<forall>n. \<not> is_runnable (clear_flags c s) n" using assms(3) by auto
  from check_all_step [OF s' this]
  have S: "sound c (is_active s) (clear_flags c s) s'"
    and st: "\<And>n a. n \<in> set (node_list c) \<Longrightarrow> \<not> exported (gnode c n) \<Longrightarrow> is_active s n \<Longrightarrow> starts c (is_active s) n a \<Longrightarrow> is_runnable s' a"
    by auto
  have "is_runnable s' n" if "runs c (is_active s) n" for n
    using that
  proof induction
    case (start node a)
    thus ?case by (rule st)
  next
    case (made a b)
    thus ?case using S unfolding sound_def by blast
  qed
  moreover have "runs c (is_active s) n" if "is_runnable s' n" for n
    using S that unfolding sound_def by blast
  moreover have "ext (clear_flags c s) s'" using S unfolding sound_def by blast
  ultimately show ?thesis using s' by blast
qed

theorem runnable_exact_witness:
  "\<exists>s'. check_all 3 demo_graph (clear_flags demo_graph demo_state) = Some s' \<and> is_runnable s' 1"
proof -
  have "runs demo_graph (is_active demo_state) 1"
    by (rule runs.start [where node = 0]) (use demo_graph_facts in simp_all)
  thus ?thesis using runnable_exact [of 2 demo_graph 3 demo_state] demo_graph_facts(1) by (auto simp: demo_graph_facts(4))
qed

section \<open>The nodes that are collected\<close>

lemma found_index: "found (strv_index i xs x) \<longleftrightarrow> x \<in> set xs"
  by (induction xs arbitrary: i) (auto simp: found_def)

lemma found_strv [simp]: "found (pw_strv_find (Some xs) (Some x)) \<longleftrightarrow> x \<in> set xs"
  by (simp add: pw_strv_find_def found_index)

lemma found_common_aux: "found (strv_common i xs (Some ys)) \<longleftrightarrow> set xs \<inter> set ys \<noteq> {}"
proof (induction xs arbitrary: i)
  case (Cons x xs)
  show ?case
  proof (cases "pw_strv_find (Some ys) (Some x)")
    case (Inl e)
    hence "x \<notin> set ys" using found_strv [of ys x] by (simp add: found_def)
    thus ?thesis using Inl Cons.IH [of "i + 1"] by simp
  next
    case (Inr j)
    hence "x \<in> set ys" using found_strv [of ys x] by (simp add: found_def)
    thus ?thesis using Inr by (auto simp: found_def)
  qed
qed (simp add: found_def)

lemma found_common: "found (pw_strv_find_common a b) \<longleftrightarrow> (\<exists>xs ys. a = Some xs \<and> b = Some ys \<and> set xs \<inter> set ys \<noteq> {})"
  by (cases a; cases b) (auto simp: pw_strv_find_common_def found_def found_common_aux [unfolded found_def])

lemma add_sync_set: "set syn \<subseteq> set (add_sync gs syn)" "set (add_sync gs syn) \<subseteq> set syn \<union> set gs"
  by (induction gs syn rule: add_sync.induct) (auto split: if_splits)

lemma add_sync_bound: "length syn \<le> MAX_SYNC \<Longrightarrow> length (add_sync gs syn) \<le> MAX_SYNC"
  by (induction gs syn rule: add_sync.induct) auto

lemma add_sync_distinct: "distinct syn \<Longrightarrow> distinct (add_sync gs syn)"
  by (induction gs syn rule: add_sync.induct) auto

lemma add_sync_length: "length syn \<le> length (add_sync gs syn)"
  by (induction gs syn rule: add_sync.induct) auto

lemma add_sync_all: "length (add_sync gs syn) < MAX_SYNC \<Longrightarrow> set gs \<subseteq> set (add_sync gs syn)"
proof (induction gs syn rule: add_sync.induct)
  case (2 g gs syn)
  thus ?case using add_sync_set(1) [of "syn @ [g]" gs] add_sync_set(1) [of syn gs] by (auto split: if_splits)
qed simp

text \<open>The nodes next to \<open>n\<close>: over a link, in a group, or in one of the sync groups \<open>syn\<close>.\<close>

definition linked :: "pw_context \<Rightarrow> nat \<Rightarrow> nat \<Rightarrow> bool" where
  "linked c n t \<longleftrightarrow> t \<in> (\<lambda>x. output_node (glink c (snd x))) ` set (links_of (input_ports (gnode c n))) \<union>
     (\<lambda>x. input_node (glink c (snd x))) ` set (links_of (output_ports (gnode c n)))"

definition joins :: "pw_context \<Rightarrow> nat \<Rightarrow> nat \<Rightarrow> bool" where
  "joins c n t \<longleftrightarrow> linked c n t \<or> t \<in> set (node_list c) \<and> \<not> exported (gnode c t) \<and> group_mates c n t"

definition sync_names :: "pw_context \<Rightarrow> nat \<Rightarrow> string set" where
  "sync_names c n = (case sync_groups (gnode c n) of None \<Rightarrow> {} | Some gs \<Rightarrow> set gs)"

definition synced :: "pw_context \<Rightarrow> string list \<Rightarrow> nat \<Rightarrow> bool" where
  "synced c syn t \<longleftrightarrow> t \<in> set (node_list c) \<and> \<not> exported (gnode c t) \<and> sync_names c t \<inter> set syn \<noteq> {}"

text \<open>The visited flags and the queue only grow, by nodes of \<open>A\<close> that were not visited.\<close>

definition grown :: "nat set \<Rightarrow> (nat \<Rightarrow> bool) \<times> nat list \<Rightarrow> (nat \<Rightarrow> bool) \<times> nat list \<Rightarrow> bool" where
  "grown A vq vq' \<longleftrightarrow> (\<exists>new. snd vq' = snd vq @ new \<and> distinct new \<and> set new \<subseteq> A \<and> (\<forall>t\<in>set new. \<not> fst vq t) \<and>
     fst vq' = (\<lambda>t. fst vq t \<or> t \<in> set new))"

lemma grown_refl [simp]: "grown A vq vq"
  unfolding grown_def by (intro exI [of _ "[]"]) simp

lemma grown_trans: "grown A x y \<Longrightarrow> grown A y z \<Longrightarrow> grown A x z"
proof -
  assume "grown A x y" "grown A y z"
  then obtain m n where "snd y = snd x @ m" "distinct m" "set m \<subseteq> A" "\<forall>t\<in>set m. \<not> fst x t" "fst y = (\<lambda>t. fst x t \<or> t \<in> set m)"
    "snd z = snd y @ n" "distinct n" "set n \<subseteq> A" "\<forall>t\<in>set n. \<not> fst y t" "fst z = (\<lambda>t. fst y t \<or> t \<in> set n)"
    unfolding grown_def by blast
  thus ?thesis unfolding grown_def by (intro exI [of _ "m @ n"]) auto
qed

lemma grown_mono: "grown A x y \<Longrightarrow> A \<subseteq> B \<Longrightarrow> grown B x y"
  unfolding grown_def by blast

lemma grown_visited: "grown A x y \<Longrightarrow> fst x t \<Longrightarrow> fst y t"
  unfolding grown_def by auto

lemma grown_visit: "t \<in> A \<Longrightarrow> grown A vq (visit t vq)"
  unfolding grown_def by (cases vq; cases "fst vq t") (auto simp: visit_def intro: exI [of _ "[]"] exI [of _ "[t]"])

lemma visit_visited: "fst (visit t vq) t"
  by (cases vq) (simp add: visit_def)

lemma fold_grown:
  assumes "\<forall>x\<in>set xs. \<forall>vq. grown A vq (f x vq) \<and> (P x \<longrightarrow> fst (f x vq) (g x))"
  shows "grown A vq (fold f xs vq) \<and> (\<forall>x\<in>set xs. P x \<longrightarrow> fst (fold f xs vq) (g x))"
  using assms
proof (induction xs arbitrary: vq)
  case (Cons x xs)
  have i: "grown A (f x vq) (fold f xs (f x vq)) \<and> (\<forall>y\<in>set xs. P y \<longrightarrow> fst (fold f xs (f x vq)) (g y))"
    by (rule Cons.IH) (use Cons.prems in \<open>simp del: split_paired_All\<close>)
  have x: "grown A vq (f x vq)" "P x \<longrightarrow> fst (f x vq) (g x)"
    using Cons.prems by (simp_all del: split_paired_All)
  show ?case using i x grown_trans [OF x(1), of "fold f xs (f x vq)"] grown_visited [of A "f x vq" "fold f xs (f x vq)" "g x"] by simp
qed simp

lemma fold_visit:
  assumes "\<forall>x\<in>set xs. peer (snd x) \<in> A"
  shows "grown A vq (fold (\<lambda>(_, l). visit (peer l)) xs vq) \<and> (\<forall>x\<in>set xs. fst (fold (\<lambda>(_, l). visit (peer l)) xs vq) (peer (snd x)))"
  using fold_grown [of xs A "\<lambda>(_, l). visit (peer l)" "\<lambda>_. True" "\<lambda>x. peer (snd x)" vq] assms
  by (auto simp: case_prod_beta grown_visit visit_visited)

lemma visit_group_alt:
  "visit_group c n syn t vq = (if \<not> exported (gnode c t) \<and> (group_mates c n t \<or> sync_names c t \<inter> set syn \<noteq> {}) then visit t vq else vq)"
  by (cases vq) (auto simp: visit_group_def group_mates_def found_common sync_names_def visit_def split: option.splits)

lemma fold_visit_group:
  assumes "\<forall>t. t \<in> set (node_list c) \<and> \<not> exported (gnode c t) \<and> group_mates c n t \<or> synced c syn t \<longrightarrow> t \<in> A"
  shows "grown A vq (fold (visit_group c n syn) (node_list c) vq) \<and>
    (\<forall>t\<in>set (node_list c). \<not> exported (gnode c t) \<and> (group_mates c n t \<or> sync_names c t \<inter> set syn \<noteq> {}) \<longrightarrow>
      fst (fold (visit_group c n syn) (node_list c) vq) t)"
  by (rule fold_grown) (use assms in \<open>auto simp: visit_group_alt grown_visit visit_visited synced_def\<close>)

lemma visit_peers_grown:
  "grown {t. joins c n t \<or> synced c syn t} vq (visit_peers c n syn vq) \<and>
   (\<forall>t. joins c n t \<or> synced c syn t \<longrightarrow> fst (visit_peers c n syn vq) t)"
proof -
  let ?A = "{t. joins c n t \<or> synced c syn t}"
  define x where "x = fold (\<lambda>(_, l). visit (output_node (glink c l))) (links_of (input_ports (gnode c n))) vq"
  define y where "y = fold (\<lambda>(_, l). visit (input_node (glink c l))) (links_of (output_ports (gnode c n))) x"
  have x: "grown ?A vq x \<and> (\<forall>z\<in>set (links_of (input_ports (gnode c n))). fst x (output_node (glink c (snd z))))"
    unfolding x_def by (rule fold_visit) (auto simp: joins_def linked_def)
  have y: "grown ?A x y \<and> (\<forall>z\<in>set (links_of (output_ports (gnode c n))). fst y (input_node (glink c (snd z))))"
    unfolding y_def by (rule fold_visit) (auto simp: joins_def linked_def)
  have l: "fst y t" if "linked c n t" for t using that x y grown_visited [OF conjunct1 [OF y], of t] by (auto simp: linked_def)
  have gy: "grown ?A vq y" by (rule grown_trans [OF conjunct1 [OF x] conjunct1 [OF y]])
  show ?thesis
  proof (cases "groups (gnode c n) \<noteq> None \<or> link_groups (gnode c n) \<noteq> None \<or> syn \<noteq> []")
    case True
    have z: "grown ?A y (fold (visit_group c n syn) (node_list c) y) \<and>
      (\<forall>t\<in>set (node_list c). \<not> exported (gnode c t) \<and> (group_mates c n t \<or> sync_names c t \<inter> set syn \<noteq> {}) \<longrightarrow>
        fst (fold (visit_group c n syn) (node_list c) y) t)"
      by (rule fold_visit_group) (auto simp: joins_def)
    have e: "visit_peers c n syn vq = fold (visit_group c n syn) (node_list c) y"
      using True by (simp add: visit_peers_def Let_def x_def y_def)
    have "grown ?A vq (visit_peers c n syn vq)" unfolding e by (rule grown_trans [OF gy conjunct1 [OF z]])
    moreover have "fst (visit_peers c n syn vq) t" if "joins c n t \<or> synced c syn t" for t
      unfolding e
      using that l [of t] z grown_visited [OF conjunct1 [OF z], of t] by (cases "linked c n t") (auto simp: joins_def synced_def)
    ultimately show ?thesis by blast
  next
    case False
    hence "visit_peers c n syn vq = y" by (simp add: visit_peers_def Let_def x_def y_def)
    moreover have "\<not> group_mates c n t" "\<not> synced c syn t" for t using False group_mates_groups [of c n t] by (auto simp: synced_def)
    ultimately show ?thesis using gy l by (simp add: joins_def)
  qed
qed

text \<open>The nodes that belong to \<open>node\<close>: over links and groups, and all that share a sync group with one that syncs.\<close>

inductive together :: "pw_context \<Rightarrow> nat \<Rightarrow> nat \<Rightarrow> bool" for c node where
  self: "together c node node"
| step: "together c node n \<Longrightarrow> joins c n t \<Longrightarrow> together c node t"
| synced: "together c node m \<Longrightarrow> sync (gnode c m) \<Longrightarrow> x \<in> sync_names c m \<Longrightarrow> x \<in> sync_names c t \<Longrightarrow>
    t \<in> set (node_list c) \<Longrightarrow> \<not> exported (gnode c t) \<Longrightarrow> together c node t"

text \<open>The invariant of the queue loop; \<open>v0\<close> are the nodes visited before.\<close>

definition covers :: "pw_context \<Rightarrow> string list \<Rightarrow> nat list \<Rightarrow> bool" where
  "covers c syn col \<longleftrightarrow> distinct syn \<and> length syn \<le> MAX_SYNC \<and>
     (\<forall>x\<in>set syn. \<exists>m\<in>set col. sync (gnode c m) \<and> x \<in> sync_names c m) \<and>
     (length syn < MAX_SYNC \<longrightarrow> (\<forall>m\<in>set col. sync (gnode c m) \<longrightarrow> sync_names c m \<subseteq> set syn))"

definition collecting :: "nat \<Rightarrow> pw_context \<Rightarrow> nat \<Rightarrow> (nat \<Rightarrow> bool) \<Rightarrow> string list \<Rightarrow> (nat \<Rightarrow> bool) \<Rightarrow> nat list \<Rightarrow> nat list \<Rightarrow> bool" where
  "collecting N c node v0 syn v q col \<longleftrightarrow> distinct (col @ q) \<and> v = (\<lambda>t. v0 t \<or> t \<in> set (col @ q)) \<and>
     node \<in> set (col @ q) \<and> (\<forall>t\<in>set (col @ q). \<not> v0 t \<and> t < N \<and> together c node t) \<and>
     (\<forall>n\<in>set col. \<forall>t. joins c n t \<longrightarrow> v t) \<and> (\<forall>t. synced c syn t \<longrightarrow> v t) \<and> covers c syn col"

definition next_sync :: "pw_context \<Rightarrow> nat \<Rightarrow> string list \<Rightarrow> string list" where
  "next_sync c n syn = (if sync (gnode c n) then add_sync (case sync_groups (gnode c n) of None \<Rightarrow> [] | Some gs \<Rightarrow> gs) syn else syn)"

lemma collect_loop_step:
  "collect_loop (Suc k) c (n # q) syn v col =
   (case visit_peers c n (next_sync c n syn) (v, q) of (v', q') \<Rightarrow> collect_loop k c q' (next_sync c n syn) v' (col @ [n]))"
  by (simp add: next_sync_def Let_def)

lemma next_sync_sub: "set syn \<subseteq> set (next_sync c n syn)"
  by (simp add: next_sync_def add_sync_set)

lemma covers_next:
  assumes "covers c syn col"
  shows "covers c (next_sync c n syn) (col @ [n])"
proof (cases "sync (gnode c n)")
  case True
  define gs where "gs = (case sync_groups (gnode c n) of None \<Rightarrow> [] | Some gs \<Rightarrow> gs)"
  have g: "sync_names c n = set gs" by (simp add: sync_names_def gs_def split: option.splits)
  have e: "next_sync c n syn = add_sync gs syn" using True by (simp add: next_sync_def gs_def)
  show ?thesis
    unfolding covers_def e
  proof (intro conjI impI)
    show "distinct (add_sync gs syn)" "length (add_sync gs syn) \<le> MAX_SYNC"
      using assms add_sync_distinct add_sync_bound by (auto simp: covers_def)
    show "\<forall>x\<in>set (add_sync gs syn). \<exists>m\<in>set (col @ [n]). sync (gnode c m) \<and> x \<in> sync_names c m"
    proof
      fix x assume "x \<in> set (add_sync gs syn)"
      hence "x \<in> set syn \<or> x \<in> set gs" using add_sync_set(2) [of gs syn] by blast
      thus "\<exists>m\<in>set (col @ [n]). sync (gnode c m) \<and> x \<in> sync_names c m"
      proof
        assume "x \<in> set syn"
        then obtain m where "m \<in> set col" "sync (gnode c m) \<and> x \<in> sync_names c m" using assms unfolding covers_def by blast
        thus ?thesis by (intro bexI [of _ m]) simp_all
      qed (use True g in simp)
    qed
    assume l: "length (add_sync gs syn) < MAX_SYNC"
    hence "\<forall>m\<in>set col. sync (gnode c m) \<longrightarrow> sync_names c m \<subseteq> set syn"
      using assms add_sync_length [of syn gs] by (simp add: covers_def)
    thus "\<forall>m\<in>set (col @ [n]). sync (gnode c m) \<longrightarrow> sync_names c m \<subseteq> set (add_sync gs syn)"
      using g add_sync_all [OF l] add_sync_set(1) [of syn gs] by simp blast
  qed
qed (use assms in \<open>auto simp: covers_def next_sync_def\<close>)

lemma collecting_step:
  assumes c: "collecting N c node v0 syn v (n # q) col" and w: "wf_graph N c"
    and p: "visit_peers c n (next_sync c n syn) (v, q) = (v', q')"
  shows "collecting N c node v0 (next_sync c n syn) v' q' (col @ [n])"
proof -
  let ?s = "next_sync c n syn"
  have cv: "covers c ?s (col @ [n])" using c covers_next by (simp add: collecting_def)
  have P: "grown {t. joins c n t \<or> synced c ?s t} (v, q) (v', q') \<and> (\<forall>t. joins c n t \<or> synced c ?s t \<longrightarrow> v' t)"
    using visit_peers_grown [of c n ?s "(v, q)"] p by simp
  then obtain new where new: "q' = q @ new" "distinct new" "\<forall>t\<in>set new. joins c n t \<or> synced c ?s t"
      "\<forall>t\<in>set new. \<not> v t" "v' = (\<lambda>t. v t \<or> t \<in> set new)"
    unfolding grown_def by auto
  have n: "together c node n" "n < N" using c by (auto simp: collecting_def)
  have nb: "t < N \<and> together c node t" if t: "t \<in> set new" for t
  proof (cases "joins c n t")
    case True
    have "t < N" using True w n(2) by (fastforce simp: joins_def linked_def wf_graph_def)
    thus ?thesis using together.step [OF n(1) True] by simp
  next
    case False
    hence s: "synced c ?s t" using new(3) t by blast
    then obtain x where x: "x \<in> sync_names c t" "x \<in> set ?s" by (auto simp: synced_def)
    then obtain m where m: "m \<in> set (col @ [n])" "sync (gnode c m)" "x \<in> sync_names c m"
      using cv unfolding covers_def by blast
    have "together c node m" using m(1) c by (auto simp: collecting_def)
    thus ?thesis using together.synced [OF _ m(2,3) x(1)] s w by (auto simp: synced_def wf_graph_def)
  qed
  have v: "v = (\<lambda>t. v0 t \<or> t \<in> set (col @ n # q))" using c by (simp add: collecting_def)
  show ?thesis
    unfolding collecting_def
  proof (intro conjI)
    show "distinct ((col @ [n]) @ q')" using c new(1,2,4) v by (auto simp: collecting_def)
    show "v' = (\<lambda>t. v0 t \<or> t \<in> set ((col @ [n]) @ q'))" using new(1,5) v by auto
    show "node \<in> set ((col @ [n]) @ q')" using c new(1) by (auto simp: collecting_def)
    show "\<forall>t\<in>set ((col @ [n]) @ q'). \<not> v0 t \<and> t < N \<and> together c node t"
      using c new(1,4) nb v by (auto simp: collecting_def)
    show "\<forall>m\<in>set (col @ [n]). \<forall>t. joins c m t \<longrightarrow> v' t" using c P new(5) by (auto simp: collecting_def)
    show "\<forall>t. synced c ?s t \<longrightarrow> v' t" using P by blast
    show "covers c ?s (col @ [n])" by (rule cv)
  qed
qed

lemma collect_loop_done:
  assumes "collecting N c node v0 syn v q col" "wf_graph N c" "N \<le> k + length col"
  shows "\<exists>v' syn' col'. collect_loop k c q syn v col = Some (v', col') \<and> collecting N c node v0 syn' v' [] col'"
  using assms(1,3)
proof (induction k arbitrary: q syn v col)
  case 0
  have "card (set (col @ q)) \<le> N" using 0 card_mono [of "{..<N}" "set (col @ q)"] by (auto simp: collecting_def)
  hence "length col + length q \<le> N" using 0 distinct_card [of "col @ q"] by (simp add: collecting_def)
  hence "length q = 0" using 0 by linarith
  hence "q = []" by simp
  thus ?case using 0 by auto
next
  case (Suc k)
  show ?case
  proof (cases q)
    case Nil
    thus ?thesis using Suc.prems by auto
  next
    case (Cons n r)
    obtain v' q' where p: "visit_peers c n (next_sync c n syn) (v, r) = (v', q')" by fastforce
    have "collecting N c node v0 (next_sync c n syn) v' q' (col @ [n])"
      using collecting_step [OF _ assms(2) p] Suc.prems(1) Cons by simp
    from Suc.IH [OF this] show ?thesis using Suc.prems(2) Cons p by (simp add: collect_loop_step del: collect_loop.simps)
  qed
qed

lemma collect_nodes_some:
  assumes "wf_graph N c" "N \<le> k" "node < N" "\<not> visited s node"
  shows "\<exists>v syn col. collect_nodes k c node s = Some (s\<lparr>visited := v\<rparr>, col) \<and> collecting N c node (visited s) syn v [] col"
proof -
  have "collecting N c node (visited s) [] ((visited s)(node := True)) [node] []"
    using assms by (auto simp: collecting_def covers_def synced_def intro: together.self)
  from collect_loop_done [OF this assms(1), where k = k] assms(2)
  obtain v syn col where "collect_loop k c [node] [] ((visited s)(node := True)) [] = Some (v, col)"
      "collecting N c node (visited s) syn v [] col"
    by auto
  moreover from this(1) have "collect_nodes k c node s = Some (s\<lparr>visited := v\<rparr>, col)" by (simp add: collect_nodes_def)
  ultimately show ?thesis by blast
qed

text \<open>The names of the sync groups that the nodes around \<open>node\<close> ask for.\<close>

definition sync_wanted :: "pw_context \<Rightarrow> nat \<Rightarrow> string set" where
  "sync_wanted c node = (\<Union>m\<in>{m. together c node m \<and> sync (gnode c m)}. sync_names c m)"

lemma together_bound:
  assumes "together c node t" "wf_graph N c" "node < N"
  shows "t < N"
  using assms(1)
proof induction
  case (step n t)
  thus ?case using assms(2) by (fastforce simp: joins_def linked_def wf_graph_def)
qed (use assms(2,3) in \<open>auto simp: wf_graph_def\<close>)

lemma finite_sync_wanted:
  assumes "wf_graph N c" "node < N"
  shows "finite (sync_wanted c node)"
proof -
  have "{m. together c node m \<and> sync (gnode c m)} \<subseteq> {..<N}" using together_bound [OF _ assms] by blast
  hence "finite {m. together c node m \<and> sync (gnode c m)}" by (rule finite_subset) simp
  moreover have "finite (sync_names c m)" for m by (simp add: sync_names_def split: option.splits)
  ultimately show ?thesis by (simp add: sync_wanted_def)
qed

lemma collecting_facts:
  assumes "collecting N c node v0 syn v [] col"
  shows "v = (\<lambda>t. v0 t \<or> t \<in> set col)" "distinct col" "node \<in> set col" "covers c syn col"
    "t \<in> set col \<Longrightarrow> \<not> v0 t \<and> together c node t" "n \<in> set col \<Longrightarrow> joins c n t \<Longrightarrow> v t" "synced c syn t \<Longrightarrow> v t"
  using assms unfolding collecting_def append_Nil2 by blast+

lemma collecting_complete:
  assumes c: "collecting N c node v0 syn v [] col" and w: "wf_graph N c" "node < N"
    and few: "card (sync_wanted c node) \<le> MAX_SYNC" and new: "\<forall>t. together c node t \<longrightarrow> \<not> v0 t"
  shows "together c node t \<Longrightarrow> t \<in> set col"
proof (induction rule: together.induct)
  case self
  show ?case by (rule collecting_facts(3) [OF c])
next
  case (step n t)
  thus ?case using collecting_facts(1) [OF c] collecting_facts(6) [OF c] new together.step [OF step.hyps] by metis
next
  case (synced m x t)
  note cv = collecting_facts(4) [OF c]
  have s: "set syn \<subseteq> sync_wanted c node"
  proof
    fix y assume "y \<in> set syn"
    then obtain m where "m \<in> set col" "sync (gnode c m)" "y \<in> sync_names c m" using cv unfolding covers_def by blast
    thus "y \<in> sync_wanted c node" using collecting_facts(5) [OF c] unfolding sync_wanted_def by blast
  qed
  have "x \<in> set syn"
  proof (cases "length syn < MAX_SYNC")
    case True
    thus ?thesis using cv synced.IH synced.hyps(2,3) unfolding covers_def by blast
  next
    case False
    hence "card (sync_wanted c node) \<le> card (set syn)" using cv few distinct_card [of syn] by (simp add: covers_def)
    hence "set syn = sync_wanted c node" by (rule card_seteq [OF finite_sync_wanted [OF w] s])
    thus ?thesis using synced.hyps(1-3) by (auto simp: sync_wanted_def)
  qed
  hence "synced c syn t" using synced.hyps(4-6) by (auto simp: synced_def)
  thus ?case using collecting_facts(1,7) [OF c] new together.synced [OF synced.hyps] by metis
qed

lemma demo_linked: "linked demo_graph m n \<longleftrightarrow> m = 0 \<and> n = 1 \<or> m = 1 \<and> n = 0"
  by (auto simp: demo_graph_def demo_graph_node_def demo_port_def links_of_def linked_def)

text \<open>
  C35: \<^verbatim>\<open>collect_nodes\<close> returns; it collects and marks nodes that were not visited, each once, among
  them the given node; all of them belong to it, and everything over a link or a group from them is
  visited. With no more than \<open>MAX_SYNC\<close> sync groups in play, and none of the nodes collected before,
  it collects exactly the nodes that belong to the given one.
\<close>

theorem collect_nodes_component:
  assumes "wf_graph N c" "N \<le> k" "node < N" "\<not> visited s node"
  shows "\<exists>v col. collect_nodes k c node s = Some (s\<lparr>visited := v\<rparr>, col) \<and>
    v = (\<lambda>t. visited s t \<or> t \<in> set col) \<and> distinct col \<and> node \<in> set col \<and>
    (\<forall>t\<in>set col. \<not> visited s t \<and> together c node t) \<and> (\<forall>n\<in>set col. \<forall>t. joins c n t \<longrightarrow> v t) \<and>
    (card (sync_wanted c node) \<le> MAX_SYNC \<and> (\<forall>t. together c node t \<longrightarrow> \<not> visited s t) \<longrightarrow> set col = {t. together c node t})"
proof -
  obtain v syn col where r: "collect_nodes k c node s = Some (s\<lparr>visited := v\<rparr>, col)" "collecting N c node (visited s) syn v [] col"
    using collect_nodes_some [OF assms] by blast
  have "set col = {t. together c node t}"
    if "card (sync_wanted c node) \<le> MAX_SYNC" "\<forall>t. together c node t \<longrightarrow> \<not> visited s t"
    using collecting_complete [OF r(2) assms(1,3) that] collecting_facts(5) [OF r(2)] by blast
  thus ?thesis using r(1) collecting_facts [OF r(2)] by (intro exI [of _ v] exI [of _ col] conjI) blast+
qed

theorem collect_nodes_component_witness:
  "\<exists>v col. collect_nodes 2 demo_graph 0 demo_state = Some (demo_state\<lparr>visited := v\<rparr>, col) \<and> distinct col \<and> {0, 1} \<subseteq> set col"
proof -
  obtain v col where r: "collect_nodes 2 demo_graph 0 demo_state = Some (demo_state\<lparr>visited := v\<rparr>, col)"
      "v = (\<lambda>t. visited demo_state t \<or> t \<in> set col)" "distinct col" "0 \<in> set col" "\<forall>n\<in>set col. \<forall>t. joins demo_graph n t \<longrightarrow> v t"
    using collect_nodes_component [of 2 demo_graph 2 0 demo_state] by (auto simp: demo_graph_facts)
  have "joins demo_graph 0 1" by (simp add: joins_def demo_linked)
  hence "1 \<in> set col" using r(2,4,5) by (auto simp: demo_graph_facts)
  thus ?thesis using r(1,3,4) by blast
qed

section \<open>The assignment of drivers\<close>

text \<open>The follower lists and the drivers of the nodes agree: each node is once in the list of its driver, and in no other.\<close>

definition owned :: "nat \<Rightarrow> graph_state \<Rightarrow> bool" where
  "owned N s \<longleftrightarrow> (\<forall>d. distinct (follower_list s d) \<and> (\<forall>n. n \<in> set (follower_list s d) \<longleftrightarrow> n < N \<and> driver_node s n = d))"


text \<open>The driver that \<open>pw_impl_node_set_driver\<close> gives a node: a node with a poll driver is not moved to another.\<close>

definition given :: "pw_context \<Rightarrow> nat \<Rightarrow> nat option \<Rightarrow> graph_state \<Rightarrow> nat" where
  "given c node d s = (case d of None \<Rightarrow> node | Some e \<Rightarrow> if poll_driver (gnode c node) \<and> e \<noteq> node then driver_node s node else e)"

lemma set_driver_simps [simp]:
  "driver_node (pw_impl_node_set_driver c node d s) = (driver_node s)(node := given c node d s)"
  "visited (pw_impl_node_set_driver c node d s) = visited s"
  by (auto simp: pw_impl_node_set_driver_def Let_def given_def fun_eq_iff split: option.splits)

lemma move_node_simps [simp]:
  "driver_node (move_node c d n s) = (driver_node s)(n := given c n (Some d) s)" "visited (move_node c d n s) = visited s"
  by (simp_all add: move_node_def Let_def given_def)

lemma remove_node_simps [simp]:
  "driver_node (remove_node c n s) = (driver_node s)(n := n)" "visited (remove_node c n s) = visited s"
  by (simp_all add: remove_node_def Let_def given_def)

lemma owned_nodes [simp]: "owned N (s\<lparr>nodes := x\<rparr>) = owned N s" "owned N (s\<lparr>requests := r\<rparr>) = owned N s"
  "owned N (s\<lparr>visited := v\<rparr>) = owned N s" "owned N (s\<lparr>freewheeling := f\<rparr>) = owned N s" "owned N (s\<lparr>rt_calls := y\<rparr>) = owned N s"
  by (simp_all add: owned_def)



text \<open>
  What holds of the visited nodes: they are closed under links, linked nodes share their driver unless
  none of them has one, and their drivers are in the list of drivers.
\<close>

definition grouped :: "pw_context \<Rightarrow> (nat \<Rightarrow> bool) \<Rightarrow> (nat \<Rightarrow> nat) \<Rightarrow> bool" where
  "grouped c v drv \<longleftrightarrow>
     (\<forall>n t. v n \<longrightarrow> linked c n t \<longrightarrow> v t \<and>
        (poll_driver (gnode c n) \<or> poll_driver (gnode c t) \<or> drv n = drv t \<or> drv n = n \<and> drv t = t)) \<and>
     (\<forall>n. v n \<longrightarrow> poll_driver (gnode c n) \<or> drv n = n \<or> drv n \<in> set (driver_list c))"


definition assigned :: "nat \<Rightarrow> pw_context \<Rightarrow> graph_state \<Rightarrow> bool" where
  "assigned N c s \<longleftrightarrow> owned N s \<and> grouped c (visited s) (driver_node s)"

lemma assigned_simps [simp]:
  "assigned N c (s\<lparr>nodes := x\<rparr>) = assigned N c s" "assigned N c (s\<lparr>requests := r\<rparr>) = assigned N c s"
  "assigned N c (s\<lparr>freewheeling := f\<rparr>) = assigned N c s" "assigned N c (set_runnable n s) = assigned N c s"
  "assigned N c (pw_context_set_freewheel d fw s) = assigned N c s"
  by (simp_all add: assigned_def set_runnable_def pw_context_set_freewheel_def)

















end
