(* ===== verification/PW_Timer.thy ===== *)
theory PW_Timer
  imports PW_Prelude "HOL-Library.Product_Lexorder" "HOL-Library.Multiset"
begin

text \<open>
  The timer queue of \<^verbatim>\<open>src/pipewire/timer-queue.c\<close>: many timers served by one timer of the loop.

  Timers are numbered. \<open>next_timeout\<close>, in the code the address of the timeout inside a timer, is that
  timer. \<open>armed\<close> is what \<^verbatim>\<open>pw_loop_update_timer\<close> last set in the loop: the timer of the loop expires once,
  and is disarmed when its expiry is dispatched. \<open>calls\<close> records the callbacks that were called. A
  callback may add and cancel timers of the queue; it is a parameter that gives these operations.

  The seconds of a \<^verbatim>\<open>timespec\<close> are not bounded in the model. Allocation of the queue, and logging, are left out.
\<close>

section \<open>The queue\<close>

record timespec =
  tv_sec :: int
  tv_nsec :: int

record pw_timer =
  queued :: bool
  timeout :: timespec
  callback :: nat
  cb_data :: nat

record pw_timer_queue =
  timers :: "nat \<Rightarrow> pw_timer"
  entries :: "nat list"
  next_timeout :: "nat option"
  armed :: "timespec option"
  calls :: "(nat \<times> nat) list"

abbreviation (input) SPA_NSEC_PER_SEC :: int where "SPA_NSEC_PER_SEC \<equiv> 1000000000"

definition timeout_of :: "pw_timer_queue \<Rightarrow> nat \<Rightarrow> timespec" where
  "timeout_of q t = timeout (timers q t)"

definition rearm_timer :: "pw_timer_queue \<Rightarrow> pw_timer_queue" where
  "rearm_timer q =
     (let t = (case entries q of [] \<Rightarrow> None | x # _ \<Rightarrow> Some x)
      in if t \<noteq> next_timeout q then q\<lparr>next_timeout := t, armed := map_option (timeout_of q) t\<rparr> else q)"

definition timespec_compare :: "timespec \<Rightarrow> timespec \<Rightarrow> int" where
  "timespec_compare a b =
     (if tv_sec a < tv_sec b then -1
      else if tv_sec a > tv_sec b then 1
      else if tv_nsec a < tv_nsec b then -1
      else if tv_nsec a > tv_nsec b then 1
      else 0)"

text \<open>The time a timer expires; \<open>base\<close> is the given time or the reading of the clock.\<close>

definition expiry :: "timespec \<Rightarrow> int \<Rightarrow> timespec" where
  "expiry base timeout_ns =
     (if timeout_ns > 0
      then let sec = tv_sec base + timeout_ns div SPA_NSEC_PER_SEC;
               nsec = tv_nsec base + timeout_ns mod SPA_NSEC_PER_SEC
           in if nsec \<ge> SPA_NSEC_PER_SEC then \<lparr>tv_sec = sec + 1, tv_nsec = nsec - SPA_NSEC_PER_SEC\<rparr>
              else \<lparr>tv_sec = sec, tv_nsec = nsec\<rparr>
      else base)"

text \<open>The loop that looks for the place of a timer, and the insertion before the entry where it stops.\<close>

fun insert_entry :: "(nat \<Rightarrow> timespec) \<Rightarrow> nat \<Rightarrow> nat list \<Rightarrow> nat list" where
  "insert_entry f t [] = [t]"
| "insert_entry f t (x # xs) = (if timespec_compare (f t) (f x) < 0 then t # x # xs else x # insert_entry f t xs)"

definition pw_timer_queue_add :: "timespec res \<Rightarrow> nat \<Rightarrow> timespec option \<Rightarrow> int \<Rightarrow> nat \<Rightarrow> nat \<Rightarrow> pw_timer_queue \<Rightarrow> pw_timer_queue res" where
  "pw_timer_queue_add clock t abs_time timeout_ns cb data q =
     (if queued (timers q t) then Inl EBUSY
      else case (case abs_time of None \<Rightarrow> clock | Some a \<Rightarrow> Inr a) of
        Inl e \<Rightarrow> Inl e
      | Inr base \<Rightarrow>
          let q = q\<lparr>timers := (timers q)(t := \<lparr>queued = True, timeout = expiry base timeout_ns, callback = cb, cb_data = data\<rparr>)\<rparr>
          in Inr (rearm_timer (q\<lparr>entries := insert_entry (timeout_of q) t (entries q)\<rparr>)))"

definition unlink_timer :: "nat \<Rightarrow> pw_timer_queue \<Rightarrow> pw_timer_queue" where
  "unlink_timer t q = q\<lparr>timers := (timers q)(t := (timers q t)\<lparr>queued := False\<rparr>), entries := removeAll t (entries q)\<rparr>"

definition pw_timer_queue_cancel :: "nat \<Rightarrow> pw_timer_queue \<Rightarrow> pw_timer_queue" where
  "pw_timer_queue_cancel t q = (if \<not> queued (timers q t) then q else rearm_timer (unlink_timer t q))"

text \<open>What the application, and its callbacks, do with the queue.\<close>

datatype timer_op =
    Add "timespec res" nat "timespec option" int nat nat
  | Cancel nat

fun run_op :: "timer_op \<Rightarrow> pw_timer_queue \<Rightarrow> pw_timer_queue" where
  "run_op (Add clock t abs_time timeout_ns cb data) q =
     (case pw_timer_queue_add clock t abs_time timeout_ns cb data q of Inl _ \<Rightarrow> q | Inr q' \<Rightarrow> q')"
| "run_op (Cancel t) q = pw_timer_queue_cancel t q"

definition timer_timeout :: "(nat \<Rightarrow> nat \<Rightarrow> timer_op list) \<Rightarrow> pw_timer_queue \<Rightarrow> pw_timer_queue" where
  "timer_timeout body q =
     (case entries q of
        [] \<Rightarrow> q
      | t # _ \<Rightarrow>
          if Some t \<noteq> next_timeout q then q
          else let q = unlink_timer t (q\<lparr>next_timeout := None\<rparr>);
                   cb = callback (timers q t); data = cb_data (timers q t);
                   q = fold run_op (body cb data) (q\<lparr>calls := calls q @ [(cb, data)]\<rparr>)
               in rearm_timer q)"

text \<open>\<open>pw_timer_queue_new\<close> and the loop over the entries of \<open>pw_timer_queue_destroy\<close>.\<close>

definition pw_timer_queue_new :: pw_timer_queue where
  "pw_timer_queue_new = \<lparr>timers = (\<lambda>_. \<lparr>queued = False, timeout = \<lparr>tv_sec = 0, tv_nsec = 0\<rparr>, callback = 0, cb_data = 0\<rparr>),
     entries = [], next_timeout = None, armed = None, calls = []\<rparr>"

definition pw_timer_queue_destroy :: "pw_timer_queue \<Rightarrow> pw_timer_queue" where
  "pw_timer_queue_destroy q = fold unlink_timer (entries q) (q\<lparr>armed := None\<rparr>)"

text \<open>
  The queue in use: an operation, or the dispatch of the timer of the loop at a time when it has
  expired. It expires once, so it is disarmed when it is dispatched.
\<close>

definition ts_key :: "timespec \<Rightarrow> int \<times> int" where
  "ts_key t = (tv_sec t, tv_nsec t)"

inductive reach :: "(nat \<Rightarrow> nat \<Rightarrow> timer_op list) \<Rightarrow> pw_timer_queue \<Rightarrow> bool" for body where
  init: "reach body pw_timer_queue_new"
| op: "reach body q \<Longrightarrow> reach body (run_op p q)"
| expire: "reach body q \<Longrightarrow> armed q = Some t \<Longrightarrow> ts_key t \<le> ts_key now \<Longrightarrow> reach body (timer_timeout body (q\<lparr>armed := None\<rparr>))"

section \<open>The order of the entries\<close>

lemma timespec_compare_less: "timespec_compare a b < 0 \<longleftrightarrow> ts_key a < ts_key b"
  by (auto simp: timespec_compare_def ts_key_def)

lemma set_insert_entry [simp]: "set (insert_entry f t xs) = insert t (set xs)"
  by (induction xs) auto

lemma distinct_insert_entry: "distinct (insert_entry f t xs) \<longleftrightarrow> t \<notin> set xs \<and> distinct xs"
  by (induction xs) auto

lemma sorted_insert_entry:
  "sorted (map (\<lambda>x. ts_key (f x)) xs) \<Longrightarrow> sorted (map (\<lambda>x. ts_key (f x)) (insert_entry f t xs))"
  by (induction xs) (auto simp: timespec_compare_less)

section \<open>The timer of the loop\<close>

definition first_entry :: "pw_timer_queue \<Rightarrow> nat option" where
  "first_entry q = (case entries q of [] \<Rightarrow> None | x # _ \<Rightarrow> Some x)"

definition ordered :: "pw_timer_queue \<Rightarrow> bool" where
  "ordered q \<longleftrightarrow> distinct (entries q) \<and> sorted (map (\<lambda>t. ts_key (timeout_of q t)) (entries q)) \<and>
     (\<forall>t. queued (timers q t) \<longleftrightarrow> t \<in> set (entries q))"

text \<open>The loop is armed for the first entry.\<close>

definition served :: "pw_timer_queue \<Rightarrow> bool" where
  "served q \<longleftrightarrow> ordered q \<and> next_timeout q = first_entry q \<and> armed q = map_option (timeout_of q) (first_entry q)"

text \<open>While a callback runs nothing may be armed.\<close>

definition serving :: "pw_timer_queue \<Rightarrow> bool" where
  "serving q \<longleftrightarrow> ordered q \<and> (next_timeout q = None \<and> armed q = None \<or> served q)"

lemma timeout_of_simps [simp]:
  "timeout_of (q\<lparr>entries := e\<rparr>) = timeout_of q" "timeout_of (q\<lparr>armed := a\<rparr>) = timeout_of q"
  "timeout_of (q\<lparr>next_timeout := n\<rparr>) = timeout_of q" "timeout_of (q\<lparr>calls := c\<rparr>) = timeout_of q"
  by (simp_all add: timeout_of_def fun_eq_iff)

lemma rearm_served:
  assumes "ordered q" "next_timeout q = first_entry q \<longrightarrow> armed q = map_option (timeout_of q) (first_entry q)"
  shows "served (rearm_timer q)"
  using assms by (auto simp: rearm_timer_def served_def ordered_def first_entry_def timeout_of_def Let_def split: list.splits)

lemma served_serving: "served q \<Longrightarrow> serving q"
  by (simp add: serving_def served_def)

lemma serving_rearm: "serving q \<Longrightarrow> served (rearm_timer q)"
  by (rule rearm_served) (auto simp: serving_def served_def)

lemma unlink_simps [simp]:
  "timeout_of (unlink_timer t q) = timeout_of q" "entries (unlink_timer t q) = removeAll t (entries q)"
  "queued (timers (unlink_timer t q) u) \<longleftrightarrow> queued (timers q u) \<and> u \<noteq> t"
  "next_timeout (unlink_timer t q) = next_timeout q" "armed (unlink_timer t q) = armed q" "calls (unlink_timer t q) = calls q"
  by (auto simp: unlink_timer_def timeout_of_def)

lemma ordered_unlink: "ordered q \<Longrightarrow> ordered (unlink_timer t q)"
  by (auto simp: ordered_def distinct_removeAll removeAll_filter_not_eq sorted_filter)

lemma served_cancel:
  assumes "serving q"
  shows "serving (pw_timer_queue_cancel t q)"
proof (cases "queued (timers q t)")
  case True
  have o: "ordered q" using assms by (simp add: serving_def)
  have "served (rearm_timer (unlink_timer t q))"
  proof (rule rearm_served [OF ordered_unlink [OF o]], rule impI)
    assume n: "next_timeout (unlink_timer t q) = first_entry (unlink_timer t q)"
    hence n: "next_timeout q = first_entry (unlink_timer t q)" by (simp add: unlink_timer_def)
    show "armed (unlink_timer t q) = map_option (timeout_of (unlink_timer t q)) (first_entry (unlink_timer t q))"
    proof (cases "next_timeout q")
      case None
      hence "armed q = None" using assms by (auto simp: serving_def served_def)
      thus ?thesis using None n by (simp add: unlink_timer_def)
    next
      case (Some x)
      hence s: "served q" using assms by (simp add: serving_def)
      thus ?thesis using n by (simp add: served_def)
    qed
  qed
  thus ?thesis using True served_serving by (simp add: pw_timer_queue_cancel_def)
qed (use assms in \<open>simp add: pw_timer_queue_cancel_def\<close>)

lemma ordered_insert:
  assumes o: "ordered q" and t: "\<not> queued (timers q t)"
  shows "ordered (q\<lparr>timers := (timers q)(t := x\<lparr>queued := True\<rparr>),
    entries := insert_entry (timeout_of (q\<lparr>timers := (timers q)(t := x\<lparr>queued := True\<rparr>)\<rparr>)) t (entries q)\<rparr>)"
proof -
  let ?f = "timeout_of (q\<lparr>timers := (timers q)(t := x\<lparr>queued := True\<rparr>)\<rparr>)"
  have n: "t \<notin> set (entries q)" using o t by (simp add: ordered_def)
  have m: "map (\<lambda>y. ts_key (?f y)) (entries q) = map (\<lambda>y. ts_key (timeout_of q y)) (entries q)"
    using n by (auto simp: timeout_of_def)
  have "sorted (map (\<lambda>y. ts_key (?f y)) (entries q))" unfolding m using o by (simp add: ordered_def)
  from sorted_insert_entry [OF this, of t] show ?thesis
    using o n by (auto simp: ordered_def distinct_insert_entry)
qed

lemma served_add:
  assumes s: "serving q" and a: "pw_timer_queue_add clock t abs_time timeout_ns cb data q = Inr q'"
  shows "served q'"
proof -
  have t: "\<not> queued (timers q t)" using a by (auto simp: pw_timer_queue_add_def split: if_splits)
  obtain base where b: "(case abs_time of None \<Rightarrow> clock | Some a \<Rightarrow> Inr a) = Inr base"
    using a t by (auto simp: pw_timer_queue_add_def split: sum.splits)
  define x where "x = \<lparr>queued = True, timeout = expiry base timeout_ns, callback = cb, cb_data = data\<rparr>"
  define u where "u = q\<lparr>timers := (timers q)(t := x)\<rparr>"
  define v where "v = u\<lparr>entries := insert_entry (timeout_of u) t (entries q)\<rparr>"
  have e: "q' = rearm_timer v" using a t b by (simp add: pw_timer_queue_add_def Let_def v_def u_def x_def)
  have o: "ordered q" using s by (simp add: serving_def)
  have xx: "x\<lparr>queued := True\<rparr> = x" by (simp add: x_def)
  have ov: "ordered v" using ordered_insert [OF o t, of x] unfolding xx by (simp add: v_def u_def)
  have n: "t \<notin> set (entries q)" using o t by (simp add: ordered_def)
  show ?thesis
    unfolding e
  proof (rule rearm_served [OF ov], rule impI)
    assume nt: "next_timeout v = first_entry v"
    have "first_entry v \<noteq> None" by (cases "entries q") (auto simp: first_entry_def v_def)
    then obtain y where y: "next_timeout q = Some y" using nt by (auto simp: v_def u_def)
    hence sv: "served q" using s by (simp add: serving_def)
    hence "y \<in> set (entries q)" using y by (auto simp: served_def first_entry_def split: list.splits)
    hence "y \<noteq> t" using n by blast
    moreover have "first_entry q = Some y" "armed q = map_option (timeout_of q) (first_entry q)" using sv y by (simp_all add: served_def)
    hence "armed q = Some (timeout_of q y)" by simp
    moreover have "first_entry v = Some y" "armed v = armed q" using nt y by (simp_all add: v_def u_def)
    moreover have "y \<noteq> t \<Longrightarrow> timeout_of v y = timeout_of q y" by (simp add: v_def u_def timeout_of_def)
    ultimately show "armed v = map_option (timeout_of v) (first_entry v)" by simp
  qed
qed

lemma serving_op: "serving q \<Longrightarrow> serving (run_op p q)"
  by (cases p) (auto simp: served_cancel split: sum.splits dest: served_add served_serving)

lemma served_op: "served q \<Longrightarrow> served (run_op p q)"
proof (cases p)
  case (Cancel t)
  assume s: "served q"
  hence "serving (pw_timer_queue_cancel t q)" using served_cancel served_serving by blast
  hence "served (rearm_timer (pw_timer_queue_cancel t q))" by (rule serving_rearm)
  moreover have "pw_timer_queue_cancel t q = q \<or> (\<exists>u. pw_timer_queue_cancel t q = rearm_timer u)"
    by (auto simp: pw_timer_queue_cancel_def)
  moreover have "rearm_timer (rearm_timer u) = rearm_timer u" for u
    by (simp add: rearm_timer_def Let_def)
  ultimately show ?thesis using s Cancel by auto
qed (auto split: sum.splits dest: served_add [OF served_serving])

lemma serving_ops: "serving q \<Longrightarrow> serving (fold run_op ps q)"
  by (induction ps arbitrary: q) (simp_all add: serving_op)

lemma served_timeout:
  assumes "served q"
  shows "served (timer_timeout body (q\<lparr>armed := None\<rparr>))"
proof (cases "entries q")
  case Nil
  thus ?thesis using assms by (simp add: timer_timeout_def served_def first_entry_def ordered_def timeout_of_def)
next
  case (Cons t ts)
  let ?u = "unlink_timer t (q\<lparr>armed := None, next_timeout := None\<rparr>)"
  have n: "next_timeout q = Some t" using assms Cons by (simp add: served_def first_entry_def)
  have "ordered (q\<lparr>armed := None, next_timeout := None\<rparr>)" using assms by (simp add: served_def ordered_def timeout_of_def)
  hence o: "ordered ?u" by (rule ordered_unlink)
  have "serving (?u\<lparr>calls := c\<rparr>)" for c
    using o by (simp add: serving_def ordered_def timeout_of_def unlink_timer_def)
  hence "served (rearm_timer (fold run_op (body cb d) (?u\<lparr>calls := c\<rparr>)))" for cb d c by (intro serving_rearm serving_ops)
  thus ?thesis using Cons n by (simp add: timer_timeout_def Let_def)
qed

text \<open>The destroyed queue keeps no timer.\<close>

lemma destroy_unlinks: "ordered q \<Longrightarrow> entries (pw_timer_queue_destroy q) = [] \<and> \<not> queued (timers (pw_timer_queue_destroy q) t)"
proof -
  have f: "entries (fold unlink_timer ts q) = filter (\<lambda>x. x \<notin> set ts) (entries q) \<and>
      (queued (timers (fold unlink_timer ts q) t) \<longleftrightarrow> queued (timers q t) \<and> t \<notin> set ts)" for ts q
    by (induction ts arbitrary: q) (auto simp: removeAll_filter_not_eq filter_filter conj_commute intro: filter_cong)
  assume "ordered q"
  thus ?thesis using f [of "entries q" "q\<lparr>armed := None\<rparr>"] by (simp add: pw_timer_queue_destroy_def ordered_def)
qed

text \<open>The timeout is exact and normalised when the base is.\<close>

lemma expiry_exact:
  assumes "0 \<le> tv_nsec base" "tv_nsec base < SPA_NSEC_PER_SEC"
  shows "0 \<le> tv_nsec (expiry base ns) \<and> tv_nsec (expiry base ns) < SPA_NSEC_PER_SEC \<and>
    tv_sec (expiry base ns) * SPA_NSEC_PER_SEC + tv_nsec (expiry base ns) = tv_sec base * SPA_NSEC_PER_SEC + tv_nsec base + max 0 ns"
proof -
  have "ns div 1000000000 * 1000000000 + ns mod 1000000000 = ns" "0 \<le> ns mod 1000000000" "ns mod 1000000000 < 1000000000" by simp_all
  thus ?thesis using assms by (auto simp: expiry_def Let_def max_def algebra_simps)
qed

lemma served_new: "served pw_timer_queue_new"
  by (simp add: served_def pw_timer_queue_new_def ordered_def first_entry_def)

lemma reach_served: "reach body q \<Longrightarrow> served q"
  by (induction rule: reach.induct) (simp_all add: served_new served_op served_timeout)

text \<open>
  C37: in every state of a timer queue the loop is armed for the earliest of its timers, or disarmed when
  there is none; the entries are the queued timers, each once, in the order of their timeouts. The
  timer that \<^verbatim>\<open>timer_timeout\<close> finds first is always the one the loop was last armed for.
\<close>

theorem timer_queue_armed_earliest:
  assumes "reach body q"
  shows "(\<forall>t. queued (timers q t) \<longleftrightarrow> t \<in> set (entries q)) \<and> distinct (entries q) \<and>
    sorted (map (\<lambda>t. ts_key (timeout_of q t)) (entries q)) \<and>
    (case entries q of [] \<Rightarrow> armed q = None \<and> next_timeout q = None
     | t # ts \<Rightarrow> armed q = Some (timeout_of q t) \<and> next_timeout q = Some t)"
  using reach_served [OF assms] by (auto simp: served_def ordered_def first_entry_def split: list.splits)

text \<open>The example of a queue with two timers, the second added earlier in time.\<close>

definition demo_queue :: pw_timer_queue where
  "demo_queue = run_op (Add (Inr \<lparr>tv_sec = 1, tv_nsec = 0\<rparr>) 8 None 5 2 3)
     (run_op (Add (Inr \<lparr>tv_sec = 1, tv_nsec = 0\<rparr>) 7 None 1500000000 0 1) pw_timer_queue_new)"

lemma demo_queue_reach: "reach (\<lambda>_ _. []) demo_queue"
  unfolding demo_queue_def by (intro reach.op reach.init)

lemma demo_queue_entries: "entries demo_queue = [8, 7]"
  by (simp add: demo_queue_def pw_timer_queue_add_def pw_timer_queue_new_def Let_def expiry_def rearm_timer_def timeout_of_def timespec_compare_def)

theorem timer_queue_armed_earliest_witness:
  "armed demo_queue = Some (timeout_of demo_queue 8) \<and> sorted (map (\<lambda>t. ts_key (timeout_of demo_queue t)) [8, 7])"
  using timer_queue_armed_earliest [OF demo_queue_reach] by (simp add: demo_queue_entries)

section \<open>The queue implements the list of pending timers\<close>

text \<open>A pending timer with its timeout, callback and data; the list is in the order of addition.\<close>

type_synonym pending = "nat \<times> timespec \<times> nat \<times> nat"

definition p_key :: "pending \<Rightarrow> int \<times> int" where
  "p_key e = ts_key (fst (snd e))"

fun spec_op :: "timer_op \<Rightarrow> pending list \<Rightarrow> pending list" where
  "spec_op (Add clock t abs_time timeout_ns cb data) a =
     (if t \<in> fst ` set a then a
      else case (case abs_time of None \<Rightarrow> clock | Some x \<Rightarrow> Inr x) of Inl _ \<Rightarrow> a | Inr base \<Rightarrow> a @ [(t, expiry base timeout_ns, cb, data)])"
| "spec_op (Cancel t) a = filter (\<lambda>e. fst e \<noteq> t) a"

definition timer_of :: "pending \<Rightarrow> pw_timer" where
  "timer_of e = (case e of (t, x, cb, d) \<Rightarrow> \<lparr>queued = True, timeout = x, callback = cb, cb_data = d\<rparr>)"

definition represents :: "pw_timer_queue \<Rightarrow> pending list \<Rightarrow> bool" where
  "represents q a \<longleftrightarrow> distinct (map fst a) \<and> entries q = map fst (sort_key p_key a) \<and>
     (\<forall>e\<in>set a. timers q (fst e) = timer_of e) \<and> (\<forall>t. queued (timers q t) \<longrightarrow> t \<in> fst ` set a)"

lemma rearm_simps [simp]: "timers (rearm_timer q) = timers q" "entries (rearm_timer q) = entries q" "calls (rearm_timer q) = calls q"
  by (simp_all add: rearm_timer_def Let_def)

lemma represents_simps [simp]:
  "represents (rearm_timer q) a = represents q a" "represents (q\<lparr>armed := x\<rparr>) a = represents q a"
  "represents (q\<lparr>next_timeout := n\<rparr>) a = represents q a" "represents (q\<lparr>calls := c\<rparr>) a = represents q a"
  by (simp_all add: represents_def)

fun insert_pending :: "pending \<Rightarrow> pending list \<Rightarrow> pending list" where
  "insert_pending e [] = [e]"
| "insert_pending e (x # xs) = (if p_key e < p_key x then e # x # xs else x # insert_pending e xs)"

lemma mset_insert_pending: "mset (insert_pending e xs) = mset (xs @ [e])"
  by (induction xs) auto

lemma set_insert_pending: "set (insert_pending e xs) = insert e (set xs)"
  by (induction xs) auto

lemma sorted_insert_pending: "sorted (map p_key xs) \<Longrightarrow> sorted (map p_key (insert_pending e xs))"
  by (induction xs) (auto simp: set_insert_pending)

lemma filter_insert_pending:
  "sorted (map p_key xs) \<Longrightarrow> filter (\<lambda>x. k = p_key x) (insert_pending e xs) = filter (\<lambda>x. k = p_key x) (xs @ [e])"
proof (induction xs)
  case (Cons x xs)
  have "filter (\<lambda>y. p_key e = p_key y) (x # xs) = []" if "p_key e < p_key x"
    using Cons.prems that by (auto simp: filter_empty_conv)
  thus ?case using Cons by (cases "k = p_key e") auto
qed simp

text \<open>Insertion behind the entries with the same timeout is a stable sort.\<close>

lemma sort_insert_pending: "sort_key p_key (a @ [e]) = insert_pending e (sort_key p_key a)"
proof (rule properties_for_sort_key)
  show "mset (insert_pending e (sort_key p_key a)) = mset (a @ [e])" by (simp add: mset_insert_pending)
  show "sorted (map p_key (insert_pending e (sort_key p_key a)))" by (rule sorted_insert_pending) simp
  fix k assume "k \<in> set (insert_pending e (sort_key p_key a))"
  have "filter (\<lambda>x. p_key k = p_key x) (sort_key p_key a) = filter (\<lambda>x. p_key k = p_key x) a"
    by (simp only: eq_commute [of "p_key k"] sort_key_stable)
  thus "filter (\<lambda>x. p_key k = p_key x) (insert_pending e (sort_key p_key a)) = filter (\<lambda>x. p_key k = p_key x) (a @ [e])"
    by (simp add: filter_insert_pending)
qed

lemma insert_entry_pending:
  "f (fst e) = fst (snd e) \<Longrightarrow> \<forall>x\<in>set xs. f (fst x) = fst (snd x) \<Longrightarrow>
   insert_entry f (fst e) (map fst xs) = map fst (insert_pending e xs)"
  by (induction xs) (auto simp: timespec_compare_less p_key_def)

lemma represents_unlink:
  assumes "represents q a"
  shows "represents (unlink_timer t q) (filter (\<lambda>e. fst e \<noteq> t) a)"
proof -
  have "removeAll t (map fst xs) = map fst (filter (\<lambda>e. fst e \<noteq> t) xs)" for xs :: "pending list"
    by (induction xs) auto
  hence "entries (unlink_timer t q) = map fst (sort_key p_key (filter (\<lambda>e. fst e \<noteq> t) a))"
    using assms by (simp add: represents_def filter_sort)
  moreover have "distinct (map fst (filter (\<lambda>e. fst e \<noteq> t) a))"
    using assms by (auto simp: represents_def distinct_map inj_on_def)
  ultimately show ?thesis using assms unfolding represents_def by (auto simp: unlink_timer_def)
qed

lemma represents_queued: "represents q a \<Longrightarrow> queued (timers q t) \<longleftrightarrow> t \<in> fst ` set a"
  unfolding represents_def by (auto simp: timer_of_def)

lemma represents_op:
  assumes r: "represents q a"
  shows "represents (run_op p q) (spec_op p a)"
proof (cases p)
  case (Cancel t)
  show ?thesis
  proof (cases "queued (timers q t)")
    case False
    hence "filter (\<lambda>e. fst e \<noteq> t) a = a" using represents_queued [OF r, of t] by (auto simp: filter_id_conv)
    thus ?thesis using r Cancel False by (simp add: pw_timer_queue_cancel_def)
  qed (use represents_unlink [OF r] Cancel in \<open>simp add: pw_timer_queue_cancel_def\<close>)
next
  case (Add clock t abs_time timeout_ns cb data)
  show ?thesis
  proof (cases "t \<in> fst ` set a \<or> (\<exists>e. (case abs_time of None \<Rightarrow> clock | Some x \<Rightarrow> Inr x) = Inl e)")
    case True
    thus ?thesis using r Add represents_queued [OF r, of t] by (auto simp: pw_timer_queue_add_def)
  next
    case False
    then obtain base where b: "(case abs_time of None \<Rightarrow> clock | Some x \<Rightarrow> Inr x) = Inr base" by (meson sumE)
    define e where "e = (t, expiry base timeout_ns, cb, data)"
    define u where "u = q\<lparr>timers := (timers q)(t := timer_of e)\<rparr>"
    have t: "t \<notin> fst ` set a" "\<not> queued (timers q t)" using False represents_queued [OF r, of t] by auto
    have f: "timeout_of u (fst e) = fst (snd e)" "\<forall>x\<in>set (sort_key p_key a). timeout_of u (fst x) = fst (snd x)"
      using r t by (auto simp: u_def e_def timeout_of_def timer_of_def represents_def)
    have "run_op p q = rearm_timer (u\<lparr>entries := insert_entry (timeout_of u) t (entries q)\<rparr>)"
      using Add b t(2) by (simp add: pw_timer_queue_add_def Let_def u_def e_def timer_of_def)
    moreover have "insert_entry (timeout_of u) t (entries q) = map fst (sort_key p_key (a @ [e]))"
      using insert_entry_pending [OF f] r by (simp add: sort_insert_pending represents_def e_def)
    moreover have "spec_op p a = a @ [e]" using Add b t(1) by (simp add: e_def)
    ultimately show ?thesis using r t by (auto simp: represents_def u_def e_def timer_of_def)
  qed
qed

lemma represents_ops: "represents q a \<Longrightarrow> represents (fold run_op ps q) (fold spec_op ps a)"
  by (induction ps arbitrary: q a) (simp_all add: represents_op)

lemma calls_op [simp]: "calls (run_op p q) = calls q"
  by (cases p) (auto simp: pw_timer_queue_add_def pw_timer_queue_cancel_def Let_def split: sum.splits)

lemma calls_ops [simp]: "calls (fold run_op ps q) = calls q"
  by (induction ps arbitrary: q) simp_all

text \<open>
  C38: a timer queue implements the list of its pending timers in the order they were added: a new queue
  has none, adding appends a timer unless it is pending or the clock cannot be read, cancelling
  removes it. When the loop finds its timer expired, the pending timer first in a stable sort by timeout
  is removed and its callback called, once, with its data; what the callback adds and cancels happens next.
\<close>

theorem timer_queue_refines:
  assumes h: "reach body q" "represents q a"
  shows "represents pw_timer_queue_new [] \<and> represents (run_op p q) (spec_op p a) \<and>
    (case sort_key p_key a of
       [] \<Rightarrow> armed q = None
     | (t, x, cb, d) # _ \<Rightarrow> armed q = Some x \<and>
         represents (timer_timeout body (q\<lparr>armed := None\<rparr>)) (fold spec_op (body cb d) (filter (\<lambda>e. fst e \<noteq> t) a)) \<and>
         calls (timer_timeout body (q\<lparr>armed := None\<rparr>)) = calls q @ [(cb, d)])"
proof (intro conjI)
  show "represents pw_timer_queue_new []" by (simp add: represents_def pw_timer_queue_new_def)
  show "represents (run_op p q) (spec_op p a)" using h(2) by (rule represents_op)
  have sv: "next_timeout q = first_entry q" "armed q = map_option (timeout_of q) (first_entry q)"
    using reach_served [OF h(1)] by (simp_all add: served_def)
  have ent: "entries q = map fst (sort_key p_key a)" using h(2) by (simp add: represents_def)
  show "case sort_key p_key a of [] \<Rightarrow> armed q = None
     | (t, x, cb, d) # _ \<Rightarrow> armed q = Some x \<and>
         represents (timer_timeout body (q\<lparr>armed := None\<rparr>)) (fold spec_op (body cb d) (filter (\<lambda>e. fst e \<noteq> t) a)) \<and>
         calls (timer_timeout body (q\<lparr>armed := None\<rparr>)) = calls q @ [(cb, d)]"
  proof (cases "sort_key p_key a")
    case Nil
    thus ?thesis using ent sv by (simp add: first_entry_def)
  next
    case (Cons e es)
    obtain t x cb d where e: "e = (t, x, cb, d)" by (cases e) auto
    let ?q = "unlink_timer t (q\<lparr>armed := None, next_timeout := None\<rparr>)"
    have n: "entries q = t # map fst es" "first_entry q = Some t" using ent Cons e by (simp_all add: first_entry_def)
    have "(t, x, cb, d) \<in> set a" using Cons e set_sort [of p_key a] by (metis list.set_intros(1))
    hence "timers q t = timer_of (t, x, cb, d)" using h(2) by (auto simp: represents_def)
    hence tm: "callback (timers ?q t) = cb" "cb_data (timers ?q t) = d" "timeout_of q t = x"
      by (simp_all add: timer_of_def unlink_timer_def timeout_of_def)
    have "represents (?q\<lparr>calls := calls q @ [(cb, d)]\<rparr>) (filter (\<lambda>e. fst e \<noteq> t) a)" using represents_unlink h(2) by simp
    thus ?thesis using n sv tm Cons e by (simp add: timer_timeout_def Let_def represents_ops)
  qed
qed

theorem timer_queue_refines_witness:
  "calls (timer_timeout (\<lambda>_ _. []) (demo_queue\<lparr>armed := None\<rparr>)) = [(2, 3)]"
proof -
  define a :: "pending list" where "a = [(7, \<lparr>tv_sec = 2, tv_nsec = 500000000\<rparr>, 0, 1), (8, \<lparr>tv_sec = 1, tv_nsec = 5\<rparr>, 2, 3)]"
  have d: "calls demo_queue = []" by (simp only: demo_queue_def calls_op) (simp add: pw_timer_queue_new_def)
  have "represents pw_timer_queue_new []" by (simp add: represents_def pw_timer_queue_new_def)
  from represents_op [OF represents_op [OF this]]
  have "represents demo_queue (spec_op (Add (Inr \<lparr>tv_sec = 1, tv_nsec = 0\<rparr>) 8 None 5 2 3)
      (spec_op (Add (Inr \<lparr>tv_sec = 1, tv_nsec = 0\<rparr>) 7 None 1500000000 0 1) []))"
    unfolding demo_queue_def .
  hence r: "represents demo_queue a" by (simp add: a_def expiry_def Let_def)
  have "sort_key p_key a = [(8, \<lparr>tv_sec = 1, tv_nsec = 5\<rparr>, 2, 3), (7, \<lparr>tv_sec = 2, tv_nsec = 500000000\<rparr>, 0, 1)]"
    by (simp add: a_def p_key_def ts_key_def)
  thus ?thesis using timer_queue_refines [OF demo_queue_reach r] d by simp
qed

end
