(* ===== verification/PW_Work.thy ===== *)
theory PW_Work
  imports PW_Prelude
begin

text \<open>
  The work queue of \<^verbatim>\<open>src/pipewire/work-queue.c\<close>: functions that are called from the loop, at once, when an
  asynchronous operation completes, or in order.

  Work items are numbered in the order of their allocation; \<open>item\<close> is their memory. \<open>signalled\<close> says whether
  the wakeup event of the loop is pending, \<open>executed\<close> records the calls. The functions of the items may
  add, cancel and complete work; they are a parameter that gives these operations. Allocation of an item
  may fail, which an argument of the operation says. Allocation and destruction of the queue, and logging,
  are left out.
\<close>

section \<open>The queue\<close>

abbreviation (input) SPA_ID_INVALID :: u32 where "SPA_ID_INVALID \<equiv> 4294967295"
abbreviation (input) res_EBUSY :: u32 where "res_EBUSY \<equiv> - 16"

definition SPA_RESULT_IS_ASYNC :: "u32 \<Rightarrow> bool" where
  "SPA_RESULT_IS_ASYNC res \<longleftrightarrow> res AND (push_bit 30 3) = push_bit 30 1"

definition SPA_RESULT_ASYNC_SEQ :: "u32 \<Rightarrow> u32" where
  "SPA_RESULT_ASYNC_SEQ res = res AND (push_bit 30 1 - 1)"

record work_item =
  obj :: nat
  item_id :: u32
  seq :: u32
  func :: "nat option"
  item_data :: nat
  item_res :: u32

type_synonym call = "nat \<times> nat \<times> nat \<times> u32 \<times> u32"

record pw_work_queue =
  item :: "nat \<Rightarrow> work_item"
  allocated :: nat
  work_list :: "nat list"
  free_list :: "nat list"
  counter :: u32
  n_queued :: u32
  signalled :: bool
  executed :: "call list"

definition pw_work_queue_new :: pw_work_queue where
  "pw_work_queue_new = \<lparr>item = (\<lambda>_. \<lparr>obj = 0, item_id = 0, seq = 0, func = None, item_data = 0, item_res = 0\<rparr>), allocated = 0,
     work_list = [], free_list = [], counter = 0, n_queued = 0, signalled = False, executed = []\<rparr>"

text \<open>The item to use: the first of the free list or a new one, \<open>None\<close> when there is no memory.\<close>

definition take_item :: "bool \<Rightarrow> pw_work_queue \<Rightarrow> (nat \<times> pw_work_queue) option" where
  "take_item mem q =
     (case free_list q of
        x # xs \<Rightarrow> Some (x, q\<lparr>free_list := xs\<rparr>)
      | [] \<Rightarrow> if mem then Some (allocated q, q\<lparr>allocated := allocated q + 1\<rparr>) else None)"

definition next_id :: "u32 \<Rightarrow> u32" where
  "next_id c = (if c + 1 = SPA_ID_INVALID then c + 1 + 1 else c + 1)"

definition pw_work_queue_add :: "bool \<Rightarrow> nat \<Rightarrow> u32 \<Rightarrow> nat option \<Rightarrow> nat \<Rightarrow> pw_work_queue \<Rightarrow> u32 \<times> pw_work_queue" where
  "pw_work_queue_add mem ob res f data q =
     (case take_item mem q of
        None \<Rightarrow> (SPA_ID_INVALID, q)
      | Some (x, q) \<Rightarrow>
          let i = next_id (counter q);
              s = (if SPA_RESULT_IS_ASYNC res then SPA_RESULT_ASYNC_SEQ res else SPA_ID_INVALID);
              have_work = (\<not> SPA_RESULT_IS_ASYNC res)
          in (i, q\<lparr>counter := i,
                   item := (item q)(x := \<lparr>obj = ob, item_id = i, seq = s, func = f, item_data = data, item_res = res\<rparr>),
                   work_list := work_list q @ [x], n_queued := n_queued q + 1,
                   signalled := signalled q \<or> have_work\<rparr>))"

text \<open>The loops over the work list that change the items they match, and the wakeup after them.\<close>

definition update_items :: "(work_item \<Rightarrow> bool) \<Rightarrow> (work_item \<Rightarrow> work_item) \<Rightarrow> pw_work_queue \<Rightarrow> pw_work_queue res" where
  "update_items match f q =
     (let q' = fold (\<lambda>x q. if match (item q x) then q\<lparr>item := (item q)(x := f (item q x))\<rparr> else q) (work_list q) q
      in if \<not> (\<exists>x\<in>set (work_list q). match (item q x)) then Inl EINVAL else Inr (q'\<lparr>signalled := True\<rparr>))"

definition pw_work_queue_cancel :: "nat option \<Rightarrow> u32 \<Rightarrow> pw_work_queue \<Rightarrow> pw_work_queue res" where
  "pw_work_queue_cancel ob i q =
     update_items (\<lambda>w. (i = SPA_ID_INVALID \<or> item_id w = i) \<and> (ob = None \<or> Some (obj w) = ob))
       (\<lambda>w. w\<lparr>seq := SPA_ID_INVALID, func := None\<rparr>) q"

definition pw_work_queue_complete :: "nat \<Rightarrow> u32 \<Rightarrow> u32 \<Rightarrow> pw_work_queue \<Rightarrow> pw_work_queue res" where
  "pw_work_queue_complete ob s res q =
     update_items (\<lambda>w. obj w = ob \<and> seq w = s) (\<lambda>w. w\<lparr>seq := SPA_ID_INVALID, item_res := res\<rparr>) q"

datatype work_op =
    Add bool nat u32 "nat option" nat
  | Cancel "nat option" u32
  | Complete nat u32 u32

fun work_run :: "work_op \<Rightarrow> pw_work_queue \<Rightarrow> pw_work_queue" where
  "work_run (Add mem ob res f data) q = snd (pw_work_queue_add mem ob res f data q)"
| "work_run (Cancel ob i) q = (case pw_work_queue_cancel ob i q of Inl _ \<Rightarrow> q | Inr q' \<Rightarrow> q')"
| "work_run (Complete ob s res) q = (case pw_work_queue_complete ob s res q of Inl _ \<Rightarrow> q | Inr q' \<Rightarrow> q')"

section \<open>Processing\<close>

text \<open>The item after \<open>x\<close>; \<open>None\<close> is the head of the list.\<close>

fun next_of :: "nat \<Rightarrow> nat list \<Rightarrow> nat option" where
  "next_of x [] = None"
| "next_of x (y # ys) = (if x = y then (case ys of [] \<Rightarrow> None | z # _ \<Rightarrow> Some z) else next_of x ys)"

type_synonym work_body = "nat \<Rightarrow> nat \<Rightarrow> nat \<Rightarrow> u32 \<Rightarrow> u32 \<Rightarrow> work_op list"

text \<open>An item that is not skipped leaves the list, its function is called, and it becomes free.\<close>

definition process_item :: "work_body \<Rightarrow> nat \<Rightarrow> pw_work_queue \<Rightarrow> pw_work_queue" where
  "process_item body x q =
     (let w = item q x;
          q = q\<lparr>work_list := removeAll x (work_list q), n_queued := n_queued q - 1\<rparr>;
          q = (case func w of
                 None \<Rightarrow> q
               | Some f \<Rightarrow> fold work_run (body f (obj w) (item_data w) (item_res w) (item_id w))
                   (q\<lparr>executed := executed q @ [(f, obj w, item_data w, item_res w, item_id w)]\<rparr>))
      in q\<lparr>free_list := free_list q @ [x]\<rparr>)"

definition skipped :: "nat \<Rightarrow> pw_work_queue \<Rightarrow> bool" where
  "skipped x q \<longleftrightarrow> seq (item q x) \<noteq> SPA_ID_INVALID \<or> item_res (item q x) = res_EBUSY \<and> x \<noteq> hd (work_list q)"

text \<open>The loop of \<^verbatim>\<open>process_work_queue\<close> at an item; the next item is read before the function is called.\<close>

fun process_loop :: "nat \<Rightarrow> work_body \<Rightarrow> nat option \<Rightarrow> pw_work_queue \<Rightarrow> pw_work_queue option" where
  "process_loop k body None q = Some q"
| "process_loop 0 body (Some x) q = None"
| "process_loop (Suc k) body (Some x) q =
     (let tmp = next_of x (work_list q)
      in process_loop k body tmp (if skipped x q then q else process_item body x q))"

definition process_work_queue :: "nat \<Rightarrow> work_body \<Rightarrow> pw_work_queue \<Rightarrow> pw_work_queue option" where
  "process_work_queue k body q =
     process_loop k body (case work_list q of [] \<Rightarrow> None | x # _ \<Rightarrow> Some x) q"

text \<open>The queue in use: operations, and the loop that takes the wakeup event and processes the queue.\<close>

inductive work_reach :: "work_body \<Rightarrow> pw_work_queue \<Rightarrow> bool" for body where
  init: "work_reach body pw_work_queue_new"
| op: "work_reach body q \<Longrightarrow> work_reach body (work_run p q)"
| wakeup: "work_reach body q \<Longrightarrow> signalled q \<Longrightarrow> process_work_queue k body (q\<lparr>signalled := False\<rparr>) = Some q' \<Longrightarrow>
    work_reach body q'"

section \<open>What an operation does to the list\<close>

definition waiting :: "pw_work_queue \<Rightarrow> nat \<Rightarrow> bool" where
  "waiting q x \<longleftrightarrow> seq (item q x) \<noteq> SPA_ID_INVALID"

definition in_order :: "pw_work_queue \<Rightarrow> nat \<Rightarrow> bool" where
  "in_order q x \<longleftrightarrow> item_res (item q x) = res_EBUSY"

text \<open>The lists, when the items \<open>H\<close> are in none of them.\<close>

definition work_wf :: "nat set \<Rightarrow> pw_work_queue \<Rightarrow> bool" where
  "work_wf H q \<longleftrightarrow> distinct (work_list q @ free_list q) \<and> (\<forall>x\<in>set (work_list q @ free_list q). x < allocated q \<and> x \<notin> H) \<and>
     (\<forall>x\<in>H. x < allocated q) \<and> n_queued q = of_nat (length (work_list q))"

text \<open>Items are added behind the others; what is not signalled leaves the others alone and adds items that wait.\<close>

definition extends_work :: "pw_work_queue \<Rightarrow> pw_work_queue \<Rightarrow> bool" where
  "extends_work q q' \<longleftrightarrow> (\<exists>new. work_list q' = work_list q @ new \<and>
     (signalled q' \<or> \<not> signalled q \<and> (\<forall>x\<in>set (work_list q). item q' x = item q x) \<and> (\<forall>x\<in>set new. waiting q' x)))"

lemma extends_refl [simp]: "extends_work q q"
  unfolding extends_work_def by (intro exI [of _ "[]"]) simp

lemma extends_trans:
  assumes "extends_work q r" "extends_work r s"
  shows "extends_work q s"
proof -
  obtain m n where m: "work_list r = work_list q @ m"
      "signalled r \<or> \<not> signalled q \<and> (\<forall>x\<in>set (work_list q). item r x = item q x) \<and> (\<forall>x\<in>set m. waiting r x)"
    and n: "work_list s = work_list r @ n"
      "signalled s \<or> \<not> signalled r \<and> (\<forall>x\<in>set (work_list r). item s x = item r x) \<and> (\<forall>x\<in>set n. waiting s x)"
    using assms unfolding extends_work_def by blast
  show ?thesis
    unfolding extends_work_def
  proof (intro exI [of _ "m @ n"] conjI)
    show "work_list s = work_list q @ m @ n" using m n by simp
    show "signalled s \<or> \<not> signalled q \<and> (\<forall>x\<in>set (work_list q). item s x = item q x) \<and> (\<forall>x\<in>set (m @ n). waiting s x)"
      using m n by (auto simp: waiting_def)
  qed
qed

lemma async_seq_valid: "SPA_RESULT_ASYNC_SEQ res \<noteq> SPA_ID_INVALID"
proof
  assume "SPA_RESULT_ASYNC_SEQ res = SPA_ID_INVALID"
  hence "bit (SPA_RESULT_ASYNC_SEQ res) 31 = bit (4294967295 :: u32) 31" by simp
  thus False by (simp add: SPA_RESULT_ASYNC_SEQ_def bit_simps)
qed

lemma take_item_wf:
  assumes "work_wf H q" "take_item mem q = Some (x, r)"
  shows "work_wf (insert x H) r" "x \<notin> H" "x \<notin> set (work_list q)" "work_list r = work_list q" "item r = item q" "signalled r = signalled q"
  using assms by (auto simp: work_wf_def take_item_def less_SucI split: list.splits if_splits)

lemma add_facts:
  assumes w: "work_wf H q"
  shows "work_wf H (snd (pw_work_queue_add mem ob res f data q))" "extends_work q (snd (pw_work_queue_add mem ob res f data q))"
proof -
  have "work_wf H (snd (pw_work_queue_add mem ob res f data q)) \<and> extends_work q (snd (pw_work_queue_add mem ob res f data q))"
  proof (cases "take_item mem q")
    case None
    thus ?thesis using w by (simp add: pw_work_queue_add_def)
  next
    case (Some p)
    then obtain x r where r: "take_item mem q = Some (x, r)" by (cases p) auto
    note t = take_item_wf [OF w r]
    let ?s = "snd (pw_work_queue_add mem ob res f data q)"
    have l: "work_list ?s = work_list q @ [x]" "signalled ?s = (signalled q \<or> \<not> SPA_RESULT_IS_ASYNC res)"
        "free_list ?s = free_list r" "allocated ?s = allocated r" "n_queued ?s = n_queued r + 1"
        "\<And>y. y \<noteq> x \<Longrightarrow> item ?s y = item q y" "SPA_RESULT_IS_ASYNC res \<Longrightarrow> waiting ?s x"
      using t(4-6) async_seq_valid by (simp_all add: pw_work_queue_add_def r Let_def waiting_def)
    have "work_wf H ?s" using t l unfolding work_wf_def by auto
    moreover have "extends_work q ?s" unfolding extends_work_def
    proof (intro exI [of _ "[x]"] conjI)
      have "\<forall>y\<in>set (work_list q). item ?s y = item q y" using l(6) t(3) by metis
      thus "signalled ?s \<or> \<not> signalled q \<and> (\<forall>y\<in>set (work_list q). item ?s y = item q y) \<and> (\<forall>y\<in>set [x]. waiting ?s y)"
        using l(2,7) by auto
    qed (rule l(1))
    ultimately show ?thesis ..
  qed
  thus "work_wf H (snd (pw_work_queue_add mem ob res f data q))" "extends_work q (snd (pw_work_queue_add mem ob res f data q))" by auto
qed

lemma fold_items:
  "work_list (fold (\<lambda>x q. if m (item q x) then q\<lparr>item := (item q)(x := f (item q x))\<rparr> else q) xs q) = work_list q \<and>
   free_list (fold (\<lambda>x q. if m (item q x) then q\<lparr>item := (item q)(x := f (item q x))\<rparr> else q) xs q) = free_list q \<and>
   allocated (fold (\<lambda>x q. if m (item q x) then q\<lparr>item := (item q)(x := f (item q x))\<rparr> else q) xs q) = allocated q \<and>
   n_queued (fold (\<lambda>x q. if m (item q x) then q\<lparr>item := (item q)(x := f (item q x))\<rparr> else q) xs q) = n_queued q"
  by (induction xs arbitrary: q) auto

lemma update_items_facts:
  assumes "work_wf H q" "update_items m f q = Inr r"
  shows "work_wf H r" "extends_work q r"
  using assms fold_items [of m f "work_list q" q]
  by (auto simp: update_items_def work_wf_def extends_work_def Let_def split: if_splits)

lemma work_run_facts:
  assumes "work_wf H q"
  shows "work_wf H (work_run p q)" "extends_work q (work_run p q)"
  using assms by (cases p; auto simp: add_facts pw_work_queue_cancel_def pw_work_queue_complete_def update_items_facts split: sum.splits)+

lemma work_runs_facts: "work_wf H q \<Longrightarrow> work_wf H (fold work_run ps q) \<and> extends_work q (fold work_run ps q)"
proof (induction ps arbitrary: q)
  case (Cons p ps)
  thus ?case using work_run_facts [OF Cons.prems, of p] extends_trans by fastforce
qed simp

section \<open>No wakeup is lost\<close>

text \<open>Nothing to do for the items \<open>xs\<close>: the first waits, and those that do not wait must run in order.\<close>

definition quiet :: "nat list \<Rightarrow> pw_work_queue \<Rightarrow> bool" where
  "quiet xs q \<longleftrightarrow> xs = [] \<or> waiting q (hd xs) \<and> (\<forall>x\<in>set xs. waiting q x \<or> in_order q x)"

definition first_of :: "nat list \<Rightarrow> nat option" where
  "first_of xs = (case xs of [] \<Rightarrow> None | x # _ \<Rightarrow> Some x)"

lemma next_of_first: "x \<notin> set pre \<Longrightarrow> next_of x (pre @ x # rest) = first_of rest"
  by (induction pre) (auto simp: first_of_def)

lemma quiet_skip:
  assumes "quiet pre q" "work_list q = pre @ x # rest" "skipped x q"
  shows "quiet (pre @ [x]) q"
  using assms by (cases pre) (auto simp: quiet_def skipped_def waiting_def in_order_def)

lemma not_quiet_process:
  assumes "quiet pre q" "extends_work q r" "\<not> signalled r" "set pre \<subseteq> set (work_list q)"
  shows "quiet pre r"
  using assms unfolding extends_work_def quiet_def waiting_def in_order_def by (cases pre) (auto simp: subset_iff)

lemma quiet_append: "quiet pre q \<Longrightarrow> \<forall>x\<in>set new. waiting q x \<Longrightarrow> quiet (pre @ new) q"
  by (cases pre; cases new) (auto simp: quiet_def)

lemma process_item_facts:
  assumes w: "work_wf {} q" and l: "work_list q = pre @ x # rest"
  shows "work_wf {} (process_item body x q)"
    "\<exists>new. work_list (process_item body x q) = pre @ rest @ new \<and>
      (signalled (process_item body x q) \<or> \<not> signalled q \<and> (\<forall>y\<in>set (pre @ rest). item (process_item body x q) y = item q y) \<and>
       (\<forall>y\<in>set new. waiting (process_item body x q) y))"
proof -
  define r where "r = q\<lparr>work_list := pre @ rest, n_queued := n_queued q - 1\<rparr>"
  have x: "x \<notin> set pre" "x \<notin> set rest" using w l by (auto simp: work_wf_def)
  have re: "r = q\<lparr>work_list := removeAll x (work_list q), n_queued := n_queued q - 1\<rparr>" using l x by (simp add: r_def)
  have wr: "work_wf {x} r" using w l x by (auto simp: work_wf_def r_def)
  define s where "s = (case func (item q x) of None \<Rightarrow> r
    | Some f \<Rightarrow> fold work_run (body f (obj (item q x)) (item_data (item q x)) (item_res (item q x)) (item_id (item q x)))
        (r\<lparr>executed := executed r @ [(f, obj (item q x), item_data (item q x), item_res (item q x), item_id (item q x))]\<rparr>))"
  have e: "process_item body x q = s\<lparr>free_list := free_list s @ [x]\<rparr>"
    by (simp add: process_item_def Let_def s_def flip: re)
  have ex: "work_wf {x} (r\<lparr>executed := c\<rparr>)" "extends_work r t = extends_work (r\<lparr>executed := c\<rparr>) t" for c t
    using wr by (simp_all add: work_wf_def extends_work_def)
  have s: "work_wf {x} s" "extends_work r s"
    using wr ex work_runs_facts [OF ex(1)] by (auto simp: s_def split: option.splits)
  show "work_wf {} (process_item body x q)" using s(1) unfolding e work_wf_def by auto
  show "\<exists>new. work_list (process_item body x q) = pre @ rest @ new \<and>
      (signalled (process_item body x q) \<or> \<not> signalled q \<and> (\<forall>y\<in>set (pre @ rest). item (process_item body x q) y = item q y) \<and>
       (\<forall>y\<in>set new. waiting (process_item body x q) y))"
    using s(2) unfolding e extends_work_def by (simp add: r_def waiting_def)
qed

lemma process_loop_quiet:
  assumes "process_loop k body (first_of suf) q = Some q'" "work_wf {} q" "work_list q = pre @ suf" "signalled q \<or> quiet pre q"
  shows "work_wf {} q' \<and> (signalled q' \<or> quiet (work_list q') q')"
  using assms
proof (induction k arbitrary: pre suf q)
  case 0
  thus ?case by (cases suf) (auto simp: first_of_def)
next
  case (Suc k)
  show ?case
  proof (cases suf)
    case Nil
    thus ?thesis using Suc.prems by (simp add: first_of_def)
  next
    case (Cons x rest)
    have l: "work_list q = pre @ x # rest" using Suc.prems(3) Cons by simp
    have x: "x \<notin> set pre" using Suc.prems(2) l by (auto simp: work_wf_def)
    have n: "next_of x (work_list q) = first_of rest" using l x by (simp add: next_of_first)
    show ?thesis
    proof (cases "skipped x q")
      case True
      have "process_loop k body (first_of rest) q = Some q'" using Suc.prems(1) Cons True n by (simp add: first_of_def Let_def)
      thus ?thesis using Suc.IH [of rest q "pre @ [x]"] Suc.prems(2,4) l quiet_skip [OF _ l True] by auto
    next
      case False
      let ?r = "process_item body x q"
      have r: "process_loop k body (first_of rest) ?r = Some q'" using Suc.prems(1) Cons False n by (simp add: first_of_def Let_def)
      note w = process_item_facts [OF Suc.prems(2) l]
      obtain new where new: "work_list ?r = pre @ rest @ new"
          "signalled ?r \<or> \<not> signalled q \<and> (\<forall>y\<in>set (pre @ rest). item ?r y = item q y) \<and> (\<forall>y\<in>set new. waiting ?r y)"
        using w(2) [of body] by blast
      have q: "signalled ?r \<or> quiet pre ?r"
        using new(2) Suc.prems(4) by (cases pre) (auto simp: quiet_def waiting_def in_order_def)
      show ?thesis
      proof (cases "rest = []")
        case True
        have "signalled ?r \<or> quiet (pre @ new) ?r" using q new(2) quiet_append [of pre ?r new] by auto
        thus ?thesis using Suc.IH [of "[]" ?r "pre @ new"] r w(1) new(1) True by simp
      next
        case False
        hence "first_of rest = first_of (rest @ new)" by (cases rest) (simp_all add: first_of_def)
        thus ?thesis using Suc.IH [of "rest @ new" ?r pre] r w(1) new(1) q by simp
      qed
    qed
  qed
qed

lemma work_reach_quiet: "work_reach body q \<Longrightarrow> work_wf {} q \<and> (signalled q \<or> quiet (work_list q) q)"
proof (induction rule: work_reach.induct)
  case init
  show ?case by (simp add: work_wf_def quiet_def pw_work_queue_new_def)
next
  case (op q p)
  have w: "work_wf {} (work_run p q)" "extends_work q (work_run p q)" using work_run_facts op.IH by blast+
  then obtain new where "work_list (work_run p q) = work_list q @ new"
      "signalled (work_run p q) \<or> \<not> signalled q \<and> (\<forall>x\<in>set (work_list q). item (work_run p q) x = item q x) \<and> (\<forall>x\<in>set new. waiting (work_run p q) x)"
    unfolding extends_work_def by blast
  moreover have "quiet (work_list q) (work_run p q)" if "\<not> signalled (work_run p q)"
    using not_quiet_process [OF _ w(2) that] op.IH calculation(2) that by auto
  ultimately show ?case using w(1) quiet_append by metis
next
  case (wakeup q k q')
  show ?case
    by (rule process_loop_quiet [where suf = "work_list q" and pre = "[]" and q = "q\<lparr>signalled := False\<rparr>" and k = k and body = body])
      (use wakeup in \<open>auto simp: process_work_queue_def first_of_def work_wf_def quiet_def\<close>)
qed

text \<open>
  C39: no wakeup of a work queue is lost. Whenever the loop has no wakeup pending, either the queue is empty or
  its first item waits for an asynchronous completion, and every item that waits for none is one that must
  run in order. Every item is in at most one of the lists, once, and the counter is the length of the work list.
\<close>

theorem work_queue_no_lost_wakeup:
  assumes "work_reach body q"
  shows "distinct (work_list q @ free_list q) \<and> n_queued q = of_nat (length (work_list q)) \<and>
    (signalled q \<or> work_list q = [] \<or> waiting q (hd (work_list q)) \<and> (\<forall>x\<in>set (work_list q). waiting q x \<or> in_order q x))"
  using work_reach_quiet [OF assms] by (auto simp: work_wf_def quiet_def)

text \<open>An item that waits for the completion 5 of its object, and one behind it that must run in order.\<close>

definition demo_work :: pw_work_queue where
  "demo_work = work_run (Add True 1 (- 16) (Some 0) 0) (work_run (Add True 1 1073741829 (Some 0) 0) pw_work_queue_new)"

lemma demo_work_reach: "work_reach body demo_work"
  unfolding demo_work_def by (intro work_reach.op work_reach.init)

lemma demo_work_facts: "work_list demo_work = [0, 1]" "n_queued demo_work = 2" "signalled demo_work" "free_list demo_work = []"
  by (simp_all add: demo_work_def pw_work_queue_add_def pw_work_queue_new_def take_item_def Let_def SPA_RESULT_IS_ASYNC_def next_id_def)

theorem work_queue_no_lost_wakeup_witness:
  "distinct (work_list demo_work @ free_list demo_work) \<and> n_queued demo_work = of_nat (length [0 :: nat, 1])"
  using work_queue_no_lost_wakeup [OF demo_work_reach [of "\<lambda>_ _ _ _ _. []"]] by (simp add: demo_work_facts)

section \<open>Processing ends\<close>

text \<open>
  Functions may add work whose functions add work. Processing ends when that is bounded: every function has a
  rank that bounds the weight of the work it adds.
\<close>

definition weight :: "(nat \<Rightarrow> nat) \<Rightarrow> nat option \<Rightarrow> nat" where
  "weight rk f = (case f of None \<Rightarrow> 1 | Some g \<Rightarrow> rk g + 1)"

fun op_weight :: "(nat \<Rightarrow> nat) \<Rightarrow> work_op \<Rightarrow> nat" where
  "op_weight rk (Add mem ob res f data) = weight rk f"
| "op_weight rk (Cancel ob i) = 0"
| "op_weight rk (Complete ob s res) = 0"

definition bounded_by :: "(nat \<Rightarrow> nat) \<Rightarrow> work_body \<Rightarrow> bool" where
  "bounded_by rk body \<longleftrightarrow> (\<forall>f ob d r i. sum_list (map (op_weight rk) (body f ob d r i)) \<le> rk f)"

definition load_of :: "(nat \<Rightarrow> nat) \<Rightarrow> pw_work_queue \<Rightarrow> nat list \<Rightarrow> nat" where
  "load_of rk q xs = sum_list (map (\<lambda>x. weight rk (func (item q x))) xs)"

text \<open>An operation adds no more than its weight and makes no item heavier.\<close>

definition lighter :: "(nat \<Rightarrow> nat) \<Rightarrow> nat \<Rightarrow> pw_work_queue \<Rightarrow> pw_work_queue \<Rightarrow> bool" where
  "lighter rk n q q' \<longleftrightarrow> (\<forall>x\<in>set (work_list q). weight rk (func (item q' x)) \<le> weight rk (func (item q x))) \<and>
     (\<exists>new. work_list q' = work_list q @ new \<and> load_of rk q' new \<le> n)"

lemma load_of_mono: "\<forall>x\<in>set xs. weight rk (func (item q' x)) \<le> weight rk (func (item q x)) \<Longrightarrow> load_of rk q' xs \<le> load_of rk q xs"
  by (induction xs) (auto simp: load_of_def add_mono)

lemma load_of_append [simp]: "load_of rk q (xs @ ys) = load_of rk q xs + load_of rk q ys"
  by (simp add: load_of_def)

lemma lighter_trans:
  assumes "lighter rk m q r" "lighter rk n r s"
  shows "lighter rk (m + n) q s"
proof -
  obtain a b where a: "work_list r = work_list q @ a" "load_of rk r a \<le> m" and b: "work_list s = work_list r @ b" "load_of rk s b \<le> n"
    using assms unfolding lighter_def by blast
  have "load_of rk s a \<le> load_of rk r a" using assms(2) a(1) by (intro load_of_mono) (auto simp: lighter_def)
  hence "load_of rk s (a @ b) \<le> m + n" using a(2) b(2) by simp
  moreover have "weight rk (func (item s x)) \<le> weight rk (func (item q x))" if "x \<in> set (work_list q)" for x
    using that assms a(1) le_trans unfolding lighter_def by (metis UnCI set_append)
  ultimately show ?thesis unfolding lighter_def using a(1) b(1) by auto
qed

lemma lighter_add:
  assumes "work_wf H q"
  shows "lighter rk (weight rk f) q (snd (pw_work_queue_add mem ob res f data q))"
proof (cases "take_item mem q")
  case None
  thus ?thesis by (simp add: pw_work_queue_add_def lighter_def load_of_def)
next
  case (Some p)
  then obtain x r where r: "take_item mem q = Some (x, r)" by (cases p) auto
  note t = take_item_wf [OF assms r]
  show ?thesis
    using t(3-5) by (auto simp: pw_work_queue_add_def r Let_def lighter_def load_of_def)
qed

lemma fold_items_item:
  assumes "\<And>w. weight rk (func (f w)) \<le> weight rk (func w)"
  shows "weight rk (func (item (fold (\<lambda>x q. if m (item q x) then q\<lparr>item := (item q)(x := f (item q x))\<rparr> else q) xs q) y)) \<le> weight rk (func (item q y))"
proof (induction xs arbitrary: q)
  case (Cons x xs)
  let ?r = "if m (item q x) then q\<lparr>item := (item q)(x := f (item q x))\<rparr> else q"
  have "weight rk (func (item ?r y)) \<le> weight rk (func (item q y))" using assms by simp
  thus ?case using Cons.IH [of ?r] le_trans by fastforce
qed simp

lemma lighter_update:
  assumes "\<And>w. weight rk (func (f w)) \<le> weight rk (func w)" "update_items m f q = Inr r"
  shows "lighter rk 0 q r"
  using assms(2) fold_items [of m f "work_list q" q] fold_items_item [OF assms(1), of m "work_list q" q]
  by (auto simp: update_items_def lighter_def Let_def load_of_def split: if_splits)

lemma lighter_run:
  assumes "work_wf H q"
  shows "lighter rk (op_weight rk p) q (work_run p q)"
proof (cases p)
  case (Add mem ob res f data)
  thus ?thesis using lighter_add [OF assms] by simp
next
  case (Cancel ob i)
  show ?thesis
  proof (cases "pw_work_queue_cancel ob i q")
    case (Inr r)
    have "lighter rk 0 q r" by (rule lighter_update [OF _ Inr [unfolded pw_work_queue_cancel_def]]) (auto simp: weight_def split: option.splits)
    thus ?thesis using Cancel Inr by simp
  qed (use Cancel in \<open>simp add: lighter_def load_of_def\<close>)
next
  case (Complete ob s res)
  show ?thesis
  proof (cases "pw_work_queue_complete ob s res q")
    case (Inr r)
    have "lighter rk 0 q r" by (rule lighter_update [OF _ Inr [unfolded pw_work_queue_complete_def]]) simp
    thus ?thesis using Complete Inr by simp
  qed (use Complete in \<open>simp add: lighter_def load_of_def\<close>)
qed

lemma lighter_runs: "work_wf H q \<Longrightarrow> lighter rk (sum_list (map (op_weight rk) ps)) q (fold work_run ps q)"
proof (induction ps arbitrary: q)
  case (Cons p ps)
  have "work_wf H (work_run p q)" by (rule work_run_facts(1) [OF Cons.prems])
  thus ?case using lighter_trans [OF lighter_run [OF Cons.prems] Cons.IH] by simp
qed (simp add: lighter_def load_of_def)

lemma process_item_load:
  assumes w: "work_wf {} q" and l: "work_list q = pre @ x # rest" and b: "bounded_by rk body"
  shows "\<exists>new. work_list (process_item body x q) = pre @ rest @ new \<and> load_of rk (process_item body x q) (rest @ new) < load_of rk q (x # rest)"
proof -
  define r where "r = q\<lparr>work_list := pre @ rest, n_queued := n_queued q - 1\<rparr>"
  have x: "x \<notin> set pre" "x \<notin> set rest" using w l by (auto simp: work_wf_def)
  have re: "r = q\<lparr>work_list := removeAll x (work_list q), n_queued := n_queued q - 1\<rparr>" using l x by (simp add: r_def)
  have wr: "work_wf {x} (r\<lparr>executed := c\<rparr>)" for c using w l x by (auto simp: work_wf_def r_def)
  show ?thesis
  proof (cases "func (item q x)")
    case None
    have "process_item body x q = r\<lparr>free_list := free_list r @ [x]\<rparr>" using None by (simp add: process_item_def Let_def flip: re)
    thus ?thesis using None by (intro exI [of _ "[]"]) (simp add: r_def load_of_def weight_def)
  next
    case (Some f)
    let ?c = "(f, obj (item q x), item_data (item q x), item_res (item q x), item_id (item q x))"
    let ?ps = "body f (obj (item q x)) (item_data (item q x)) (item_res (item q x)) (item_id (item q x))"
    let ?r = "r\<lparr>executed := executed r @ [?c]\<rparr>"
    define s where "s = fold work_run ?ps ?r"
    have e: "process_item body x q = s\<lparr>free_list := free_list s @ [x]\<rparr>"
      using Some by (simp add: process_item_def Let_def s_def flip: re)
    have s: "lighter rk (sum_list (map (op_weight rk) ?ps)) ?r s" unfolding s_def by (rule lighter_runs [OF wr])
    then obtain new where new: "work_list s = pre @ rest @ new" "load_of rk s new \<le> sum_list (map (op_weight rk) ?ps)"
      by (auto simp: lighter_def r_def)
    have "load_of rk s rest \<le> load_of rk ?r rest" using s by (intro load_of_mono) (auto simp: lighter_def r_def)
    moreover have "load_of rk ?r rest = load_of rk q rest" by (simp add: load_of_def r_def)
    moreover have "sum_list (map (op_weight rk) ?ps) \<le> rk f" using b by (simp add: bounded_by_def)
    ultimately have "load_of rk s (rest @ new) < load_of rk q (x # rest)"
      using new(2) Some by (simp add: load_of_def weight_def)
    thus ?thesis using new(1) unfolding e by (intro exI [of _ new]) (simp add: load_of_def)
  qed
qed

lemma process_loop_returns:
  assumes "bounded_by rk body" "work_wf {} q" "work_list q = pre @ suf" "load_of rk q suf \<le> k"
  shows "process_loop k body (first_of suf) q \<noteq> None"
  using assms(2-)
proof (induction k arbitrary: pre suf q)
  case 0
  thus ?case by (cases suf) (auto simp: first_of_def load_of_def weight_def split: option.splits)
next
  case (Suc k)
  show ?case
  proof (cases suf)
    case (Cons x rest)
    have l: "work_list q = pre @ x # rest" using Suc.prems(2) Cons by simp
    have x: "x \<notin> set pre" using Suc.prems(1) l by (auto simp: work_wf_def)
    have n: "next_of x (work_list q) = first_of rest" using l x by (simp add: next_of_first)
    show ?thesis
    proof (cases "skipped x q")
      case True
      have "load_of rk q rest \<le> k" using Suc.prems(3) Cons by (simp add: load_of_def weight_def split: option.splits)
      thus ?thesis using Suc.IH [of q "pre @ [x]" rest] Suc.prems(1) l True n Cons by (simp add: first_of_def Let_def)
    next
      case False
      obtain new where new: "work_list (process_item body x q) = pre @ rest @ new"
          "load_of rk (process_item body x q) (rest @ new) < load_of rk q (x # rest)"
        using process_item_load [OF Suc.prems(1) l assms(1)] by blast
      have w: "work_wf {} (process_item body x q)" by (rule process_item_facts(1) [OF Suc.prems(1) l])
      have "load_of rk (process_item body x q) (rest @ new) \<le> k" using new(2) Suc.prems(3) Cons by simp
      hence "process_loop k body (first_of (rest @ new)) (process_item body x q) \<noteq> None"
        using Suc.IH [OF w new(1)] by simp
      moreover have "first_of rest = None \<or> first_of rest = first_of (rest @ new)" by (cases rest) (simp_all add: first_of_def)
      ultimately show ?thesis using False n Cons by (auto simp: first_of_def Let_def)
    qed
  qed (simp add: first_of_def)
qed

text \<open>
  C40: \<^verbatim>\<open>process_work_queue\<close> returns when the work that functions add is bounded: when every function has a rank
  no smaller than the ranks, each plus one, of all the work it adds. The steps it takes are at most the ranks of the
  queued work, each plus one.
\<close>

theorem process_work_queue_returns:
  assumes "work_reach body q" "bounded_by rk body" "load_of rk q (work_list q) \<le> k"
  shows "\<exists>q'. process_work_queue k body (q\<lparr>signalled := False\<rparr>) = Some q'"
proof -
  have "work_wf {} (q\<lparr>signalled := False\<rparr>)" using work_reach_quiet [OF assms(1)] by (simp add: work_wf_def)
  from process_loop_returns [OF assms(2) this, of "[]" "work_list q" k] assms(3)
  show ?thesis by (simp add: process_work_queue_def first_of_def load_of_def)
qed

text \<open>Function 1 adds one call of function 0.\<close>

theorem process_work_queue_returns_witness:
  "\<exists>q'. process_work_queue 2 (\<lambda>f _ _ _ _. if f = 1 then [Add True 1 0 (Some 0) 0] else []) (demo_work\<lparr>signalled := False\<rparr>) = Some q'"
proof (rule process_work_queue_returns [where rk = "\<lambda>f. if f = 1 then 1 else 0", OF demo_work_reach])
  show "bounded_by (\<lambda>f. if f = 1 then 1 else 0) (\<lambda>f _ _ _ _. if f = 1 then [Add True 1 0 (Some 0) 0] else [])"
    by (simp add: bounded_by_def weight_def)
  show "load_of (\<lambda>f. if f = 1 then 1 else 0) demo_work (work_list demo_work) \<le> 2"
    unfolding demo_work_facts
    by (simp add: demo_work_def pw_work_queue_add_def pw_work_queue_new_def take_item_def Let_def load_of_def weight_def)
qed

end
