(* ===== verification/Spec2Isabelle.thy ===== *)
theory Spec2Isabelle
  imports PW_Prelude PW_Ringbuffer PW_Meta PW_Stream PW_Ndarray PW_Dense PW_Workers PW_Map PW_List PW_Rates PW_Graph PW_Timer PW_Work
begin

text \<open>
  Verification of the core of PipeWireAO.
\<close>

end
